(* ===== verification/Can_Prelude.thy ===== *)
theory Can_Prelude
  imports Main "HOL-Library.Word"
begin

text \<open>
  The prelude of the development: the machine types of the 32-bit little-endian ARM target, the
  error numbers the code returns, the byte images of integers (what \<^verbatim>\<open>memcpy\<close> of an
  integer into or out of a byte buffer does), C's \<^verbatim>\<open>memcpy\<close> and the generic lemmas on lists,
  words and blocks that the component theories share.
\<close>

unbundle bit_operations_syntax

type_synonym byte = "8 word"
type_synonym u8 = "8 word"
type_synonym u16 = "16 word"
type_synonym u32 = "32 word"
type_synonym u64 = "64 word"

text \<open>The error numbers the sources store in \<^verbatim>\<open>errno\<close> or return negated.\<close>

datatype errno = EINVAL | ENOMEM | EOVERFLOW | EIO | EINTR | EOTHER

named_theorems wire_simps \<open>lengths and decodings of byte images\<close>
named_theorems ring_simps \<open>functional laws of the ring buffer\<close>

section \<open>Byte images of integers\<close>

text \<open>
  \<^verbatim>\<open>memcpy(&buf, &w, n)\<close> of an integer on a little-endian machine: byte \<open>i\<close> of the image holds
  bits \<open>8 * i\<close> to \<open>8 * i + 7\<close>.  \<open>le_word\<close> reads such an image back.
\<close>

definition le_bytes :: "nat \<Rightarrow> 'a::len word \<Rightarrow> byte list" where
  "le_bytes n w = map (\<lambda>i. ucast (drop_bit (8 * i) w)) [0..<n]"

fun le_word :: "byte list \<Rightarrow> 'a::len word" where
  "le_word [] = 0"
| "le_word (b # bs) = ucast b OR push_bit 8 (le_word bs)"

declare le_word.simps(2) [simp del]

lemma length_le_bytes [simp, wire_simps]: "length (le_bytes n w) = n"
  by (simp add: le_bytes_def)

lemma nth_le_bytes: "i < n \<Longrightarrow> le_bytes n w ! i = ucast (drop_bit (8 * i) w)"
  by (simp add: le_bytes_def)

lemma bit_le_word:
  "bit (le_word bs :: 'a::len word) k \<longleftrightarrow>
     k < LENGTH('a) \<and> k div 8 < length bs \<and> bit (bs ! (k div 8)) (k mod 8)"
proof (induction bs arbitrary: k)
  case Nil
  then show ?case by simp
next
  case (Cons b bs)
  show ?case
  proof (cases "k < 8")
    case True
    then show ?thesis
      by (auto simp: le_word.simps bit_or_iff bit_push_bit_iff bit_ucast_iff)
  next
    case False
    then obtain j where j: "k = j + 8" by (metis add.commute le_add_diff_inverse not_less)
    have nb: "\<not> bit b (j + 8)"
      using bit_imp_le_length[of b "j + 8"] by auto
    have "(j + 8) div 8 = Suc (j div 8)" "(j + 8) mod 8 = j mod 8" by auto
    then show ?thesis
      using Cons.IH[of j] nb by (auto simp: j le_word.simps bit_or_iff bit_push_bit_iff bit_ucast_iff)
  qed
qed

lemma le_word_le_bytes [simp, wire_simps]:
  "LENGTH('a) \<le> 8 * n \<Longrightarrow> le_word (le_bytes n (w :: 'a::len word)) = w"
proof (rule bit_word_eqI)
  fix k assume n: "LENGTH('a) \<le> 8 * n" and k: "k < LENGTH('a)"
  then have "k div 8 < n" by auto
  then show "bit (le_word (le_bytes n w) :: 'a word) k = bit w k"
    using k by (simp add: bit_le_word nth_le_bytes bit_ucast_iff bit_drop_bit_eq)
qed

lemma le_bytes_le_word [simp]:
  "8 * length bs \<le> LENGTH('a) \<Longrightarrow> le_bytes (length bs) (le_word bs :: 'a::len word) = bs"
proof (rule nth_equalityI)
  fix i assume n: "8 * length bs \<le> LENGTH('a)"
    and "i < length (le_bytes (length bs) (le_word bs :: 'a word))"
  then have i: "i < length bs" by simp
  show "le_bytes (length bs) (le_word bs :: 'a word) ! i = bs ! i"
  proof (rule bit_word_eqI)
    fix k assume "k < LENGTH(8)"
    then have k: "k < 8" by simp
    have "8 * i + k < LENGTH('a)" using n i k by linarith
    moreover have "(8 * i + k) div 8 = i" "(8 * i + k) mod 8 = k" using k by auto
    ultimately show "bit (le_bytes (length bs) (le_word bs :: 'a word) ! i) k = bit (bs ! i) k"
      using i k by (simp add: nth_le_bytes bit_ucast_iff bit_drop_bit_eq bit_le_word)
  qed
qed simp

lemma le_bytes_inj: "LENGTH('a) \<le> 8 * n \<Longrightarrow> le_bytes n v = le_bytes n w \<Longrightarrow> v = (w :: 'a::len word)"
  by (metis le_word_le_bytes)

section \<open>Words, lists and block copies\<close>

lemma xor_cancel_right [simp]: "(a XOR c = b XOR c) \<longleftrightarrow> a = (b :: 'a::len word)"
proof
  assume "a XOR c = b XOR c"
  then have "(a XOR c) XOR c = (b XOR c) XOR c" by (simp only:)
  then show "a = b" by (simp only: xor.assoc xor_self_eq xor.right_neutral)
qed simp

lemma xor_cancel_left [simp]: "(c XOR a = c XOR b) \<longleftrightarrow> a = (b :: 'a::len word)"
  by (simp add: xor.commute[of c])

lemma unat_2p: "k < LENGTH('a) \<Longrightarrow> unat (2 ^ k :: 'a::len word) = 2 ^ k"
  using unat_of_nat[of "2 ^ k", where 'a='a] by simp

lemma unat_mult_small:
  "unat (a :: u32) * unat b < 2 ^ 32 \<Longrightarrow> unat (a * b) = unat a * unat b"
  using unat_mult_lem[of a b] by simp

lemma unat_sub_small: "b \<le> a \<Longrightarrow> unat (a - b :: 'a::len word) = unat a - unat b"
  by (rule unat_sub)

lemma unat_add_mod_dvd:
  "n dvd 2 ^ 32 \<Longrightarrow> unat (a + b :: u32) mod n = (unat a + unat b) mod n"
  by (simp add: unat_word_ariths mod_mod_cancel)

text \<open>Slots of a cyclic buffer: offsets below the capacity never meet.\<close>

lemma mod_offset_neq:
  assumes "i < n" and "n < (c::nat)"
  shows "(a + i) mod c \<noteq> (a + n) mod c"
proof
  assume "(a + i) mod c = (a + n) mod c"
  then have "c dvd (a + n) - (a + i)"
    using assms by (metis add_le_cancel_left less_imp_le_nat mod_eq_dvd_iff_nat)
  then have "c dvd n - i" by simp
  then show False using assms by (meson diff_is_0_eq' dvd_imp_le less_imp_diff_less linorder_not_le zero_less_diff)
qed

text \<open>C's \<^verbatim>\<open>memcpy (dst + off, src, n)\<close> on the bytes of an object.\<close>

definition memcpy :: "byte list \<Rightarrow> nat \<Rightarrow> byte list \<Rightarrow> nat \<Rightarrow> byte list" where
  "memcpy dst off src n = take off dst @ take n src @ drop (off + n) dst"

lemma length_memcpy [simp]:
  "off + n \<le> length dst \<Longrightarrow> n \<le> length src \<Longrightarrow> length (memcpy dst off src n) = length dst"
  by (simp add: memcpy_def)

lemma memcpy_none [simp]: "memcpy dst off src 0 = dst"
  by (simp add: memcpy_def)

lemma take_drop_memcpy_same:
  "off + n \<le> length dst \<Longrightarrow> n \<le> length src \<Longrightarrow>
   take n (drop off (memcpy dst off src n)) = take n src"
  by (simp add: memcpy_def)

lemma take_drop_memcpy_before:
  "off + n \<le> length dst \<Longrightarrow> n \<le> length src \<Longrightarrow> p + k \<le> off \<Longrightarrow>
   take k (drop p (memcpy dst off src n)) = take k (drop p dst)"
  by (simp add: take_drop memcpy_def min_def add.commute)

lemma take_drop_memcpy_after:
  "off + n \<le> length dst \<Longrightarrow> n \<le> length src \<Longrightarrow> off + n \<le> p \<Longrightarrow>
   take k (drop p (memcpy dst off src n)) = take k (drop p dst)"
  by (simp add: memcpy_def)

end
