(* ===== verification/Wire_Bytes.thy ===== *)
theory Wire_Bytes
  imports Can_Prelude
begin

text \<open>
  Byte order and checksum of the wire format (\<^verbatim>\<open>src/main18.c\<close>): the three byte-reversal
  functions, and the 32-bit XOR checksum that closes every packet exchanged with the host.

  \<open>xor_loop\<close> follows the loop of \<open>calculate_xor_checksum\<close>: \<open>i\<close> advances by four, a last partial
  word is padded with zero bytes, as the \<^verbatim>\<open>memcpy\<close> into a zeroed word does.  \<open>xor_words\<close> is the
  reference definition by recursion on the bytes.
\<close>

section \<open>Byte order\<close>

definition reverse_2bytes :: "u16 \<Rightarrow> u16" where
  "reverse_2bytes value = push_bit 8 (value AND 0x00FF) OR drop_bit 8 (value AND 0xFF00)"

definition reverse_4bytes :: "u32 \<Rightarrow> u32" where
  "reverse_4bytes value =
     push_bit 24 (value AND 0x000000FF) OR push_bit 8 (value AND 0x0000FF00) OR
     drop_bit 8 (value AND 0x00FF0000) OR drop_bit 24 (value AND 0xFF000000)"

definition swap_endian_32bit :: "u32 \<Rightarrow> u32" where
  "swap_endian_32bit value =
     drop_bit 24 (value AND 0xFF000000) OR drop_bit 8 (value AND 0x00FF0000) OR
     push_bit 8 (value AND 0x0000FF00) OR push_bit 24 (value AND 0x000000FF)"

lemma byte_masks:
  "(0x000000FF :: u32) = mask 8" "(0x0000FF00 :: u32) = push_bit 8 (mask 8)"
  "(0x00FF0000 :: u32) = push_bit 16 (mask 8)" "(0xFF000000 :: u32) = push_bit 24 (mask 8)"
  "(0x00FF :: u16) = mask 8" "(0xFF00 :: u16) = push_bit 8 (mask 8)"
  by (simp_all add: mask_eq_exp_minus_1)

lemma byte_index_cases:
  assumes "(i::nat) < 8 * n"
  obtains j c where "i = j + 8 * c" "j < 8" "c < n"
proof
  show "i = i mod 8 + 8 * (i div 8)" "i mod 8 < 8" by simp_all
  show "i div 8 < n" using assms by auto
qed

lemma byte_divmod:
  assumes "(j::nat) < 8"
  shows "(j + 8) div 8 = 1" "(8 + j) div 8 = 1" "(j + 16) div 8 = 2" "(16 + j) div 8 = 2"
    "(j + 24) div 8 = 3" "(24 + j) div 8 = 3" "(j + 8) mod 8 = j" "(8 + j) mod 8 = j"
    "(j + 16) mod 8 = j" "(16 + j) mod 8 = j" "(j + 24) mod 8 = j" "(24 + j) mod 8 = j"
  using assms mod_mult_self1[of j 2 8] mod_mult_self1[of j 3 8] by (auto simp: add.commute)

lemma reverse_4bytes_le_word: "reverse_4bytes (le_word [a, b, c, d]) = le_word [d, c, b, a]"
proof (rule bit_word_eqI)
  fix i assume "i < LENGTH(32)"
  then have "i < 8 * 4" by simp
  then obtain j k where jk: "i = j + 8 * k" "j < 8" "k < 4" by (rule byte_index_cases)
  then consider "k = 0" | "k = 1" | "k = 2" | "k = 3" by linarith
  then show "bit (reverse_4bytes (le_word [a, b, c, d])) i = bit (le_word [d, c, b, a] :: u32) i"
    using jk by cases (simp_all add: reverse_4bytes_def byte_masks bit_simps bit_le_word
        byte_divmod nth_Cons_numeral)
qed

lemma reverse_2bytes_le_word: "reverse_2bytes (le_word [a, b]) = le_word [b, a]"
proof (rule bit_word_eqI)
  fix i assume "i < LENGTH(16)"
  then have "i < 8 * 2" by simp
  then obtain j k where jk: "i = j + 8 * k" "j < 8" "k < 2" by (rule byte_index_cases)
  then consider "k = 0" | "k = 1" by linarith
  then show "bit (reverse_2bytes (le_word [a, b])) i = bit (le_word [b, a] :: u16) i"
    using jk by cases (simp_all add: reverse_2bytes_def byte_masks bit_simps bit_le_word
        byte_divmod)
qed

lemma u32_le_cases: obtains a b c d where "(w :: u32) = le_word [a, b, c, d]"
proof -
  have "w = le_word (le_bytes 4 w)" by simp
  moreover have "\<exists>a b c d. le_bytes 4 w = [a, b, c, d]"
    by (simp add: le_bytes_def upt_rec)
  ultimately show ?thesis using that by metis
qed

lemma u16_le_cases: obtains a b where "(w :: u16) = le_word [a, b]"
proof -
  have "w = le_word (le_bytes 2 w)" by simp
  moreover have "\<exists>a b. le_bytes 2 w = [a, b]"
    by (simp add: le_bytes_def upt_rec)
  ultimately show ?thesis using that by metis
qed

lemma reverse_4bytes_involution [simp]: "reverse_4bytes (reverse_4bytes w) = w"
proof -
  obtain a b c d where "w = le_word [a, b, c, d]" by (rule u32_le_cases)
  then show ?thesis by (simp only: reverse_4bytes_le_word)
qed

lemma reverse_2bytes_involution [simp]: "reverse_2bytes (reverse_2bytes w) = w"
proof -
  obtain a b where "w = le_word [a, b]" by (rule u16_le_cases)
  then show ?thesis by (simp only: reverse_2bytes_le_word)
qed

lemma swap_endian_eq_reverse: "swap_endian_32bit = reverse_4bytes"
  by (simp add: fun_eq_iff swap_endian_32bit_def reverse_4bytes_def ac_simps)

lemma le_bytes_reverse_4bytes: "le_bytes 4 (reverse_4bytes w) = rev (le_bytes 4 w)"
proof -
  obtain a b c d where w: "w = le_word [a, b, c, d]" by (rule u32_le_cases)
  have "le_bytes 4 (le_word [d, c, b, a] :: u32) = [d, c, b, a]"
    using le_bytes_le_word[of "[d, c, b, a]", where 'a=32] by (simp add: numeral_eq_Suc)
  moreover have "le_bytes 4 (le_word [a, b, c, d] :: u32) = [a, b, c, d]"
    using le_bytes_le_word[of "[a, b, c, d]", where 'a=32] by (simp add: numeral_eq_Suc)
  ultimately show ?thesis by (simp add: w reverse_4bytes_le_word)
qed

section \<open>The XOR checksum\<close>

function xor_loop :: "byte list \<Rightarrow> nat \<Rightarrow> nat \<Rightarrow> u32 \<Rightarrow> u32" where
  "xor_loop data len i res =
     (if i < len
      then let remaining = len - i;
               word = le_word (take (if remaining < 4 then remaining else 4) (drop i data))
           in xor_loop data len (i + 4) (res XOR word)
      else res)"
  by pat_completeness auto
termination
  by (relation "measure (\<lambda>(data, len, i, res). len - i)") auto

declare xor_loop.simps [simp del]

definition calculate_xor_checksum :: "byte list option \<Rightarrow> nat \<Rightarrow> u32" where
  "calculate_xor_checksum data len =
     (case data of None \<Rightarrow> 0 | Some bytes \<Rightarrow> if len = 0 then 0 else xor_loop bytes len 0 0)"

fun xor_words :: "byte list \<Rightarrow> u32" where
  "xor_words (a # b # c # d # bs) = le_word [a, b, c, d] XOR xor_words bs"
| "xor_words bs = le_word bs"

lemma xor_words_step: "xor_words bs = le_word (take 4 bs) XOR xor_words (drop 4 bs)"
  by (cases bs rule: xor_words.cases) simp_all

lemma xor_loop_eq_words:
  "len \<le> length data \<Longrightarrow> xor_loop data len i res = res XOR xor_words (drop i (take len data))"
proof (induction data len i res rule: xor_loop.induct)
  case (1 data len i res)
  show ?case
  proof (cases "i < len")
    case True
    have t: "take (if len - i < 4 then len - i else 4) (drop i data) = take 4 (drop i (take len data))"
      by (simp add: drop_take min_def)
    have "xor_loop data len i res = xor_loop data len (i + 4) (res XOR le_word (take 4 (drop i (take len data))))"
      using True by (subst xor_loop.simps) (simp add: t)
    also have "\<dots> = res XOR (le_word (take 4 (drop i (take len data))) XOR xor_words (drop (i + 4) (take len data)))"
      using 1(1)[OF True refl refl] 1(2) by (simp add: t xor.assoc)
    finally show ?thesis
      by (simp add: xor_words_step[of "drop i (take len data)"] add.commute)
  next
    case False
    then show ?thesis by (subst xor_loop.simps) simp
  qed
qed

lemma xor_words_append: "4 dvd length xs \<Longrightarrow> xor_words (xs @ ys) = xor_words xs XOR xor_words ys"
proof (induction xs rule: xor_words.induct)
  case (1 a b c d bs)
  from 1(2) have "4 dvd length bs" unfolding list.size by presburger
  with 1(1) show ?case by (simp add: xor.assoc)
qed (simp_all, presburger+)


lemma checksum_eq_words:
  "len \<le> length data \<Longrightarrow> calculate_xor_checksum (Some data) len = xor_words (take len data)"
  by (simp add: calculate_xor_checksum_def xor_loop_eq_words)

lemma le_word_inj4:
  assumes "length xs = length ys" and "length xs \<le> 4"
    and "(le_word xs :: u32) = le_word ys"
  shows "xs = ys"
proof -
  have "xs = le_bytes (length xs) (le_word xs :: u32)" using assms(2) by simp
  also have "\<dots> = le_bytes (length ys) (le_word ys :: u32)" by (simp only: assms(1,3))
  also have "\<dots> = ys" using assms(1,2) by simp
  finally show ?thesis .
qed

lemma xor_words_short: "length bs \<le> 4 \<Longrightarrow> xor_words bs = le_word bs"
  by (cases bs rule: xor_words.cases) auto

lemma xor_words_update:
  "i < length xs \<Longrightarrow> b \<noteq> xs ! i \<Longrightarrow> xor_words (xs[i := b]) \<noteq> xor_words xs"
proof (induction xs arbitrary: i rule: length_induct)
  case (1 xs)
  have split: "take 4 (xs[i := b]) = (take 4 xs)[i := b]"
    "drop 4 (xs[i := b]) = (if i < 4 then drop 4 xs else (drop 4 xs)[i - 4 := b])"
    by (simp_all add: take_update_swap drop_update_swap)
  show ?case
  proof (cases "i < 4")
    case True
    have "(take 4 xs)[i := b] \<noteq> take 4 xs"
      using "1.prems" True by (metis length_take list_update_id min_less_iff_conj nth_list_update_eq nth_take)
    then have "le_word ((take 4 xs)[i := b]) \<noteq> (le_word (take 4 xs) :: u32)"
      using le_word_inj4[of "(take 4 xs)[i := b]" "take 4 xs"] by auto
    then show ?thesis
      using True by (subst (1 2) xor_words_step) (simp add: split)
  next
    case False
    then have "xor_words ((drop 4 xs)[i - 4 := b]) \<noteq> xor_words (drop 4 xs)"
      using "1.IH" "1.prems" by simp
    then show ?thesis
      using False by (subst (1 2) xor_words_step) (simp add: split list_update_beyond)
  qed
qed

lemma xor_words_self_check: "4 dvd length bs \<Longrightarrow> xor_words (bs @ le_bytes 4 (xor_words bs)) = 0"
  by (simp add: xor_words_append xor_words_short)

section \<open>Properties\<close>

text \<open>
  The byte-order conversion applied to every multi-byte field of a packet is its own inverse, for
  both widths, and writing a converted word to memory stores its bytes in the opposite order.
\<close>

lemma byte_order_roundtrip:
  "reverse_4bytes (reverse_4bytes w) = w \<and> reverse_2bytes (reverse_2bytes h) = h \<and>
   swap_endian_32bit w = reverse_4bytes w \<and> le_bytes 4 (reverse_4bytes w) = rev (le_bytes 4 w)"
  by (simp add: swap_endian_eq_reverse le_bytes_reverse_4bytes)

text \<open>
  The checksum of a packet detects every corruption of a single byte: if one of the summed bytes
  changes to another value, the computed checksum changes.
\<close>

lemma checksum_detects_byte_change:
  assumes "len \<le> length data" and "i < len" and "b \<noteq> data ! i"
  shows "calculate_xor_checksum (Some (data[i := b])) len \<noteq> calculate_xor_checksum (Some data) len"
proof -
  have "take len (data[i := b]) = (take len data)[i := b]" by (simp add: take_update_swap)
  then show ?thesis
    using assms xor_words_update[of i "take len data" b] by (simp add: checksum_eq_words)
qed

end
