(* ===== verification/Wire_Structs.thy ===== *)
theory Wire_Structs
  imports Wire_Bytes
begin

text \<open>
  The packed structures that cross a process boundary (\<^verbatim>\<open>src/main18.c\<close> and
  \<^verbatim>\<open>src/axican/zmuav_axican.h\<close>): a record with the fields of the C structure, the byte image that
  the compiler lays out for it on the little-endian target, and the reading of a structure out of a byte
  buffer, which is what the casts of received buffers do.  Every pair is shown to be a round trip.
  Array members are lists whose length is part of the well-formedness of the record.
\<close>

section \<open>Reading integers out of a buffer\<close>

definition u8_at :: "byte list \<Rightarrow> nat \<Rightarrow> u8" where
  "u8_at bs k = bs ! k"

definition u16_at :: "byte list \<Rightarrow> nat \<Rightarrow> u16" where
  "u16_at bs k = le_word (take 2 (drop k bs))"

definition u32_at :: "byte list \<Rightarrow> nat \<Rightarrow> u32" where
  "u32_at bs k = le_word (take 4 (drop k bs))"

definition u64_at :: "byte list \<Rightarrow> nat \<Rightarrow> u64" where
  "u64_at bs k = le_word (take 8 (drop k bs))"

lemmas at_defs [wire_simps] = u8_at_def u16_at_def u32_at_def u64_at_def nth_append

lemma at_image:
  "k + 1 \<le> length bs \<Longrightarrow> [u8_at bs k] = take 1 (drop k bs)"
  "k + 2 \<le> length bs \<Longrightarrow> le_bytes 2 (u16_at bs k) = take 2 (drop k bs)"
  "k + 4 \<le> length bs \<Longrightarrow> le_bytes 4 (u32_at bs k) = take 4 (drop k bs)"
  "k + 8 \<le> length bs \<Longrightarrow> le_bytes 8 (u64_at bs k) = take 8 (drop k bs)"
proof -
  show "k + 1 \<le> length bs \<Longrightarrow> [u8_at bs k] = take 1 (drop k bs)"
    by (simp add: u8_at_def take_Suc_conv_app_nth)
  show "k + 2 \<le> length bs \<Longrightarrow> le_bytes 2 (u16_at bs k) = take 2 (drop k bs)"
    using le_bytes_le_word[of "take 2 (drop k bs)", where 'a=16] by (simp add: u16_at_def)
  show "k + 4 \<le> length bs \<Longrightarrow> le_bytes 4 (u32_at bs k) = take 4 (drop k bs)"
    using le_bytes_le_word[of "take 4 (drop k bs)", where 'a=32] by (simp add: u32_at_def)
  show "k + 8 \<le> length bs \<Longrightarrow> le_bytes 8 (u64_at bs k) = take 8 (drop k bs)"
    using le_bytes_le_word[of "take 8 (drop k bs)", where 'a=64] by (simp add: u64_at_def)
qed

lemma take_drop_join:
  "take a (drop k bs) @ take b (drop (k + a) bs) = take (a + b) (drop k bs)"
  by (simp add: take_add add.commute)

section \<open>The CAN frame of the driver\<close>

record axican_frame =
  af_can_id :: u32
  af_can_dlc :: u32
  af_data0 :: u32
  af_data1 :: u32
  af_timestamp :: u64

definition axican_frame_bytes :: "axican_frame \<Rightarrow> byte list" where
  "axican_frame_bytes f = le_bytes 4 (af_can_id f) @ le_bytes 4 (af_can_dlc f) @
     le_bytes 4 (af_data0 f) @ le_bytes 4 (af_data1 f) @ le_bytes 8 (af_timestamp f)"

definition axican_frame_of :: "byte list \<Rightarrow> axican_frame" where
  "axican_frame_of bs = \<lparr>af_can_id = u32_at bs 0, af_can_dlc = u32_at bs 4,
     af_data0 = u32_at bs 8, af_data1 = u32_at bs 12, af_timestamp = u64_at bs 16\<rparr>"

lemma axican_frame_roundtrip [simp]:
  "length (axican_frame_bytes f) = 24" "axican_frame_of (axican_frame_bytes f) = f"
  by (simp_all add: axican_frame_bytes_def axican_frame_of_def wire_simps)

lemma axican_frame_image:
  "length bs = 24 \<Longrightarrow> axican_frame_bytes (axican_frame_of bs) = bs"
  using take_drop_join[of 4 0 bs 20] take_drop_join[of 4 4 bs 16] take_drop_join[of 4 8 bs 12]
    take_drop_join[of 4 12 bs 8]
  by (simp add: axican_frame_bytes_def axican_frame_of_def at_image)

section \<open>The 48-byte payload of a CAN frame sent by the host\<close>

record PC_ARM_DATA_DATA =
  pd_head :: u32
  pd_direction :: u8
  pd_type :: u8
  pd_length :: u8
  pd_ch_id :: u8
  pd_total_count :: u32
  pd_ch_count :: u32
  pd_idr :: u32
  pd_drcr :: u32
  pd_dw1r :: u32
  pd_dw2r :: u32
  pd_packets_sum :: u16
  pd_packets_no :: u16
  pd_timestamp :: u64
  pd_xor_checksum :: u32

definition pc_arm_data_bytes :: "PC_ARM_DATA_DATA \<Rightarrow> byte list" where
  "pc_arm_data_bytes p = le_bytes 4 (pd_head p) @ [pd_direction p] @ [pd_type p] @ [pd_length p] @ [pd_ch_id p] @
     le_bytes 4 (pd_total_count p) @ le_bytes 4 (pd_ch_count p) @
     le_bytes 4 (pd_idr p) @ le_bytes 4 (pd_drcr p) @ le_bytes 4 (pd_dw1r p) @ le_bytes 4 (pd_dw2r p) @
     le_bytes 2 (pd_packets_sum p) @ le_bytes 2 (pd_packets_no p) @ le_bytes 8 (pd_timestamp p) @
     le_bytes 4 (pd_xor_checksum p)"

definition pc_arm_data_of :: "byte list \<Rightarrow> PC_ARM_DATA_DATA" where
  "pc_arm_data_of bs = \<lparr>pd_head = u32_at bs 0, pd_direction = u8_at bs 4, pd_type = u8_at bs 5,
     pd_length = u8_at bs 6, pd_ch_id = u8_at bs 7, pd_total_count = u32_at bs 8,
     pd_ch_count = u32_at bs 12, pd_idr = u32_at bs 16, pd_drcr = u32_at bs 20, pd_dw1r = u32_at bs 24,
     pd_dw2r = u32_at bs 28, pd_packets_sum = u16_at bs 32, pd_packets_no = u16_at bs 34,
     pd_timestamp = u64_at bs 36, pd_xor_checksum = u32_at bs 44\<rparr>"

lemma pc_arm_data_roundtrip [simp]:
  "length (pc_arm_data_bytes p) = 48" "pc_arm_data_of (pc_arm_data_bytes p) = p"
  by (simp_all add: pc_arm_data_bytes_def pc_arm_data_of_def wire_simps)

lemma pc_arm_data_image:
  "length bs = 48 \<Longrightarrow> pc_arm_data_bytes (pc_arm_data_of bs) = bs"
  using take_drop_join[of 4 0 bs 44] take_drop_join[of 1 4 bs 43] take_drop_join[of 1 5 bs 42]
    take_drop_join[of 1 6 bs 41] take_drop_join[of 1 7 bs 40] take_drop_join[of 4 8 bs 36]
    take_drop_join[of 4 12 bs 32] take_drop_join[of 4 16 bs 28] take_drop_join[of 4 20 bs 24]
    take_drop_join[of 4 24 bs 20] take_drop_join[of 4 28 bs 16] take_drop_join[of 2 32 bs 14]
    take_drop_join[of 2 34 bs 12] take_drop_join[of 8 36 bs 4]
  by (simp add: pc_arm_data_bytes_def pc_arm_data_of_def at_image)

section \<open>The 288-byte simulator configuration\<close>

record PC_ARM_SIMULATOR_DATA =
  sd_head :: u32
  sd_direction :: u8
  sd_type :: u8
  sd_length :: u16
  sd_channel_id :: u8
  sd_total_count :: u32
  sd_channel_count :: u32
  sd_packet_type :: u16
  sd_can_id :: u32
  sd_data_type :: u32
  sd_rcv_len :: u16
  sd_send_len :: u16
  sd_reserved :: u8
  sd_send_data :: "byte list"

definition pc_arm_sim_bytes :: "PC_ARM_SIMULATOR_DATA \<Rightarrow> byte list" where
  "pc_arm_sim_bytes p = le_bytes 4 (sd_head p) @ [sd_direction p] @ [sd_type p] @ le_bytes 2 (sd_length p) @
     [sd_channel_id p] @ le_bytes 4 (sd_total_count p) @ le_bytes 4 (sd_channel_count p) @
     le_bytes 2 (sd_packet_type p) @ le_bytes 4 (sd_can_id p) @ le_bytes 4 (sd_data_type p) @
     le_bytes 2 (sd_rcv_len p) @ le_bytes 2 (sd_send_len p) @ [sd_reserved p] @ sd_send_data p"

definition pc_arm_sim_of :: "byte list \<Rightarrow> PC_ARM_SIMULATOR_DATA" where
  "pc_arm_sim_of bs = \<lparr>sd_head = u32_at bs 0, sd_direction = u8_at bs 4, sd_type = u8_at bs 5,
     sd_length = u16_at bs 6, sd_channel_id = u8_at bs 8, sd_total_count = u32_at bs 9,
     sd_channel_count = u32_at bs 13, sd_packet_type = u16_at bs 17, sd_can_id = u32_at bs 19,
     sd_data_type = u32_at bs 23, sd_rcv_len = u16_at bs 27, sd_send_len = u16_at bs 29,
     sd_reserved = u8_at bs 31, sd_send_data = take 256 (drop 32 bs)\<rparr>"

lemma pc_arm_sim_roundtrip [simp]:
  "length (sd_send_data p) = 256 \<Longrightarrow> length (pc_arm_sim_bytes p) = 288"
  "length (sd_send_data p) = 256 \<Longrightarrow> pc_arm_sim_of (pc_arm_sim_bytes p) = p"
  by (simp_all add: pc_arm_sim_bytes_def pc_arm_sim_of_def wire_simps)

section \<open>Parameters of the commands\<close>

record CanConfigParam =
  cp_head :: u32
  cp_direction :: u8
  cp_type :: u8
  cp_length :: u8
  cp_ch_id :: u8
  cp_total_count :: u32
  cp_ch_count :: u32
  cp_baud_rate :: u32
  cp_mode :: u8
  cp_auto_send :: u8
  cp_ier :: u16
  cp_Packet_Interval :: u32
  cp_CAN_DATA_MODE :: u16
  cp_reserved :: "byte list"
  cp_timestamp :: u64
  cp_xor_checksum :: u32

definition can_config_bytes :: "CanConfigParam \<Rightarrow> byte list" where
  "can_config_bytes p = le_bytes 4 (cp_head p) @ [cp_direction p] @ [cp_type p] @ [cp_length p] @ [cp_ch_id p] @
     le_bytes 4 (cp_total_count p) @ le_bytes 4 (cp_ch_count p) @ le_bytes 4 (cp_baud_rate p) @
     [cp_mode p] @ [cp_auto_send p] @ le_bytes 2 (cp_ier p) @ le_bytes 4 (cp_Packet_Interval p) @
     le_bytes 2 (cp_CAN_DATA_MODE p) @ cp_reserved p @ le_bytes 8 (cp_timestamp p) @
     le_bytes 4 (cp_xor_checksum p)"

definition can_config_of :: "byte list \<Rightarrow> CanConfigParam" where
  "can_config_of bs = \<lparr>cp_head = u32_at bs 0, cp_direction = u8_at bs 4, cp_type = u8_at bs 5,
     cp_length = u8_at bs 6, cp_ch_id = u8_at bs 7, cp_total_count = u32_at bs 8,
     cp_ch_count = u32_at bs 12, cp_baud_rate = u32_at bs 16, cp_mode = u8_at bs 20,
     cp_auto_send = u8_at bs 21, cp_ier = u16_at bs 22, cp_Packet_Interval = u32_at bs 24,
     cp_CAN_DATA_MODE = u16_at bs 28, cp_reserved = take 6 (drop 30 bs),
     cp_timestamp = u64_at bs 36, cp_xor_checksum = u32_at bs 44\<rparr>"

lemma can_config_roundtrip [simp]:
  "length (cp_reserved p) = 6 \<Longrightarrow> length (can_config_bytes p) = 48"
  "length (cp_reserved p) = 6 \<Longrightarrow> can_config_of (can_config_bytes p) = p"
  by (simp_all add: can_config_bytes_def can_config_of_def wire_simps)

record BroadcastConfigParam =
  bp_head :: u32
  bp_direction :: u8
  bp_type :: u8
  bp_length :: u8
  bp_reserved :: u8
  bp_config_count :: u32
  bp_enable :: u8
  bp_b_mode :: u8
  bp_start_group :: u8
  bp_start_channel :: u8
  bp_active_mask :: u32
  bp_group_a_mask :: u32
  bp_group_b_mask :: u32
  bp_timestamp :: u64
  bp_xor_checksum :: u32

definition bcast_config_bytes :: "BroadcastConfigParam \<Rightarrow> byte list" where
  "bcast_config_bytes p = le_bytes 4 (bp_head p) @ [bp_direction p] @ [bp_type p] @ [bp_length p] @
     [bp_reserved p] @ le_bytes 4 (bp_config_count p) @ [bp_enable p] @ [bp_b_mode p] @
     [bp_start_group p] @ [bp_start_channel p] @ le_bytes 4 (bp_active_mask p) @
     le_bytes 4 (bp_group_a_mask p) @ le_bytes 4 (bp_group_b_mask p) @ le_bytes 8 (bp_timestamp p) @
     le_bytes 4 (bp_xor_checksum p)"

definition bcast_config_of :: "byte list \<Rightarrow> BroadcastConfigParam" where
  "bcast_config_of bs = \<lparr>bp_head = u32_at bs 0, bp_direction = u8_at bs 4, bp_type = u8_at bs 5,
     bp_length = u8_at bs 6, bp_reserved = u8_at bs 7, bp_config_count = u32_at bs 8,
     bp_enable = u8_at bs 12, bp_b_mode = u8_at bs 13, bp_start_group = u8_at bs 14,
     bp_start_channel = u8_at bs 15, bp_active_mask = u32_at bs 16, bp_group_a_mask = u32_at bs 20,
     bp_group_b_mask = u32_at bs 24, bp_timestamp = u64_at bs 28, bp_xor_checksum = u32_at bs 36\<rparr>"

lemma bcast_config_roundtrip [simp]:
  "length (bcast_config_bytes p) = 40" "bcast_config_of (bcast_config_bytes p) = p"
  by (simp_all add: bcast_config_bytes_def bcast_config_of_def wire_simps)

section \<open>Request headers\<close>

record ReqPacket =
  rq_sync_word :: u32
  rq_data_len :: u32
  rq_counter :: u16
  rq_cmd_type :: u16
  rq_checksum :: u32
  rq_data :: "byte list"

definition req_packet_bytes :: "ReqPacket \<Rightarrow> byte list" where
  "req_packet_bytes r = le_bytes 4 (rq_sync_word r) @ le_bytes 4 (rq_data_len r) @ le_bytes 2 (rq_counter r) @
     le_bytes 2 (rq_cmd_type r) @ le_bytes 4 (rq_checksum r) @ rq_data r"

definition req_packet_of :: "byte list \<Rightarrow> ReqPacket" where
  "req_packet_of bs = \<lparr>rq_sync_word = u32_at bs 0, rq_data_len = u32_at bs 4, rq_counter = u16_at bs 8,
     rq_cmd_type = u16_at bs 10, rq_checksum = u32_at bs 12, rq_data = drop 16 bs\<rparr>"

lemma req_packet_roundtrip [simp]:
  "length (req_packet_bytes r) = 16 + length (rq_data r)" "req_packet_of (req_packet_bytes r) = r"
  by (simp_all add: req_packet_bytes_def req_packet_of_def wire_simps)

record DATA_ReqPacket =
  dq_sync_word :: u32
  dq_data_len :: u32
  dq_counter :: u16
  dq_cmd_type :: u16
  dq_checksum :: u32
  dq_channel :: u32
  dq_data :: "byte list"

definition data_req_bytes :: "DATA_ReqPacket \<Rightarrow> byte list" where
  "data_req_bytes r = le_bytes 4 (dq_sync_word r) @ le_bytes 4 (dq_data_len r) @ le_bytes 2 (dq_counter r) @
     le_bytes 2 (dq_cmd_type r) @ le_bytes 4 (dq_checksum r) @ le_bytes 4 (dq_channel r) @ dq_data r"

definition data_req_of :: "byte list \<Rightarrow> DATA_ReqPacket" where
  "data_req_of bs = \<lparr>dq_sync_word = u32_at bs 0, dq_data_len = u32_at bs 4, dq_counter = u16_at bs 8,
     dq_cmd_type = u16_at bs 10, dq_checksum = u32_at bs 12, dq_channel = u32_at bs 16, dq_data = drop 20 bs\<rparr>"

lemma data_req_roundtrip [simp]:
  "length (data_req_bytes r) = 20 + length (dq_data r)" "data_req_of (data_req_bytes r) = r"
  by (simp_all add: data_req_bytes_def data_req_of_def wire_simps)

section \<open>A broadcast group: up to 128 frames queued for one pulse\<close>

record BroadcastFrameGroup =
  bg_group_id :: u32
  bg_frame_count :: u16
  bg_frames :: "axican_frame list"

definition zero_frame :: axican_frame where
  "zero_frame = \<lparr>af_can_id = 0, af_can_dlc = 0, af_data0 = 0, af_data1 = 0, af_timestamp = 0\<rparr>"

text \<open>Two padding bytes align the frames, whose time stamp is 64 bits wide.\<close>

definition bcast_group_bytes :: "BroadcastFrameGroup \<Rightarrow> byte list" where
  "bcast_group_bytes g = le_bytes 4 (bg_group_id g) @ le_bytes 2 (bg_frame_count g) @ [0, 0] @
     concat (map axican_frame_bytes (bg_frames g))"

definition bcast_group_of :: "byte list \<Rightarrow> BroadcastFrameGroup" where
  "bcast_group_of bs = \<lparr>bg_group_id = u32_at bs 0, bg_frame_count = u16_at bs 4,
     bg_frames = map (\<lambda>i. axican_frame_of (take 24 (drop (8 + 24 * i) bs))) [0..<128]\<rparr>"

lemma length_concat_frames [simp]: "length (concat (map axican_frame_bytes fs)) = 24 * length fs"
  by (induction fs) simp_all

lemma frames_at:
  "i < length fs \<Longrightarrow> take 24 (drop (24 * i) (concat (map axican_frame_bytes fs))) = axican_frame_bytes (fs ! i)"
proof (induction fs arbitrary: i)
  case (Cons f fs)
  then show ?case by (cases i) simp_all
qed simp

lemma bcast_group_roundtrip [simp]:
  assumes "length (bg_frames g) = 128"
  shows "length (bcast_group_bytes g) = 3080" and "bcast_group_of (bcast_group_bytes g) = g"
proof -
  have "map (\<lambda>i. axican_frame_of (take 24 (drop (8 + 24 * i) (bcast_group_bytes g)))) [0..<128] = bg_frames g"
    using assms by (intro nth_equalityI) (simp_all add: bcast_group_bytes_def frames_at)
  then show "bcast_group_of (bcast_group_bytes g) = g"
    by (simp add: bcast_group_of_def) (simp add: bcast_group_bytes_def wire_simps)
qed (use assms in \<open>simp add: bcast_group_bytes_def\<close>)

section \<open>Structures only sent\<close>

record CAN_Send_Response =
  rs_HEAD :: u32
  rs_LENGTH :: u32
  rs_COUNT :: u16
  rs_COMMOND :: u16
  rs_Checksum :: u32
  rs_STATUS :: u32

definition zero_response :: CAN_Send_Response where
  "zero_response = \<lparr>rs_HEAD = 0, rs_LENGTH = 0, rs_COUNT = 0, rs_COMMOND = 0, rs_Checksum = 0, rs_STATUS = 0\<rparr>"

definition send_response_bytes :: "CAN_Send_Response \<Rightarrow> byte list" where
  "send_response_bytes r = le_bytes 4 (rs_HEAD r) @ le_bytes 4 (rs_LENGTH r) @ le_bytes 2 (rs_COUNT r) @
     le_bytes 2 (rs_COMMOND r) @ le_bytes 4 (rs_Checksum r) @ le_bytes 4 (rs_STATUS r)"

lemma length_send_response [simp]: "length (send_response_bytes r) = 20"
  by (simp add: send_response_bytes_def)

record ARM_PC_STATUS_DATA =
  st_arm_head :: u32
  st_arm_length :: u32
  st_arm_conter :: u16
  st_arm_commond :: u16
  st_arm_check :: u32
  st_arm_chind :: u32
  st_head :: u32
  st_direction :: u8
  st_type :: u8
  st_length :: u8
  st_ch_id :: u8
  st_total_count :: u32
  st_ch_count :: u32
  st_idr :: u32
  st_drcr :: u32
  st_dw1r :: u32
  st_dw2r :: u32
  st_states :: u8
  st_xor_states :: u8
  st_reserved2 :: u16
  st_timestamp :: u64
  st_xor_checksum :: u32

definition status_bytes :: "ARM_PC_STATUS_DATA \<Rightarrow> byte list" where
  "status_bytes r = le_bytes 4 (st_arm_head r) @ le_bytes 4 (st_arm_length r) @ le_bytes 2 (st_arm_conter r) @
     le_bytes 2 (st_arm_commond r) @ le_bytes 4 (st_arm_check r) @ le_bytes 4 (st_arm_chind r) @
     le_bytes 4 (st_head r) @ [st_direction r, st_type r, st_length r, st_ch_id r] @
     le_bytes 4 (st_total_count r) @ le_bytes 4 (st_ch_count r) @ le_bytes 4 (st_idr r) @
     le_bytes 4 (st_drcr r) @ le_bytes 4 (st_dw1r r) @ le_bytes 4 (st_dw2r r) @
     [st_states r, st_xor_states r] @ le_bytes 2 (st_reserved2 r) @ le_bytes 8 (st_timestamp r) @
     le_bytes 4 (st_xor_checksum r)"

lemma length_status [simp]: "length (status_bytes r) = 68"
  by (simp add: status_bytes_def)

record CanBufRemainingResponse =
  br_channel :: u8
  br_normal_buf_remaining :: u32
  br_pulse_buf_remaining :: u32
  br_sim_buf_remaining :: u32
  br_dmaddr_space :: u32
  br_vfifo_space :: u32
  br_axififo_space :: u32

definition buf_remaining_bytes :: "CanBufRemainingResponse \<Rightarrow> byte list" where
  "buf_remaining_bytes r = [br_channel r] @ le_bytes 4 (br_normal_buf_remaining r) @
     le_bytes 4 (br_pulse_buf_remaining r) @ le_bytes 4 (br_sim_buf_remaining r) @
     le_bytes 4 (br_dmaddr_space r) @ le_bytes 4 (br_vfifo_space r) @ le_bytes 4 (br_axififo_space r)"

record MultiChannelBufResponse =
  mc_head :: u32
  mc_length :: u32
  mc_count :: u16
  mc_commond :: u16
  mc_checksum :: u32
  mc_channels :: "CanBufRemainingResponse list"

definition multi_buf_bytes :: "MultiChannelBufResponse \<Rightarrow> byte list" where
  "multi_buf_bytes m = le_bytes 4 (mc_head m) @ le_bytes 4 (mc_length m) @ le_bytes 2 (mc_count m) @
     le_bytes 2 (mc_commond m) @ le_bytes 4 (mc_checksum m) @
     concat (map buf_remaining_bytes (mc_channels m))"

lemma length_buf_remaining [simp]: "length (buf_remaining_bytes r) = 25"
  by (simp add: buf_remaining_bytes_def)

lemma length_concat_remaining [simp]:
  "length (concat (map buf_remaining_bytes rs)) = 25 * length rs"
  by (induction rs) simp_all

lemma length_multi_buf [simp]: "length (multi_buf_bytes m) = 16 + 25 * length (mc_channels m)"
  by (simp add: multi_buf_bytes_def)

record EventPacket =
  ev_sync_word :: u32
  ev_data_len :: u32
  ev_level :: u32
  ev_id :: u32
  ev_timestamp :: u16
  ev_checksum :: u16
  ev_description :: "byte list"

definition event_bytes :: "EventPacket \<Rightarrow> byte list" where
  "event_bytes e = le_bytes 4 (ev_sync_word e) @ le_bytes 4 (ev_data_len e) @ le_bytes 4 (ev_level e) @
     le_bytes 4 (ev_id e) @ le_bytes 2 (ev_timestamp e) @ le_bytes 2 (ev_checksum e) @ ev_description e"

section \<open>Property\<close>



end
