(* ===== verification/Ring_Pow2.thy ===== *)
theory Ring_Pow2
  imports Can_Prelude
begin

text \<open>
  The two power-of-two helpers of \<^verbatim>\<open>src/ringbuffer_channels.c\<close>: the bit trick that tests for a power
  of two and the bit-smearing routine that rounds down to one, each shown to compute what its name says.
\<close>

definition is_power_of_2 :: "u32 \<Rightarrow> bool" where
  "is_power_of_2 n \<longleftrightarrow> n \<noteq> 0 \<and> n AND (n - 1) = 0"

definition rounddown_pow_of_two :: "u32 \<Rightarrow> u32" where
  "rounddown_pow_of_two n =
     (if n = 0 then 0
      else let n = n OR drop_bit 1 n;
               n = n OR drop_bit 2 n;
               n = n OR drop_bit 4 n;
               n = n OR drop_bit 8 n;
               n = n OR drop_bit 16 n
           in n - drop_bit 1 n)"

lemma word_lowest_bit:
  assumes "(n :: u32) \<noteq> 0"
  obtains k where "k < 32" "bit n k" "\<And>j. j < k \<Longrightarrow> \<not> bit n j"
proof -
  have "\<exists>k. bit n k" using assms by (metis bit_0_eq bit_word_eqI bot_apply bot_bool_def)
  then obtain k where "bit n k" "\<And>j. j < k \<Longrightarrow> \<not> bit n j"
    using exists_least_iff[of "bit n"] by blast
  moreover from this have "k < 32" using bit_imp_le_length[of n k] by simp
  ultimately show ?thesis using that by blast
qed

lemma is_power_of_2_iff: "is_power_of_2 n \<longleftrightarrow> (\<exists>k < 32. n = 2 ^ k)"
proof
  assume p: "is_power_of_2 n"
  then obtain k where k: "k < 32" "bit n k" "\<And>j. j < k \<Longrightarrow> \<not> bit n j"
    using word_lowest_bit[of n] by (auto simp: is_power_of_2_def)
  let ?hi = "push_bit (Suc k) (drop_bit (Suc k) n)"
  have n: "n = ?hi + 2 ^ k"
  proof -
    have "?hi + 2 ^ k = ?hi OR 2 ^ k"
      by (rule disjunctive_add) (auto simp: bit_simps simp del: push_bit_Suc)
    also have "\<dots> = n"
    proof (rule bit_word_eqI)
      fix j assume "j < LENGTH(32)"
      then show "bit (?hi OR 2 ^ k) j = bit n j"
        using k by (cases j k rule: linorder_cases) (auto simp: bit_simps Suc_le_eq simp del: push_bit_Suc)
    qed
    finally show ?thesis ..
  qed
  have "n - 1 = ?hi + mask k"
    by (subst n) (simp add: mask_eq_exp_minus_1)
  also have "\<dots> = ?hi OR mask k"
    by (rule disjunctive_add) (auto simp: bit_simps)
  finally have n1: "n - 1 = ?hi OR mask k" .
  have "?hi = 0"
  proof (rule bit_word_eqI)
    fix j assume "j < LENGTH(32)"
    have "\<not> bit (n AND (n - 1)) j" using p by (simp add: is_power_of_2_def)
    then show "bit ?hi j = bit 0 j" using n1 by (auto simp: bit_simps simp del: push_bit_Suc)
  qed
  with n k show "\<exists>k < 32. n = 2 ^ k" by auto
next
  assume "\<exists>k < 32. n = 2 ^ k"
  then obtain k where k: "k < 32" "n = 2 ^ k" by blast
  have "(2 ^ k :: u32) AND mask k = 0"
    by (rule bit_word_eqI) (auto simp: bit_simps)
  then show "is_power_of_2 n"
    using k by (simp add: is_power_of_2_def mask_eq_exp_minus_1)
qed

lemma smear_step:
  assumes "\<And>i. bit (m :: u32) i \<longleftrightarrow> (\<exists>j. i \<le> j \<and> j < i + w \<and> bit n j)"
  shows "bit (m OR drop_bit w m) i \<longleftrightarrow> (\<exists>j. i \<le> j \<and> j < i + (w + w) \<and> bit n j)"
proof -
  have "bit (m OR drop_bit w m) i \<longleftrightarrow>
      (\<exists>j. i \<le> j \<and> j < i + w \<and> bit n j) \<or> (\<exists>j. w + i \<le> j \<and> j < w + i + w \<and> bit n j)"
    by (simp add: bit_simps assms)
  also have "\<dots> \<longleftrightarrow> (\<exists>j. i \<le> j \<and> j < i + (w + w) \<and> bit n j)"
  proof
    assume "(\<exists>j. i \<le> j \<and> j < i + w \<and> bit n j) \<or> (\<exists>j. w + i \<le> j \<and> j < w + i + w \<and> bit n j)"
    then show "\<exists>j. i \<le> j \<and> j < i + (w + w) \<and> bit n j"
    proof (elim disjE exE conjE)
      fix j assume "w + i \<le> j" "j < w + i + w" "bit n j"
      then show ?thesis by (intro exI[of _ j]) simp
    next
      fix j assume "i \<le> j" "j < i + w" "bit n j"
      then show ?thesis by (intro exI[of _ j]) simp
    qed
  next
    assume "\<exists>j. i \<le> j \<and> j < i + (w + w) \<and> bit n j"
    then obtain j where "i \<le> j" "j < i + (w + w)" "bit n j" by blast
    then show "(\<exists>j. i \<le> j \<and> j < i + w \<and> bit n j) \<or> (\<exists>j. w + i \<le> j \<and> j < w + i + w \<and> bit n j)"
      by (cases "j < i + w") (auto intro!: exI[of _ j])
  qed
  finally show ?thesis .
qed

lemma rounddown_pow_of_two_spec:
  assumes "n \<noteq> 0"
  obtains k where "k < 32" "rounddown_pow_of_two n = 2 ^ k" "2 ^ k \<le> unat n" "unat n < 2 ^ Suc k"
proof -
  define m1 where "m1 = n OR drop_bit 1 n"
  define m2 where "m2 = m1 OR drop_bit 2 m1"
  define m4 where "m4 = m2 OR drop_bit 4 m2"
  define m8 where "m8 = m4 OR drop_bit 8 m4"
  define m16 where "m16 = m8 OR drop_bit 16 m8"
  have b0: "bit n i \<longleftrightarrow> (\<exists>j. i \<le> j \<and> j < i + 1 \<and> bit n j)" for i
    by (auto simp: less_Suc_eq_le dest: le_antisym)
  have b1: "bit m1 i \<longleftrightarrow> (\<exists>j. i \<le> j \<and> j < i + 2 \<and> bit n j)" for i
    using smear_step[OF b0] by (simp add: m1_def)
  have b2: "bit m2 i \<longleftrightarrow> (\<exists>j. i \<le> j \<and> j < i + 4 \<and> bit n j)" for i
    using smear_step[OF b1] by (simp add: m2_def)
  have b4: "bit m4 i \<longleftrightarrow> (\<exists>j. i \<le> j \<and> j < i + 8 \<and> bit n j)" for i
    using smear_step[OF b2] by (simp add: m4_def)
  have b8: "bit m8 i \<longleftrightarrow> (\<exists>j. i \<le> j \<and> j < i + 16 \<and> bit n j)" for i
    using smear_step[OF b4] by (simp add: m8_def)
  have b16: "bit m16 i \<longleftrightarrow> (\<exists>j. i \<le> j \<and> j < i + 32 \<and> bit n j)" for i
    using smear_step[OF b8] by (simp add: m16_def)
  have lt32: "j < 32" if "bit n j" for j using bit_imp_le_length[of n j] that by simp
  have fin: "finite {j. bit n j}" by (rule finite_subset[of _ "{..<32}"]) (auto dest: lt32)
  have ne: "{j. bit n j} \<noteq> {}" using word_lowest_bit[OF assms] by blast
  define k where "k = Max {j. bit n j}"
  have k: "bit n k" "\<And>j. bit n j \<Longrightarrow> j \<le> k"
    using Max_in[OF fin ne] Max_ge[OF fin] by (auto simp: k_def)
  have k32: "k < 32" using lt32 k(1) .
  have "m16 = mask (Suc k)"
  proof (rule bit_word_eqI)
    fix i assume "i < LENGTH(32)"
    then show "bit m16 i = bit (mask (Suc k) :: u32) i"
      using k k32 by (auto simp: b16 bit_simps less_Suc_eq_le intro: le_trans)
  qed
  moreover have "drop_bit 1 (mask (Suc k) :: u32) = mask k"
    using k32 by (intro bit_word_eqI) (auto simp: bit_simps)
  moreover have "rounddown_pow_of_two n = m16 - drop_bit 1 m16"
    using assms by (simp only: rounddown_pow_of_two_def Let_def m1_def m2_def m4_def m8_def
        m16_def if_False)
  moreover have "mask (Suc k) - mask k = (2 ^ k :: u32)"
    by (simp add: mask_eq_exp_minus_1)
  ultimately have "rounddown_pow_of_two n = 2 ^ k" by (simp only:)
  moreover have "unat n < 2 ^ Suc k"
  proof -
    have "take_bit (Suc k) n = n"
      using k by (intro bit_word_eqI) (auto simp: bit_simps less_Suc_eq_le)
    then have "take_bit (Suc k) (unat n) = unat n"
      by (metis unsigned_take_bit_eq)
    then show ?thesis by (simp add: take_bit_nat_eq_self_iff)
  qed
  moreover have "2 ^ k \<le> unat n"
  proof -
    have "odd (unat n div 2 ^ k)" using k(1) by (simp add: bit_unsigned_iff flip: bit_iff_odd)
    then show ?thesis by (metis div_less even_zero not_le)
  qed
  ultimately show ?thesis using that k32 by blast
qed
section \<open>Property\<close>

text \<open>
  C34.  For every non-zero 32-bit \<open>n\<close> the bit-smearing routine returns the greatest power of two that
  is not above \<open>n\<close>.
\<close>

theorem rounddown_pow_of_two_correct:
  "n \<noteq> 0 \<Longrightarrow> is_power_of_2 (rounddown_pow_of_two n) \<and>
    unat (rounddown_pow_of_two n) \<le> unat n \<and> unat n < 2 * unat (rounddown_pow_of_two n)"
proof -
  assume "n \<noteq> 0"
  then obtain k where k: "k < 32" "rounddown_pow_of_two n = 2 ^ k" "2 ^ k \<le> unat n" "unat n < 2 ^ Suc k"
    by (rule rounddown_pow_of_two_spec)
  then show ?thesis by (auto simp: is_power_of_2_iff unat_2p)
qed

theorem rounddown_pow_of_two_witness:
  "unat (rounddown_pow_of_two 1000) \<le> 1000 \<and> 1000 < 2 * unat (rounddown_pow_of_two 1000)"
  using rounddown_pow_of_two_correct[of 1000] by simp

end
