(* ===== verification/Fifo_Spec.thy ===== *)
theory Fifo_Spec
  imports Main
begin

text \<open>
  The interface of the queues: what a client may rely on, whatever implements them.  A bounded queue
  is a list with a capacity; \<open>spec_put\<close> refuses an element when it is full and \<open>spec_get\<close> returns
  nothing when it is empty.  The locale \<open>bounded_fifo\<close> states that an implementation is related to it
  by an abstraction function and an invariant, and proves once, for every implementation, that whole
  sequences of operations refine the specification and that no element is lost, duplicated or
  reordered.
\<close>

datatype 'a fifo_op = Put 'a | Get

datatype 'a fifo_out = Stored bool | Fetched "'a option"

fun fifo_run ::
    "('q \<Rightarrow> 'a \<Rightarrow> bool \<times> 'q) \<Rightarrow> ('q \<Rightarrow> 'a option \<times> 'q) \<Rightarrow> 'q \<Rightarrow> 'a fifo_op list \<Rightarrow>
     'a fifo_out list \<times> 'q" where
  "fifo_run put get q [] = ([], q)"
| "fifo_run put get q (Put x # ops) =
     (let (b, q1) = put q x; (outs, q2) = fifo_run put get q1 ops in (Stored b # outs, q2))"
| "fifo_run put get q (Get # ops) =
     (let (y, q1) = get q; (outs, q2) = fifo_run put get q1 ops in (Fetched y # outs, q2))"

definition spec_put :: "nat \<Rightarrow> 'a list \<Rightarrow> 'a \<Rightarrow> bool \<times> 'a list" where
  "spec_put n xs x = (if length xs < n then (True, xs @ [x]) else (False, xs))"

definition spec_get :: "'a list \<Rightarrow> 'a option \<times> 'a list" where
  "spec_get xs = (case xs of [] \<Rightarrow> (None, []) | x # xs' \<Rightarrow> (Some x, xs'))"

definition spec_run :: "nat \<Rightarrow> 'a list \<Rightarrow> 'a fifo_op list \<Rightarrow> 'a fifo_out list \<times> 'a list" where
  "spec_run n = fifo_run (spec_put n) spec_get"

fun fetched :: "'a fifo_out list \<Rightarrow> 'a list" where
  "fetched [] = []"
| "fetched (Fetched (Some x) # outs) = x # fetched outs"
| "fetched (_ # outs) = fetched outs"

fun accepted :: "'a fifo_op list \<Rightarrow> 'a fifo_out list \<Rightarrow> 'a list" where
  "accepted (Put x # ops) (Stored True # outs) = x # accepted ops outs"
| "accepted (_ # ops) (_ # outs) = accepted ops outs"
| "accepted _ _ = []"

lemma spec_run_conservation:
  "spec_run n xs ops = (outs, ys) \<Longrightarrow> xs @ accepted ops outs = fetched outs @ ys"
proof (induction ops arbitrary: xs outs ys)
  case Nil
  then show ?case by (simp add: spec_run_def)
next
  case (Cons op ops)
  show ?case
  proof (cases op)
    case (Put x)
    with Cons show ?thesis
      by (cases "length xs < n") (force simp: spec_run_def spec_put_def split: prod.splits)+
  next
    case Get
    with Cons show ?thesis
      by (cases xs) (force simp: spec_run_def spec_get_def split: prod.splits)+
  qed
qed

lemma spec_run_bound:
  "spec_run n xs ops = (outs, ys) \<Longrightarrow> length xs \<le> n \<Longrightarrow> length ys \<le> n"
proof (induction ops arbitrary: xs outs ys)
  case Nil
  then show ?case by (simp add: spec_run_def)
next
  case (Cons op ops)
  show ?case
  proof (cases op)
    case (Put x)
    with Cons show ?thesis
      by (cases "length xs < n") (fastforce simp: spec_run_def spec_put_def split: prod.splits)+
  next
    case Get
    with Cons show ?thesis
      by (cases xs) (fastforce simp: spec_run_def spec_get_def split: prod.splits)+
  qed
qed

locale bounded_fifo =
  fixes put :: "'q \<Rightarrow> 'a \<Rightarrow> bool \<times> 'q"
    and get :: "'q \<Rightarrow> 'a option \<times> 'q"
    and contents :: "'q \<Rightarrow> 'a list"
    and capacity :: "'q \<Rightarrow> nat"
    and fits :: "'q \<Rightarrow> 'a \<Rightarrow> bool"
    and invar :: "'q \<Rightarrow> bool"
  assumes put_law: "invar q \<Longrightarrow> fits q x \<Longrightarrow> put q x = (b, q') \<Longrightarrow>
      invar q' \<and> (b, contents q') = spec_put (capacity q) (contents q) x"
    and get_law: "invar q \<Longrightarrow> get q = (y, q') \<Longrightarrow>
      invar q' \<and> (y, contents q') = spec_get (contents q)"
    and put_frame: "invar q \<Longrightarrow> fits q x \<Longrightarrow> put q x = (b, q') \<Longrightarrow> capacity q' = capacity q \<and> fits q' = fits q"
    and get_frame: "invar q \<Longrightarrow> get q = (y, q') \<Longrightarrow> capacity q' = capacity q \<and> fits q' = fits q"
    and count_bound: "invar q \<Longrightarrow> length (contents q) \<le> capacity q"
begin

lemma run_refines:
  assumes "invar q" and "\<And>x. Put x \<in> set ops \<Longrightarrow> fits q x" and "fifo_run put get q ops = (outs, q')"
  shows "invar q' \<and> spec_run (capacity q) (contents q) ops = (outs, contents q')"
  using assms
proof (induction ops arbitrary: q outs)
  case Nil
  then show ?case by (simp add: spec_run_def)
next
  case (Cons op ops)
  show ?case
  proof (cases op)
    case (Put x)
    obtain b q1 where q1: "put q x = (b, q1)" by fastforce
    obtain outs1 where r: "fifo_run put get q1 ops = (outs1, q')" "outs = Stored b # outs1"
      using Cons.prems(3) by (auto simp: Put q1 split: prod.splits)
    note law = put_law[OF Cons.prems(1) Cons.prems(2)[of x] q1] 
      and frame = put_frame[OF Cons.prems(1) Cons.prems(2)[of x] q1]
    have "invar q' \<and> spec_run (capacity q1) (contents q1) ops = (outs1, contents q')"
      using law frame Cons.prems(2) by (intro Cons.IH[OF _ _ r(1)]) (auto simp: Put)
    then show ?thesis using law frame r(2) by (auto simp: Put spec_run_def split: prod.splits)
  next
    case Get
    obtain y q1 where q1: "get q = (y, q1)" by fastforce
    obtain outs1 where r: "fifo_run put get q1 ops = (outs1, q')" "outs = Fetched y # outs1"
      using Cons.prems(3) by (auto simp: Get q1 split: prod.splits)
    note law = get_law[OF Cons.prems(1) q1] and frame = get_frame[OF Cons.prems(1) q1]
    have "invar q' \<and> spec_run (capacity q1) (contents q1) ops = (outs1, contents q')"
      using law frame Cons.prems(2) by (intro Cons.IH[OF _ _ r(1)]) auto
    then show ?thesis using law frame r(2) by (auto simp: Get spec_run_def split: prod.splits)
  qed
qed

lemma run_conserves:
  assumes "invar q" and "\<And>x. Put x \<in> set ops \<Longrightarrow> fits q x" and "fifo_run put get q ops = (outs, q')"
  shows "contents q @ accepted ops outs = fetched outs @ contents q' \<and>
         length (contents q') \<le> capacity q"
  using run_refines[OF assms] spec_run_conservation spec_run_bound count_bound[OF assms(1)] by metis

end

end
