(* ===== verification/Ring_Buffer.thy ===== *)
theory Ring_Buffer
  imports Ring_Pow2 Fifo_Spec
begin

text \<open>
  One ring buffer (\<^verbatim>\<open>src/ringbuffer_channels.c\<close>, \<open>ringbuffer_*\<close>).

  The read and write indices are free-running 32-bit counters that wrap around; the position in the
  buffer is the counter masked with the capacity minus one.  A null pointer is \<open>None\<close>, the data
  block is a list of bytes (a null block is the empty list).  A function that stores
  an error number and returns 0 yields \<open>Inl\<close> of that number, otherwise \<open>Inr\<close> of the value returned.
  \<^verbatim>\<open>malloc\<close> is driven by an oracle that says which allocations succeed; \<open>heap_state\<close> counts the calls
  and the blocks that are live, so that leaks are visible.
\<close>

record heap_state =
  h_calls :: nat
  h_live :: int

definition malloc :: "(nat \<Rightarrow> bool) \<Rightarrow> heap_state \<Rightarrow> bool \<times> heap_state" where
  "malloc ok h =
     (if ok (h_calls h)
      then (True, h\<lparr>h_calls := Suc (h_calls h), h_live := h_live h + 1\<rparr>)
      else (False, h\<lparr>h_calls := Suc (h_calls h)\<rparr>))"

definition free_block :: "heap_state \<Rightarrow> heap_state" where
  "free_block h = h\<lparr>h_live := h_live h - 1\<rparr>"

record ring_buffer_t =
  rb_data :: "byte list"
  rb_in :: u32
  rb_out :: u32
  rb_mask :: u32
  rb_esize :: u32

definition ringbuffer_create ::
    "(nat \<Rightarrow> bool) \<Rightarrow> heap_state \<Rightarrow> u32 \<Rightarrow> u32 \<Rightarrow> (errno + ring_buffer_t) \<times> heap_state" where
  "ringbuffer_create ok h sz esize =
     (if esize = 0 \<or> sz = 0 then (Inl EINVAL, h)
      else case malloc ok h of
        (False, h1) \<Rightarrow> (Inl ENOMEM, h1)
      | (True, h1) \<Rightarrow>
          (let elem_count = sz div esize;
               elem_count = (if \<not> is_power_of_2 elem_count
                             then rounddown_pow_of_two elem_count else elem_count);
               elem_count = (if elem_count = 0 then 1 else elem_count);
               buf_total_size = elem_count * esize
           in case malloc ok h1 of
                (False, h2) \<Rightarrow> (Inl ENOMEM, free_block h2)
              | (True, h2) \<Rightarrow>
                  (Inr \<lparr>rb_data = replicate (unat buf_total_size) 0, rb_in = 0, rb_out = 0,
                        rb_mask = elem_count - 1, rb_esize = esize\<rparr>, h2)))"

definition ringbuffer_destory :: "heap_state \<Rightarrow> ring_buffer_t option \<Rightarrow> heap_state" where
  "ringbuffer_destory h rb =
     (case rb of None \<Rightarrow> h
      | Some r \<Rightarrow> free_block (if rb_data r \<noteq> [] then free_block h else h))"

definition ringbuffer_copy_in :: "ring_buffer_t \<Rightarrow> byte list \<Rightarrow> u32 \<Rightarrow> u32 \<Rightarrow> ring_buffer_t" where
  "ringbuffer_copy_in rb src len off =
     (let elem_total = rb_mask rb + 1;
          esize = rb_esize rb;
          copy_bytes = len * esize;
          off = off AND rb_mask rb;
          off_bytes = off * esize;
          first_copy = min copy_bytes (elem_total * esize - off_bytes);
          data1 = memcpy (rb_data rb) (unat off_bytes) src (unat first_copy);
          data2 = memcpy data1 0 (drop (unat first_copy) src) (unat (copy_bytes - first_copy))
      in rb\<lparr>rb_data := data2\<rparr>)"

definition ringbuffer_unused :: "ring_buffer_t \<Rightarrow> u32" where
  "ringbuffer_unused rb = (rb_mask rb + 1) - (rb_in rb - rb_out rb)"

definition ringbuffer_put ::
    "ring_buffer_t option \<Rightarrow> byte list option \<Rightarrow> u32 \<Rightarrow> (errno + u32) \<times> ring_buffer_t option" where
  "ringbuffer_put rb buf len =
     (case (rb, buf) of
        (Some r, Some src) \<Rightarrow>
          if len = 0 then (Inl EINVAL, rb)
          else let put_elem = (if len * rb_esize r \<ge> rb_esize r then 1 else 0) in
            if put_elem = 0 then (Inl EINVAL, rb)
            else if put_elem > ringbuffer_unused r then (Inr 0, rb)
            else let r1 = ringbuffer_copy_in r src put_elem (rb_in r)
                 in (Inr put_elem, Some (r1\<lparr>rb_in := rb_in r1 + put_elem\<rparr>))
      | _ \<Rightarrow> (Inl EINVAL, rb))"

definition ringbuffer_copy_out :: "ring_buffer_t \<Rightarrow> byte list \<Rightarrow> u32 \<Rightarrow> u32 \<Rightarrow> byte list" where
  "ringbuffer_copy_out rb dst len off =
     (let elem_total = rb_mask rb + 1;
          esize = rb_esize rb;
          copy_bytes = len * esize;
          off = off AND rb_mask rb;
          off_bytes = off * esize;
          first_copy = min copy_bytes (elem_total * esize - off_bytes);
          dst1 = memcpy dst 0 (drop (unat off_bytes) (rb_data rb)) (unat first_copy)
      in memcpy dst1 (unat first_copy) (rb_data rb) (unat (copy_bytes - first_copy)))"

definition ringbuffer_out_peek ::
    "ring_buffer_t option \<Rightarrow> byte list option \<Rightarrow> u32 \<Rightarrow> u32 \<times> byte list option" where
  "ringbuffer_out_peek rb buf len =
     (case (rb, buf) of
        (Some r, Some dst) \<Rightarrow>
          if len = 0 then (0, buf)
          else let used_elem = rb_in r - rb_out r;
                   peek_elem = min len used_elem
               in if peek_elem = 0 then (0, buf)
                  else (peek_elem, Some (ringbuffer_copy_out r dst peek_elem (rb_out r)))
      | _ \<Rightarrow> (0, buf))"

definition ringbuffer_get ::
    "ring_buffer_t option \<Rightarrow> byte list option \<Rightarrow> u32 \<Rightarrow>
     (errno + u32) \<times> ring_buffer_t option \<times> byte list option" where
  "ringbuffer_get rb buf len =
     (case (rb, buf) of
        (Some r, Some dst) \<Rightarrow>
          if len = 0 then (Inl EINVAL, rb, buf)
          else let get_elem = (if len * rb_esize r \<ge> rb_esize r then 1 else 0) in
            if get_elem = 0 then (Inl EINVAL, rb, buf)
            else (case ringbuffer_out_peek rb buf get_elem of
                    (n, buf1) \<Rightarrow>
                      (Inr n, (if n > 0 then Some (r\<lparr>rb_out := rb_out r + n\<rparr>) else rb), buf1))
      | _ \<Rightarrow> (Inl EINVAL, rb, buf))"

definition ringbuffer_len :: "ring_buffer_t option \<Rightarrow> u32" where
  "ringbuffer_len rb = (case rb of None \<Rightarrow> 0 | Some r \<Rightarrow> rb_in r - rb_out r)"

definition ringbuffer_cap :: "ring_buffer_t option \<Rightarrow> u32" where
  "ringbuffer_cap rb = (case rb of None \<Rightarrow> 0 | Some r \<Rightarrow> rb_mask r + 1)"

definition ringbuffer_avail :: "ring_buffer_t option \<Rightarrow> u32" where
  "ringbuffer_avail rb =
     (case rb of None \<Rightarrow> 0 | Some r \<Rightarrow> ringbuffer_cap rb - ringbuffer_len rb)"

definition ringbuffer_is_full :: "ring_buffer_t option \<Rightarrow> bool" where
  "ringbuffer_is_full rb =
     (case rb of None \<Rightarrow> False | Some r \<Rightarrow> ringbuffer_len rb \<ge> rb_mask r + 1)"

definition ringbuffer_is_empty :: "ring_buffer_t option \<Rightarrow> bool" where
  "ringbuffer_is_empty rb = (case rb of None \<Rightarrow> True | Some r \<Rightarrow> rb_in r = rb_out r)"

definition ringbuffer_reset :: "ring_buffer_t option \<Rightarrow> ring_buffer_t option" where
  "ringbuffer_reset rb = map_option (\<lambda>r. r\<lparr>rb_in := 0, rb_out := 0\<rparr>) rb"

section \<open>Well-formed rings and their contents\<close>

definition rb_capacity :: "ring_buffer_t \<Rightarrow> nat" where
  "rb_capacity rb = unat (rb_mask rb + 1)"

definition rb_count :: "ring_buffer_t \<Rightarrow> nat" where
  "rb_count rb = unat (rb_in rb - rb_out rb)"

definition rb_inv :: "ring_buffer_t \<Rightarrow> bool" where
  "rb_inv rb \<longleftrightarrow> is_power_of_2 (rb_mask rb + 1) \<and> rb_esize rb \<noteq> 0 \<and>
     rb_capacity rb * unat (rb_esize rb) < 2 ^ 32 \<and>
     length (rb_data rb) = rb_capacity rb * unat (rb_esize rb) \<and>
     rb_count rb \<le> rb_capacity rb"

definition rb_slot :: "ring_buffer_t \<Rightarrow> nat \<Rightarrow> byte list" where
  "rb_slot rb i = take (unat (rb_esize rb)) (drop (i * unat (rb_esize rb)) (rb_data rb))"

definition rb_list :: "ring_buffer_t \<Rightarrow> byte list list" where
  "rb_list rb = map (\<lambda>i. rb_slot rb ((unat (rb_out rb) + i) mod rb_capacity rb)) [0..<rb_count rb]"

lemma length_rb_list [simp]: "length (rb_list rb) = rb_count rb"
  by (simp add: rb_list_def)

lemma unat_and_mask_pow2:
  assumes "is_power_of_2 (m + 1)"
  shows "unat (x AND m) = unat x mod unat (m + 1)"
proof -
  obtain k where k: "k < 32" "m + 1 = 2 ^ k" using assms by (auto simp: is_power_of_2_iff)
  then have "m = mask k" by (metis add_diff_cancel_right' mask_eq_exp_minus_1)
  then have "x AND m = take_bit k x" by (simp add: take_bit_eq_mask)
  then show ?thesis using k by (simp add: take_bit_eq_mod unat_mod unat_2p)
qed

lemma pow2_dvd_2_32: "is_power_of_2 n \<Longrightarrow> unat n dvd 2 ^ 32"
proof -
  assume "is_power_of_2 n"
  then obtain k where "k < 32" "n = 2 ^ k" by (auto simp: is_power_of_2_iff)
  then show ?thesis using le_imp_power_dvd[of k 32 "2::nat"] by (simp add: unat_2p)
qed

lemma rb_inv_facts:
  assumes "rb_inv rb"
  shows "0 < rb_capacity rb" "0 < unat (rb_esize rb)" "rb_capacity rb dvd 2 ^ 32"
    "rb_capacity rb * unat (rb_esize rb) < 2 ^ 32"
    "length (rb_data rb) = rb_capacity rb * unat (rb_esize rb)" "rb_count rb \<le> rb_capacity rb"
  using assms pow2_dvd_2_32[of "rb_mask rb + 1"]
  by (auto simp: rb_inv_def rb_capacity_def unat_gt_0 is_power_of_2_def)

lemma slot_end_le:
  assumes "i < (c::nat)" shows "i * e + e \<le> c * e"
  using assms by (metis Suc_leI add.commute mult_Suc mult_le_mono1)

lemma rb_offsets:
  fixes off :: u32
  assumes inv: "rb_inv rb"
  defines "idx \<equiv> unat off mod rb_capacity rb"
  shows "unat ((off AND rb_mask rb) * rb_esize rb) = idx * unat (rb_esize rb)"
    and "min (1 * rb_esize rb) ((rb_mask rb + 1) * rb_esize rb - (off AND rb_mask rb) * rb_esize rb)
         = rb_esize rb"
proof -
  note f = rb_inv_facts[OF inv]
  have idx: "idx < rb_capacity rb" using f(1) by (simp add: idx_def)
  have a: "unat (off AND rb_mask rb) = idx"
    using inv unat_and_mask_pow2[of "rb_mask rb" off] by (simp add: rb_inv_def idx_def rb_capacity_def)
  have fits: "idx * unat (rb_esize rb) + unat (rb_esize rb) \<le> rb_capacity rb * unat (rb_esize rb)"
    by (rule slot_end_le[OF idx])
  show o: "unat ((off AND rb_mask rb) * rb_esize rb) = idx * unat (rb_esize rb)"
    using unat_mult_small[of "off AND rb_mask rb" "rb_esize rb"] fits f(4) a by simp
  have t: "unat ((rb_mask rb + 1) * rb_esize rb) = rb_capacity rb * unat (rb_esize rb)"
    using unat_mult_small[of "rb_mask rb + 1" "rb_esize rb"] f(4) by (simp add: rb_capacity_def)
  have le: "(off AND rb_mask rb) * rb_esize rb \<le> (rb_mask rb + 1) * rb_esize rb"
    unfolding word_le_nat_alt o t using fits by linarith
  have "rb_esize rb \<le> (rb_mask rb + 1) * rb_esize rb - (off AND rb_mask rb) * rb_esize rb"
    using o t fits unat_sub_small[OF le] by (simp add: word_le_nat_alt)
  then show "min (1 * rb_esize rb) ((rb_mask rb + 1) * rb_esize rb - (off AND rb_mask rb) * rb_esize rb)
         = rb_esize rb" by simp
qed

lemma copy_in_one:
  assumes "rb_inv rb"
  shows "ringbuffer_copy_in rb src 1 off =
    rb\<lparr>rb_data := memcpy (rb_data rb) ((unat off mod rb_capacity rb) * unat (rb_esize rb)) src
                    (unat (rb_esize rb))\<rparr>"
  by (simp only: ringbuffer_copy_in_def Let_def rb_offsets[OF assms]) simp

lemma copy_out_one:
  assumes "rb_inv rb"
  shows "ringbuffer_copy_out rb dst 1 off =
    memcpy dst 0 (rb_slot rb (unat off mod rb_capacity rb)) (unat (rb_esize rb))"
proof -
  have "ringbuffer_copy_out rb dst 1 off =
    memcpy dst 0 (drop (unat off mod rb_capacity rb * unat (rb_esize rb)) (rb_data rb)) (unat (rb_esize rb))"
    by (simp only: ringbuffer_copy_out_def Let_def rb_offsets[OF assms]) simp
  then show ?thesis by (simp add: rb_slot_def memcpy_def)
qed


lemma rb_count_lt_iff: "rb_inv rb \<Longrightarrow> (1 > ringbuffer_unused rb) \<longleftrightarrow> rb_count rb = rb_capacity rb"
proof -
  assume inv: "rb_inv rb"
  have le: "rb_in rb - rb_out rb \<le> rb_mask rb + 1"
    using rb_inv_facts(6)[OF inv] by (simp add: word_le_nat_alt rb_count_def rb_capacity_def)
  have "unat (ringbuffer_unused rb) = rb_capacity rb - rb_count rb"
    using unat_sub_small[OF le] by (simp add: ringbuffer_unused_def rb_capacity_def rb_count_def)
  then show ?thesis
    using rb_inv_facts(6)[OF inv] by (auto simp: word_less_nat_alt)
qed

lemma ringbuffer_put_full:
  assumes "rb_inv r" and "rb_count r = rb_capacity r"
  shows "ringbuffer_put (Some r) (Some src) 1 = (Inr 0, Some r)"
  using assms rb_count_lt_iff[of r] by (simp add: ringbuffer_put_def)

lemma ringbuffer_put_room:
  assumes "rb_inv r" and "rb_count r < rb_capacity r"
  shows "ringbuffer_put (Some r) (Some src) 1 =
    (Inr 1, Some (r\<lparr>rb_data := memcpy (rb_data r)
                      ((unat (rb_in r) mod rb_capacity r) * unat (rb_esize r)) src (unat (rb_esize r)),
                    rb_in := rb_in r + 1\<rparr>))"
  using assms rb_count_lt_iff[of r] by (simp add: ringbuffer_put_def copy_in_one)

lemma rb_count_put:
  assumes "rb_inv r" "rb_count r < rb_capacity r"
  shows "unat (rb_in r + 1 - rb_out r) = Suc (rb_count r)"
proof -
  have "rb_capacity r < 2 ^ 32" using unsigned_less[of "rb_mask r + 1"] by (simp add: rb_capacity_def)
  then have "Suc (rb_count r) < 2 ^ 32" using assms(2) by linarith
  moreover have "rb_in r + 1 - rb_out r = (rb_in r - rb_out r) + 1" by simp
  ultimately show ?thesis by (simp only: rb_count_def unat_word_ariths) simp
qed

lemma in_index:
  assumes "rb_inv r"
  shows "unat (rb_in r) mod rb_capacity r = (unat (rb_out r) + rb_count r) mod rb_capacity r"
proof -
  have "rb_in r = rb_out r + (rb_in r - rb_out r)" by simp
  then have "unat (rb_in r) mod rb_capacity r
     = unat (rb_out r + (rb_in r - rb_out r)) mod rb_capacity r" by simp
  then show ?thesis
    using unat_add_mod_dvd[OF rb_inv_facts(3)[OF assms], of "rb_out r" "rb_in r - rb_out r"]
    by (simp add: rb_count_def)
qed

lemma slot_memcpy:
  assumes len: "length d = c * e" and src: "e \<le> length src" and ij: "i < c" "j < c"
  shows "take e (drop (i * e) (memcpy d (j * e) src e)) =
         (if i = j then take e src else take e (drop (i * e) d))"
proof (cases i j rule: linorder_cases)
  case less
  have "i * e + e \<le> j * e" using slot_end_le[OF less] .
  then show ?thesis
    using less take_drop_memcpy_before[of "j * e" e d src "i * e" e] slot_end_le[OF ij(2), of e] len src
    by auto
next
  case equal
  then show ?thesis
    using take_drop_memcpy_same[of "j * e" e d src] slot_end_le[OF ij(2), of e] len src by auto
next
  case greater
  have "j * e + e \<le> i * e" using slot_end_le[OF greater] .
  then show ?thesis
    using greater take_drop_memcpy_after[of "j * e" e d src "i * e" e] slot_end_le[OF ij(2), of e] len src
    by auto
qed


lemma rb_list_nth:
  "i < rb_count rb \<Longrightarrow> rb_list rb ! i = rb_slot rb ((unat (rb_out rb) + i) mod rb_capacity rb)"
  by (simp add: rb_list_def)

definition rb_push :: "ring_buffer_t \<Rightarrow> byte list \<Rightarrow> ring_buffer_t" where
  "rb_push r src =
     r\<lparr>rb_data := memcpy (rb_data r) ((unat (rb_in r) mod rb_capacity r) * unat (rb_esize r)) src
                   (unat (rb_esize r)),
       rb_in := rb_in r + 1\<rparr>"

definition rb_pop :: "ring_buffer_t \<Rightarrow> ring_buffer_t" where
  "rb_pop r = r\<lparr>rb_out := rb_out r + 1\<rparr>"

lemma rb_push_fields [simp]:
  "rb_esize (rb_push r src) = rb_esize r" "rb_mask (rb_push r src) = rb_mask r"
  "rb_out (rb_push r src) = rb_out r" "rb_capacity (rb_push r src) = rb_capacity r"
  by (simp_all add: rb_push_def rb_capacity_def)

lemma rb_pop_fields [simp]:
  "rb_esize (rb_pop r) = rb_esize r" "rb_mask (rb_pop r) = rb_mask r"
  "rb_data (rb_pop r) = rb_data r" "rb_in (rb_pop r) = rb_in r" "rb_capacity (rb_pop r) = rb_capacity r"
  by (simp_all add: rb_pop_def rb_capacity_def)

lemma rb_push_count:
  "rb_inv r \<Longrightarrow> rb_count r < rb_capacity r \<Longrightarrow> rb_count (rb_push r src) = Suc (rb_count r)"
  using rb_count_put[of r] by (simp add: rb_count_def rb_push_def)

lemma rb_push_inv:
  assumes "rb_inv r" "rb_count r < rb_capacity r" "unat (rb_esize r) \<le> length src"
  shows "rb_inv (rb_push r src)"
proof -
  note f = rb_inv_facts[OF assms(1)]
  have "unat (rb_in r) mod rb_capacity r < rb_capacity r" using f(1) by simp
  then have "length (rb_data (rb_push r src)) = length (rb_data r)"
    using slot_end_le[of "unat (rb_in r) mod rb_capacity r" "rb_capacity r" "unat (rb_esize r)"] f(5) assms(3)
    by (simp add: rb_push_def)
  then show ?thesis
    using assms rb_push_count[OF assms(1,2)] by (simp add: rb_inv_def)
qed

lemma rb_push_list:
  assumes inv: "rb_inv r" and room: "rb_count r < rb_capacity r" and src: "unat (rb_esize r) \<le> length src"
  shows "rb_list (rb_push r src) = rb_list r @ [take (unat (rb_esize r)) src]"
proof (rule nth_equalityI)
  note f = rb_inv_facts[OF inv]
  show "length (rb_list (rb_push r src)) = length (rb_list r @ [take (unat (rb_esize r)) src])"
    by (simp add: rb_push_count[OF inv room])
  fix i assume "i < length (rb_list (rb_push r src))"
  then have i: "i \<le> rb_count r" by (simp add: rb_push_count[OF inv room])
  let ?idx = "(unat (rb_out r) + i) mod rb_capacity r"
  have slot: "rb_slot (rb_push r src) ?idx =
      (if ?idx = unat (rb_in r) mod rb_capacity r then take (unat (rb_esize r)) src else rb_slot r ?idx)"
    using slot_memcpy[OF f(5) src, of ?idx "unat (rb_in r) mod rb_capacity r"] f(1)
    by (simp add: rb_slot_def rb_push_def)
  have hit: "?idx = unat (rb_in r) mod rb_capacity r \<longleftrightarrow> i = rb_count r"
    using i room mod_offset_neq[of i "rb_count r" "rb_capacity r" "unat (rb_out r)"] in_index[OF inv]
    by (cases "i = rb_count r") auto
  show "rb_list (rb_push r src) ! i = (rb_list r @ [take (unat (rb_esize r)) src]) ! i"
    using i slot hit
    by (cases "i = rb_count r") (simp_all add: rb_list_nth rb_push_count[OF inv room] nth_append)
qed

lemma rb_pop_count: "rb_count r \<noteq> 0 \<Longrightarrow> rb_count (rb_pop r) = rb_count r - 1"
proof -
  assume "rb_count r \<noteq> 0"
  then have "(1 :: u32) \<le> rb_in r - rb_out r"
    by (simp add: rb_count_def word_le_nat_alt)
  then have "unat (rb_in r - rb_out r - 1) = unat (rb_in r - rb_out r) - 1"
    using unat_sub_small[of 1 "rb_in r - rb_out r"] by simp
  then show ?thesis by (simp add: rb_count_def rb_pop_def diff_diff_add)
qed

lemma rb_pop_inv: "rb_inv r \<Longrightarrow> rb_count r \<noteq> 0 \<Longrightarrow> rb_inv (rb_pop r)"
  by (auto simp: rb_inv_def rb_pop_count)

lemma rb_pop_list:
  assumes inv: "rb_inv r" and ne: "rb_count r \<noteq> 0"
  shows "rb_list (rb_pop r) = tl (rb_list r)"
proof (rule nth_equalityI)
  show "length (rb_list (rb_pop r)) = length (tl (rb_list r))" by (simp add: rb_pop_count[OF ne])
  fix i assume "i < length (rb_list (rb_pop r))"
  then have i: "Suc i < rb_count r" by (simp add: rb_pop_count[OF ne])
  have "(unat (rb_out r + 1) + i) mod rb_capacity r = (unat (rb_out r + 1) mod rb_capacity r + i) mod rb_capacity r"
    by (simp add: mod_add_left_eq)
  also have "\<dots> = (unat (rb_out r) + Suc i) mod rb_capacity r"
    using unat_add_mod_dvd[OF rb_inv_facts(3)[OF inv], of "rb_out r" 1] by (simp add: mod_simps)
  finally show "rb_list (rb_pop r) ! i = tl (rb_list r) ! i"
    using i by (simp add: rb_list_nth nth_tl rb_pop_count[OF ne] rb_slot_def) (simp add: rb_pop_def)
qed


section \<open>The C operations on a well-formed ring\<close>

lemma ringbuffer_put_laws [ring_simps]:
  assumes "rb_inv r"
  shows "rb_count r = rb_capacity r \<Longrightarrow> ringbuffer_put (Some r) (Some src) 1 = (Inr 0, Some r)"
    and "rb_count r < rb_capacity r \<Longrightarrow>
      ringbuffer_put (Some r) (Some src) 1 = (Inr 1, Some (rb_push r src))"
  using assms ringbuffer_put_full ringbuffer_put_room by (auto simp: rb_push_def)

lemma ringbuffer_get_laws [ring_simps]:
  assumes "rb_inv r"
  shows "rb_count r = 0 \<Longrightarrow> ringbuffer_get (Some r) (Some dst) 1 = (Inr 0, Some r, Some dst)"
    and "rb_count r \<noteq> 0 \<Longrightarrow> ringbuffer_get (Some r) (Some dst) 1 =
      (Inr 1, Some (rb_pop r), Some (memcpy dst 0 (hd (rb_list r)) (unat (rb_esize r))))"
proof -
  assume "rb_count r = 0"
  then have "rb_in r = rb_out r" by (simp add: rb_count_def unat_eq_0)
  then show "ringbuffer_get (Some r) (Some dst) 1 = (Inr 0, Some r, Some dst)"
    by (simp add: ringbuffer_get_def ringbuffer_out_peek_def)
next
  assume ne: "rb_count r \<noteq> 0"
  have "hd (rb_list r) = rb_slot r (unat (rb_out r) mod rb_capacity r)"
    using ne rb_list_nth[of 0 r] by (simp add: hd_conv_nth flip: length_0_conv)
  moreover have "min 1 (rb_in r - rb_out r) = 1"
    using ne by (simp add: min_def word_le_nat_alt rb_count_def)
  ultimately show "ringbuffer_get (Some r) (Some dst) 1 =
      (Inr 1, Some (rb_pop r), Some (memcpy dst 0 (hd (rb_list r)) (unat (rb_esize r))))"
    by (simp add: ringbuffer_get_def ringbuffer_out_peek_def copy_out_one[OF assms] rb_pop_def)
qed

lemma ringbuffer_len_count: "unat (ringbuffer_len (Some r)) = rb_count r"
  by (simp add: ringbuffer_len_def rb_count_def)

lemma ringbuffer_avail_count:
  assumes "rb_inv r"
  shows "unat (ringbuffer_avail (Some r)) = rb_capacity r - rb_count r"
proof -
  have "rb_in r - rb_out r \<le> rb_mask r + 1"
    using rb_inv_facts(6)[OF assms] by (simp add: word_le_nat_alt rb_count_def rb_capacity_def)
  then show ?thesis
    by (simp add: ringbuffer_avail_def ringbuffer_cap_def ringbuffer_len_def unat_sub_small
        rb_capacity_def rb_count_def)
qed

lemma ringbuffer_reset_inv:
  "rb_inv r \<Longrightarrow> rb_inv (r\<lparr>rb_in := 0, rb_out := 0\<rparr>) \<and> rb_list (r\<lparr>rb_in := 0, rb_out := 0\<rparr>) = []"
  by (simp add: rb_inv_def rb_list_def rb_count_def rb_capacity_def)

section \<open>Creation and destruction\<close>

definition round_capacity :: "u32 \<Rightarrow> u32" where
  "round_capacity n =
     (let n = (if \<not> is_power_of_2 n then rounddown_pow_of_two n else n)
      in if n = 0 then 1 else n)"

lemma round_capacity_pow2: "is_power_of_2 (round_capacity n)"
proof (cases "n = 0")
  case True
  then show ?thesis by (auto simp: round_capacity_def rounddown_pow_of_two_def is_power_of_2_def)
next
  case False
  then obtain k where "k < 32" "rounddown_pow_of_two n = 2 ^ k" by (rule rounddown_pow_of_two_spec)
  then have "is_power_of_2 (rounddown_pow_of_two n)" by (auto simp: is_power_of_2_iff)
  then show ?thesis by (auto simp: round_capacity_def is_power_of_2_def)
qed

lemma round_capacity_bounds:
  assumes "n \<noteq> 0"
  shows "unat (round_capacity n) \<le> unat n" and "unat n < 2 * unat (round_capacity n)"
proof -
  obtain k where k: "k < 32" "rounddown_pow_of_two n = 2 ^ k" "2 ^ k \<le> unat n" "unat n < 2 ^ Suc k"
    using assms by (rule rounddown_pow_of_two_spec)
  then have "unat (rounddown_pow_of_two n) = 2 ^ k" by (simp add: unat_2p)
  moreover have "0 < unat n" using assms by (simp add: unat_gt_0)
  ultimately show "unat (round_capacity n) \<le> unat n" and "unat n < 2 * unat (round_capacity n)"
    using k assms by (auto simp: round_capacity_def is_power_of_2_def Let_def)
qed

lemma round_capacity_idem: "is_power_of_2 n \<Longrightarrow> round_capacity n = n"
  by (simp add: round_capacity_def is_power_of_2_def)

lemma ringbuffer_create_alt:
  "ringbuffer_create ok h sz esize =
     (if esize = 0 \<or> sz = 0 then (Inl EINVAL, h)
      else case malloc ok h of
        (False, h1) \<Rightarrow> (Inl ENOMEM, h1)
      | (True, h1) \<Rightarrow>
          (case malloc ok h1 of
                (False, h2) \<Rightarrow> (Inl ENOMEM, free_block h2)
              | (True, h2) \<Rightarrow>
                  (Inr \<lparr>rb_data = replicate (unat (round_capacity (sz div esize) * esize)) 0,
                        rb_in = 0, rb_out = 0,
                        rb_mask = round_capacity (sz div esize) - 1, rb_esize = esize\<rparr>, h2)))"
  by (simp only: ringbuffer_create_def round_capacity_def Let_def)

lemma create_size_fits:
  assumes "esize \<noteq> 0"
  shows "unat (round_capacity (sz div esize)) * unat esize < 2 ^ 32"
proof (cases "sz div esize = 0")
  case True
  then have "round_capacity (sz div esize) = 1"
    by (simp add: round_capacity_def rounddown_pow_of_two_def is_power_of_2_def)
  then show ?thesis using unsigned_less[of esize] by simp
next
  case False
  have "unat (round_capacity (sz div esize)) * unat esize \<le> unat (sz div esize) * unat esize"
    using round_capacity_bounds(1)[OF False] by simp
  also have "\<dots> \<le> unat sz" by (simp add: unat_div)
  also have "\<dots> < 2 ^ 32" using unsigned_less[of sz] by simp
  finally show ?thesis .
qed

lemma ringbuffer_create_inv:
  assumes "ringbuffer_create ok h sz esize = (Inr r, h')"
  shows "rb_inv r" "rb_list r = []" "rb_esize r = esize"
    "rb_capacity r = unat (round_capacity (sz div esize))"
proof -
  have e: "esize \<noteq> 0" and r: "r = \<lparr>rb_data = replicate (unat (round_capacity (sz div esize) * esize)) 0,
       rb_in = 0, rb_out = 0, rb_mask = round_capacity (sz div esize) - 1, rb_esize = esize\<rparr>"
    using assms by (auto simp: ringbuffer_create_alt split: if_splits prod.splits bool.splits)
  show "rb_inv r" "rb_list r = []" "rb_esize r = esize"
    "rb_capacity r = unat (round_capacity (sz div esize))"
    using round_capacity_pow2[of "sz div esize"] create_size_fits[OF e, of sz] e
      unat_mult_small[of "round_capacity (sz div esize)" esize]
    by (simp_all add: r rb_inv_def rb_list_def rb_count_def rb_capacity_def)
qed


section \<open>A ring is a bounded queue\<close>

definition ret_val :: "errno + u32 \<Rightarrow> u32" where
  "ret_val r = (case r of Inl _ \<Rightarrow> 0 | Inr n \<Rightarrow> n)"

definition rb_put_op :: "ring_buffer_t \<Rightarrow> byte list \<Rightarrow> bool \<times> ring_buffer_t" where
  "rb_put_op r x = (case ringbuffer_put (Some r) (Some x) 1 of
     (n, r') \<Rightarrow> (ret_val n = 1, (case r' of None \<Rightarrow> r | Some q \<Rightarrow> q)))"

definition rb_get_op :: "ring_buffer_t \<Rightarrow> byte list option \<times> ring_buffer_t" where
  "rb_get_op r = (case ringbuffer_get (Some r) (Some (replicate (unat (rb_esize r)) 0)) 1 of
     (n, r', buf) \<Rightarrow> ((if ret_val n = 1 then buf else None), (case r' of None \<Rightarrow> r | Some q \<Rightarrow> q)))"

lemma rb_list_elem_length:
  assumes "rb_inv r" "x \<in> set (rb_list r)" shows "length x = unat (rb_esize r)"
proof -
  obtain i where i: "x = rb_slot r i" "i < rb_capacity r"
    using assms rb_inv_facts(1)[OF assms(1)] by (auto simp: rb_list_def)
  show ?thesis
    using slot_end_le[OF i(2), of "unat (rb_esize r)"] rb_inv_facts(5)[OF assms(1)]
    by (simp add: i(1) rb_slot_def)
qed

lemma rb_put_op_fields:
  assumes "rb_put_op r x = (b, r')"
  shows "rb_capacity r' = rb_capacity r \<and> rb_esize r' = rb_esize r"
  using assms
  by (auto simp: rb_put_op_def ringbuffer_put_def ringbuffer_copy_in_def rb_capacity_def Let_def
      split: if_splits)

lemma rb_get_op_fields:
  assumes "rb_get_op r = (y, r')"
  shows "rb_capacity r' = rb_capacity r \<and> rb_esize r' = rb_esize r"
  using assms
  by (auto simp: rb_get_op_def ringbuffer_get_def rb_capacity_def Let_def split: if_splits prod.splits)

interpretation ring: bounded_fifo rb_put_op rb_get_op rb_list rb_capacity
  "\<lambda>r x. length x = unat (rb_esize r)" rb_inv
proof (unfold_locales, goal_cases)
  case (1 q x b q')
  then show ?case
    using rb_inv_facts(6)[of q]
    by (cases "rb_count q < rb_capacity q")
      (auto simp: rb_put_op_def ring_simps ret_val_def spec_put_def rb_push_inv rb_push_list)
next
  case (2 q y q')
  show ?case
  proof (cases "rb_count q = 0")
    case True
    then have "rb_list q = []" by (simp add: rb_list_def)
    then show ?thesis using 2 True by (auto simp: rb_get_op_def ring_simps ret_val_def spec_get_def)
  next
    case False
    then obtain x xs where xs: "rb_list q = x # xs" by (cases "rb_list q") (auto simp flip: length_rb_list)
    then have "length x = unat (rb_esize q)" using rb_list_elem_length[OF 2(1), of x] by simp
    then show ?thesis
      using 2 False xs
      by (auto simp: rb_get_op_def ring_simps ret_val_def spec_get_def rb_pop_inv rb_pop_list memcpy_def)
  qed
next
  case (3 q x b q')
  then show ?case using rb_put_op_fields by (metis)
next
  case (4 q y q')
  then show ?case using rb_get_op_fields by (metis)
next
  case (5 q)
  then show ?case using rb_inv_facts(6) by simp
qed

section \<open>Properties\<close>

text \<open>
  C1.  Any sequence of single-element puts and gets on a well-formed ring returns exactly what a bounded
  list queue of the ring's capacity returns, and keeps the ring well formed; this includes the wrap-around of the
  32-bit indices and of the position in the buffer.
\<close>

theorem ringbuffer_refines_fifo:
  assumes "rb_inv r" and "\<And>x. Put x \<in> set ops \<Longrightarrow> length x = unat (rb_esize r)"
    and "fifo_run rb_put_op rb_get_op r ops = (outs, r')"
  shows "rb_inv r' \<and> spec_run (rb_capacity r) (rb_list r) ops = (outs, rb_list r')"
  using assms by (rule ring.run_refines)

theorem ringbuffer_fifo_witness:
  "fst (fifo_run rb_put_op rb_get_op
     \<lparr>rb_data = [9, 9, 9, 9], rb_in = 0xFFFFFFFF, rb_out = 0xFFFFFFFF, rb_mask = 1, rb_esize = 2\<rparr>
     [Put [1, 2], Put [3, 4], Put [5, 6], Get, Get, Get]) =
   [Stored True, Stored True, Stored False, Fetched (Some [1, 2]), Fetched (Some [3, 4]), Fetched None]"
proof -
  let ?r = "\<lparr>rb_data = [9, 9, 9, 9], rb_in = 0xFFFFFFFF, rb_out = 0xFFFFFFFF, rb_mask = 1, rb_esize = 2\<rparr>"
  let ?ops = "[Put [1, 2], Put [3, 4], Put [5, 6], Get, Get, Get]"
  obtain outs r' where o: "fifo_run rb_put_op rb_get_op ?r ?ops = (outs, r')" by fastforce
  have inv: "rb_inv ?r" by (simp add: rb_inv_def is_power_of_2_def rb_capacity_def rb_count_def)
  have "spec_run (rb_capacity ?r) (rb_list ?r) ?ops = (outs, rb_list r')"
    by (rule conjunct2[OF ringbuffer_refines_fifo[OF inv _ o]]) auto
  then show ?thesis
    unfolding o by (simp add: rb_capacity_def rb_list_def rb_count_def spec_run_def spec_put_def spec_get_def)
qed

end
