(* ===== verification/Ring_Channels.thy ===== *)
theory Ring_Channels
  imports Ring_Buffer
begin

text \<open>
  Sets of ring buffers, one per CAN channel (\<^verbatim>\<open>src/ringbuffer_channels.c\<close>, \<open>ringbuffer_32ch_*\<close>, and
  the diagnostic \<open>ringbuffer_32ch_target_is_inited\<close> of \<^verbatim>\<open>src/main18.c\<close>).

  Every operation checks the caller's limit, the recorded number of channels and the channel
  pointer before it touches the ring.  Channels are independent bounded queues, initialisation
  releases everything when an allocation fails, and destruction releases exactly what
  initialisation allocated.
\<close>

record RingBuffer32ChSet =
  channels :: "ring_buffer_t option list option"
  max_channel :: u8
  elem_size :: u32
  buf_capacity :: u32

definition zero_set :: RingBuffer32ChSet where
  "zero_set = \<lparr>channels = None, max_channel = 0, elem_size = 0, buf_capacity = 0\<rparr>"

fun destroy_channels :: "heap_state \<Rightarrow> ring_buffer_t option list \<Rightarrow> heap_state" where
  "destroy_channels h [] = h"
| "destroy_channels h (rb # rbs) = destroy_channels (ringbuffer_destory h rb) rbs"

definition ringbuffer_32ch_destory ::
    "heap_state \<Rightarrow> RingBuffer32ChSet option \<Rightarrow> u8 \<Rightarrow> RingBuffer32ChSet option \<times> heap_state" where
  "ringbuffer_32ch_destory h st MAX_Channel =
     (case st of None \<Rightarrow> (None, h)
      | Some s \<Rightarrow>
          (Some zero_set,
           (case channels s of None \<Rightarrow> h
            | Some chs \<Rightarrow> free_block (destroy_channels h (take (unat (max_channel s)) chs)))))"

fun create_channels ::
    "(nat \<Rightarrow> bool) \<Rightarrow> u32 \<Rightarrow> u32 \<Rightarrow> nat \<Rightarrow> nat \<Rightarrow> ring_buffer_t option list \<Rightarrow> heap_state \<Rightarrow>
     bool \<times> ring_buffer_t option list \<times> heap_state" where
  "create_channels ok buf_size esize 0 i chs h = (True, chs, h)"
| "create_channels ok buf_size esize (Suc n) i chs h =
     (case ringbuffer_create ok h buf_size esize of
        (Inl _, h1) \<Rightarrow> (False, chs, h1)
      | (Inr rb, h1) \<Rightarrow> create_channels ok buf_size esize n (Suc i) (chs[i := Some rb]) h1)"

definition ringbuffer_32ch_init ::
    "(nat \<Rightarrow> bool) \<Rightarrow> heap_state \<Rightarrow> RingBuffer32ChSet option \<Rightarrow> u32 \<Rightarrow> u32 \<Rightarrow> u8 \<Rightarrow>
     (errno + unit) \<times> RingBuffer32ChSet option \<times> heap_state" where
  "ringbuffer_32ch_init ok h st esize capacity MAX_Channel =
     (if st = None \<or> esize = 0 \<or> capacity = 0 \<or> MAX_Channel = 0 then (Inl EINVAL, st, h)
      else
        let actual_cap = (if \<not> is_power_of_2 capacity then rounddown_pow_of_two capacity else capacity);
            actual_cap = (if actual_cap = 0 then 1 else actual_cap)
        in if actual_cap > 0xFFFFFFFF div esize then (Inl EOVERFLOW, Some zero_set, h)
           else case malloc ok h of
             (False, h1) \<Rightarrow> (Inl ENOMEM, Some zero_set, h1)
           | (True, h1) \<Rightarrow>
               (case create_channels ok (actual_cap * esize) esize (unat MAX_Channel) 0
                       (replicate (unat MAX_Channel) None) h1 of
                  (made, chs, h2) \<Rightarrow>
                    (let s = \<lparr>channels = Some chs, max_channel = MAX_Channel, elem_size = esize,
                              buf_capacity = actual_cap\<rparr>
                     in if made then (Inr (), Some s, h2)
                        else case ringbuffer_32ch_destory h2 (Some s) MAX_Channel of
                               (s', h3) \<Rightarrow> (Inl ENOMEM, s', h3))))"

definition ringbuffer_channel_valid :: "RingBuffer32ChSet option \<Rightarrow> u8 \<Rightarrow> u8 \<Rightarrow> bool" where
  "ringbuffer_channel_valid st ch limit =
     (case st of None \<Rightarrow> False
      | Some s \<Rightarrow>
          (case channels s of None \<Rightarrow> False
           | Some chs \<Rightarrow> ch < limit \<and> ch < max_channel s \<and> chs ! unat ch \<noteq> None))"

definition channel_of :: "RingBuffer32ChSet \<Rightarrow> u8 \<Rightarrow> ring_buffer_t option" where
  "channel_of s ch =
     (case channels s of None \<Rightarrow> None
      | Some chs \<Rightarrow> if unat ch < length chs then chs ! unat ch else None)"

definition store_channel :: "RingBuffer32ChSet \<Rightarrow> u8 \<Rightarrow> ring_buffer_t option \<Rightarrow> RingBuffer32ChSet" where
  "store_channel s ch rb = s\<lparr>channels := map_option (\<lambda>chs. chs[unat ch := rb]) (channels s)\<rparr>"

definition ringbuffer_32ch_put ::
    "RingBuffer32ChSet option \<Rightarrow> u8 \<Rightarrow> byte list option \<Rightarrow> u8 \<Rightarrow>
     (errno + u32) \<times> RingBuffer32ChSet option" where
  "ringbuffer_32ch_put st ch data MAX_Channel =
     (if data = None \<or> \<not> ringbuffer_channel_valid st ch MAX_Channel then (Inl EINVAL, st)
      else case st of None \<Rightarrow> (Inl EINVAL, st)
      | Some s \<Rightarrow> (case ringbuffer_put (channel_of s ch) data 1 of
                    (r, rb) \<Rightarrow> (r, Some (store_channel s ch rb))))"

definition ringbuffer_32ch_get ::
    "RingBuffer32ChSet option \<Rightarrow> u8 \<Rightarrow> byte list option \<Rightarrow> u8 \<Rightarrow>
     (errno + u32) \<times> RingBuffer32ChSet option \<times> byte list option" where
  "ringbuffer_32ch_get st ch data MAX_Channel =
     (if data = None \<or> \<not> ringbuffer_channel_valid st ch MAX_Channel then (Inl EINVAL, st, data)
      else case st of None \<Rightarrow> (Inl EINVAL, st, data)
      | Some s \<Rightarrow> (case ringbuffer_get (channel_of s ch) data 1 of
                    (r, rb, data') \<Rightarrow> (r, Some (store_channel s ch rb), data')))"

definition ringbuffer_32ch_len :: "RingBuffer32ChSet option \<Rightarrow> u8 \<Rightarrow> u8 \<Rightarrow> u32" where
  "ringbuffer_32ch_len st ch MAX_Channel =
     (if \<not> ringbuffer_channel_valid st ch MAX_Channel then 0
      else case st of None \<Rightarrow> 0 | Some s \<Rightarrow> ringbuffer_len (channel_of s ch))"

definition ringbuffer_32ch_reset ::
    "RingBuffer32ChSet option \<Rightarrow> u8 \<Rightarrow> u8 \<Rightarrow> RingBuffer32ChSet option" where
  "ringbuffer_32ch_reset st ch MAX_Channel =
     (if ringbuffer_channel_valid st ch MAX_Channel
      then map_option (\<lambda>s. store_channel s ch (ringbuffer_reset (channel_of s ch))) st
      else st)"

definition ringbuffer_32ch_avail :: "RingBuffer32ChSet option \<Rightarrow> u8 \<Rightarrow> u8 \<Rightarrow> u32" where
  "ringbuffer_32ch_avail st ch MAX_Channel =
     (if \<not> ringbuffer_channel_valid st ch MAX_Channel then 0
      else case st of None \<Rightarrow> 0 | Some s \<Rightarrow> ringbuffer_avail (channel_of s ch))"

definition ringbuffer_32ch_target_is_inited :: "RingBuffer32ChSet option \<Rightarrow> u8 \<Rightarrow> u32 \<Rightarrow> bool" where
  "ringbuffer_32ch_target_is_inited st target_ch expected_elem_size =
     (case st of None \<Rightarrow> False
      | Some s \<Rightarrow>
          if target_ch \<ge> 32 then False
          else if elem_size s \<noteq> expected_elem_size then False
          else case channel_of s target_ch of
                 None \<Rightarrow> False
               | Some rb \<Rightarrow>
                   if rb_data rb = [] then False
                   else if rb_esize rb \<noteq> expected_elem_size then False
                   else if rb_mask rb + 1 = 0 then False
                   else True)"

section \<open>Well-formed sets\<close>

definition set_inv :: "RingBuffer32ChSet \<Rightarrow> bool" where
  "set_inv s \<longleftrightarrow>
     (case channels s of None \<Rightarrow> True
      | Some chs \<Rightarrow> length chs = unat (max_channel s) \<and>
          (\<forall>r. Some r \<in> set chs \<longrightarrow> rb_inv r \<and> rb_esize r = elem_size s))"

definition ch_ok :: "RingBuffer32ChSet \<Rightarrow> u8 \<Rightarrow> u8 \<Rightarrow> bool" where
  "ch_ok s ch limit \<longleftrightarrow> ringbuffer_channel_valid (Some s) ch limit"

definition ch_contents :: "RingBuffer32ChSet \<Rightarrow> u8 \<Rightarrow> byte list list" where
  "ch_contents s ch = (case channel_of s ch of None \<Rightarrow> [] | Some r \<Rightarrow> rb_list r)"

definition ch_capacity :: "RingBuffer32ChSet \<Rightarrow> u8 \<Rightarrow> nat" where
  "ch_capacity s ch = (case channel_of s ch of None \<Rightarrow> 0 | Some r \<Rightarrow> rb_capacity r)"

lemma ch_ok_ring:
  assumes "set_inv s" "ch_ok s ch limit"
  obtains r where "channel_of s ch = Some r" "rb_inv r" "rb_esize r = elem_size s"
    "ch_contents s ch = rb_list r" "ch_capacity s ch = rb_capacity r"
proof -
  obtain chs where chs: "channels s = Some chs" "ch < max_channel s" "chs ! unat ch \<noteq> None"
      "length chs = unat (max_channel s)"
    using assms by (auto simp: ch_ok_def ringbuffer_channel_valid_def set_inv_def split: option.splits)
  then have l: "unat ch < length chs" by (simp add: word_less_nat_alt)
  obtain r where r: "chs ! unat ch = Some r" using chs(3) by auto
  then have "Some r \<in> set chs" using l nth_mem by metis
  then have "rb_inv r" "rb_esize r = elem_size s" using assms(1) chs(1) by (auto simp: set_inv_def)
  moreover have "channel_of s ch = Some r" using chs(1) l r by (simp add: channel_of_def)
  ultimately show ?thesis using that by (simp add: ch_contents_def ch_capacity_def)
qed

lemma channel_of_store:
  assumes "channel_of s ch = Some r"
  shows "channel_of (store_channel s ch x) ch' = (if ch' = ch then x else channel_of s ch')"
  using assms
  by (auto simp: channel_of_def store_channel_def nth_list_update word_unat_eq_iff
      split: option.splits if_splits)

lemma store_channel_fields [simp]:
  "max_channel (store_channel s ch x) = max_channel s" "elem_size (store_channel s ch x) = elem_size s"
  "buf_capacity (store_channel s ch x) = buf_capacity s"
  by (simp_all add: store_channel_def)

lemma ch_ok_store:
  assumes "set_inv s" "ch_ok s ch limit"
  shows "ch_ok (store_channel s ch (Some q)) ch' limit' = ch_ok s ch' limit'"
proof -
  obtain chs where chs: "channels s = Some chs" "chs ! unat ch \<noteq> None"
      "length chs = unat (max_channel s)" "ch < max_channel s"
    using assms by (auto simp: ch_ok_def ringbuffer_channel_valid_def set_inv_def split: option.splits)
  then show ?thesis
    by (auto simp: ch_ok_def ringbuffer_channel_valid_def store_channel_def word_less_nat_alt nth_list_update)
qed

lemma set_inv_store:
  assumes "set_inv s" "rb_inv q" "rb_esize q = elem_size s"
  shows "set_inv (store_channel s ch (Some q))"
  using assms set_update_subset_insert
  by (fastforce simp: set_inv_def store_channel_def split: option.splits)

lemma store_same: "channel_of s ch = Some r \<Longrightarrow> store_channel s ch (Some r) = s"
  by (cases s) (auto simp: channel_of_def store_channel_def list_update_same_conv split: option.splits if_splits)

lemma ch32_put_invalid [ring_simps]:
  "\<not> ch_ok s ch limit \<Longrightarrow> ringbuffer_32ch_put (Some s) ch (Some x) limit = (Inl EINVAL, Some s)"
  by (simp add: ringbuffer_32ch_put_def ch_ok_def)

lemma ch32_put_full [ring_simps]:
  assumes "set_inv s" "ch_ok s ch limit" "length (ch_contents s ch) = ch_capacity s ch"
  shows "ringbuffer_32ch_put (Some s) ch (Some x) limit = (Inr 0, Some s)"
proof -
  obtain r where "channel_of s ch = Some r" "rb_inv r"
      "ch_contents s ch = rb_list r" "ch_capacity s ch = rb_capacity r"
    using assms(1,2) by (rule ch_ok_ring)
  then show ?thesis
    using assms(2,3) by (simp add: ringbuffer_32ch_put_def ch_ok_def ring_simps store_same)
qed

definition set_push :: "RingBuffer32ChSet \<Rightarrow> u8 \<Rightarrow> byte list \<Rightarrow> RingBuffer32ChSet" where
  "set_push s ch x = store_channel s ch (map_option (\<lambda>r. rb_push r x) (channel_of s ch))"

definition set_pop :: "RingBuffer32ChSet \<Rightarrow> u8 \<Rightarrow> RingBuffer32ChSet" where
  "set_pop s ch = store_channel s ch (map_option rb_pop (channel_of s ch))"

lemma ch32_put_room [ring_simps]:
  assumes "set_inv s" "ch_ok s ch limit" "length (ch_contents s ch) < ch_capacity s ch"
  shows "ringbuffer_32ch_put (Some s) ch (Some x) limit = (Inr 1, Some (set_push s ch x))"
proof -
  obtain r where "channel_of s ch = Some r" "rb_inv r"
      "ch_contents s ch = rb_list r" "ch_capacity s ch = rb_capacity r"
    using assms(1,2) by (rule ch_ok_ring)
  then show ?thesis
    using assms(2,3) by (simp add: ringbuffer_32ch_put_def ch_ok_def ring_simps set_push_def)
qed

lemma set_push_laws:
  assumes "set_inv s" "ch_ok s ch limit" "length (ch_contents s ch) < ch_capacity s ch"
    and "length x = unat (elem_size s)"
  shows "set_inv (set_push s ch x)"
    and "ch_contents (set_push s ch x) ch' = (if ch' = ch then ch_contents s ch @ [x] else ch_contents s ch')"
    and "ch_capacity (set_push s ch x) ch' = ch_capacity s ch'"
    and "ch_ok (set_push s ch x) ch' limit' = ch_ok s ch' limit'"
    and "elem_size (set_push s ch x) = elem_size s"
    and "max_channel (set_push s ch x) = max_channel s"
proof -
  obtain r where r: "channel_of s ch = Some r" "rb_inv r" "rb_esize r = elem_size s"
      "ch_contents s ch = rb_list r" "ch_capacity s ch = rb_capacity r"
    using assms(1,2) by (rule ch_ok_ring)
  have room: "rb_count r < rb_capacity r" using assms(3) r by simp
  note push = rb_push_inv[OF r(2) room, of x] rb_push_list[OF r(2) room, of x]
  have sp: "set_push s ch x = store_channel s ch (Some (rb_push r x))" by (simp add: set_push_def r(1))
  show "set_inv (set_push s ch x)"
    using assms(1,4) push(1) r by (simp add: sp set_inv_store)
  show "ch_contents (set_push s ch x) ch' = (if ch' = ch then ch_contents s ch @ [x] else ch_contents s ch')"
    using push(2) r(1,3,4) assms(4) by (simp add: sp ch_contents_def channel_of_store)
  show "ch_capacity (set_push s ch x) ch' = ch_capacity s ch'"
    using r(1,5) by (simp add: sp ch_capacity_def channel_of_store)
  show "ch_ok (set_push s ch x) ch' limit' = ch_ok s ch' limit'"
    using ch_ok_store[OF assms(1,2)] by (simp add: sp)
qed (simp_all add: set_push_def)

lemma ch32_get_invalid [ring_simps]:
  "\<not> ch_ok s ch limit \<Longrightarrow> ringbuffer_32ch_get (Some s) ch (Some d) limit = (Inl EINVAL, Some s, Some d)"
  by (simp add: ringbuffer_32ch_get_def ch_ok_def)

lemma ch32_get_empty [ring_simps]:
  assumes "set_inv s" "ch_ok s ch limit" "ch_contents s ch = []"
  shows "ringbuffer_32ch_get (Some s) ch (Some d) limit = (Inr 0, Some s, Some d)"
proof -
  obtain r where r: "channel_of s ch = Some r" "rb_inv r" "ch_contents s ch = rb_list r"
    using assms(1,2) by (rule ch_ok_ring)
  then have "rb_count r = 0" using assms(3) by (metis length_rb_list list.size(3))
  then show ?thesis
    using assms(2) r by (simp add: ringbuffer_32ch_get_def ch_ok_def ring_simps store_same)
qed

lemma ch32_get_some [ring_simps]:
  assumes "set_inv s" "ch_ok s ch limit" "ch_contents s ch = x # xs" "length d = unat (elem_size s)"
  shows "ringbuffer_32ch_get (Some s) ch (Some d) limit = (Inr 1, Some (set_pop s ch), Some x)"
proof -
  obtain r where r: "channel_of s ch = Some r" "rb_inv r" "rb_esize r = elem_size s"
      "ch_contents s ch = rb_list r"
    using assms(1,2) by (rule ch_ok_ring)
  then have "rb_list r = x # xs" using assms(3) by simp
  moreover from this have "rb_count r \<noteq> 0" "length x = unat (elem_size s)"
    using rb_list_elem_length[OF r(2), of x] r(3) by (auto simp flip: length_rb_list)
  ultimately show ?thesis
    using assms(2,4) r by (simp add: ringbuffer_32ch_get_def ch_ok_def ring_simps set_pop_def memcpy_def)
qed

lemma set_pop_laws:
  assumes "set_inv s" "ch_ok s ch limit" "ch_contents s ch \<noteq> []"
  shows "set_inv (set_pop s ch)"
    and "ch_contents (set_pop s ch) ch' = (if ch' = ch then tl (ch_contents s ch) else ch_contents s ch')"
    and "ch_capacity (set_pop s ch) ch' = ch_capacity s ch'"
    and "ch_ok (set_pop s ch) ch' limit' = ch_ok s ch' limit'"
    and "elem_size (set_pop s ch) = elem_size s"
    and "max_channel (set_pop s ch) = max_channel s"
proof -
  obtain r where r: "channel_of s ch = Some r" "rb_inv r" "rb_esize r = elem_size s"
      "ch_contents s ch = rb_list r" "ch_capacity s ch = rb_capacity r"
    using assms(1,2) by (rule ch_ok_ring)
  have ne: "rb_count r \<noteq> 0" using assms(3) r(4) by (metis length_0_conv length_rb_list)
  have sp: "set_pop s ch = store_channel s ch (Some (rb_pop r))" by (simp add: set_pop_def r(1))
  show "set_inv (set_pop s ch)"
    using assms(1) rb_pop_inv[OF r(2) ne] r(3) by (simp add: sp set_inv_store)
  show "ch_contents (set_pop s ch) ch' = (if ch' = ch then tl (ch_contents s ch) else ch_contents s ch')"
    using rb_pop_list[OF r(2) ne] r(1,4) by (simp add: sp ch_contents_def channel_of_store)
  show "ch_capacity (set_pop s ch) ch' = ch_capacity s ch'"
    using r(1,5) by (simp add: sp ch_capacity_def channel_of_store)
  show "ch_ok (set_pop s ch) ch' limit' = ch_ok s ch' limit'"
    using ch_ok_store[OF assms(1,2)] by (simp add: sp)
qed (simp_all add: set_pop_def)

lemma ch_contents_bound:
  assumes "set_inv s" "ch_ok s ch limit"
  shows "length (ch_contents s ch) \<le> ch_capacity s ch"
proof -
  obtain r where "rb_inv r" "ch_contents s ch = rb_list r" "ch_capacity s ch = rb_capacity r"
    using assms by (rule ch_ok_ring)
  then show ?thesis using rb_inv_facts(6) by simp
qed

lemma ch32_avail:
  assumes "set_inv s"
  shows "unat (ringbuffer_32ch_avail (Some s) ch limit) =
    (if ch_ok s ch limit then ch_capacity s ch - length (ch_contents s ch) else 0)"
proof (cases "ch_ok s ch limit")
  case True
  obtain r where "channel_of s ch = Some r" "rb_inv r" "ch_contents s ch = rb_list r"
      "ch_capacity s ch = rb_capacity r"
    using assms True by (rule ch_ok_ring)
  then show ?thesis
    using True ringbuffer_avail_count[of r] by (simp add: ringbuffer_32ch_avail_def ch_ok_def)
qed (simp add: ringbuffer_32ch_avail_def ch_ok_def)

lemma ch32_len:
  assumes "set_inv s"
  shows "unat (ringbuffer_32ch_len (Some s) ch limit) =
    (if ch_ok s ch limit then length (ch_contents s ch) else 0)"
proof (cases "ch_ok s ch limit")
  case True
  obtain r where "channel_of s ch = Some r" "ch_contents s ch = rb_list r"
    using assms True by (rule ch_ok_ring)
  then show ?thesis
    using True ringbuffer_len_count[of r] by (simp add: ringbuffer_32ch_len_def ch_ok_def)
qed (simp add: ringbuffer_32ch_len_def ch_ok_def)


lemma ch32_reset_laws:
  assumes "set_inv s" "ringbuffer_32ch_reset (Some s) ch limit = Some s'"
  shows "set_inv s' \<and>
    ch_contents s' ch' = (if ch' = ch \<and> ch_ok s ch limit then [] else ch_contents s ch') \<and>
    ch_capacity s' ch' = ch_capacity s ch' \<and> ch_ok s' ch' limit' = ch_ok s ch' limit' \<and>
    elem_size s' = elem_size s \<and> max_channel s' = max_channel s"
proof (cases "ch_ok s ch limit")
  case False
  then show ?thesis using assms by (auto simp: ringbuffer_32ch_reset_def ch_ok_def)
next
  case True
  obtain r where r: "channel_of s ch = Some r" "rb_inv r" "rb_esize r = elem_size s"
      "ch_capacity s ch = rb_capacity r"
    using assms(1) True by (rule ch_ok_ring)
  let ?q = "r\<lparr>rb_in := 0, rb_out := 0\<rparr>"
  have s': "s' = store_channel s ch (Some ?q)"
    using assms(2) True r(1) by (simp add: ringbuffer_32ch_reset_def ch_ok_def ringbuffer_reset_def)
  have q: "rb_inv ?q" "rb_list ?q = []" using ringbuffer_reset_inv[OF r(2)] by simp_all
  have "rb_capacity ?q = rb_capacity r" by (simp add: rb_capacity_def)
  then show ?thesis
    using True q r ch_ok_store[OF assms(1) True, of ?q] set_inv_store[OF assms(1), of ?q ch]
    by (auto simp: s' ch_contents_def ch_capacity_def channel_of_store)
qed

lemma ch32_put_cases:
  assumes "set_inv s"
  shows "ringbuffer_32ch_put (Some s) ch (Some x) limit =
    (if \<not> ch_ok s ch limit then (Inl EINVAL, Some s)
     else if length (ch_contents s ch) < ch_capacity s ch then (Inr 1, Some (set_push s ch x))
     else (Inr 0, Some s))"
  using assms ch_contents_bound[OF assms, of ch limit] by (auto simp: ring_simps)

lemma ch32_get_cases:
  assumes "set_inv s" "length d = unat (elem_size s)"
  shows "ringbuffer_32ch_get (Some s) ch (Some d) limit =
    (if \<not> ch_ok s ch limit then (Inl EINVAL, Some s, Some d)
     else if ch_contents s ch = [] then (Inr 0, Some s, Some d)
     else (Inr 1, Some (set_pop s ch), Some (hd (ch_contents s ch))))"
  using assms by (cases "ch_contents s ch") (auto simp: ring_simps)

section \<open>Each channel is a bounded queue of its own\<close>

definition set_put_op :: "u8 \<Rightarrow> u8 \<Rightarrow> RingBuffer32ChSet \<Rightarrow> byte list \<Rightarrow> bool \<times> RingBuffer32ChSet" where
  "set_put_op ch limit s x = (case ringbuffer_32ch_put (Some s) ch (Some x) limit of
     (n, s') \<Rightarrow> (ret_val n = 1, (case s' of None \<Rightarrow> s | Some q \<Rightarrow> q)))"

definition set_get_op :: "u8 \<Rightarrow> u8 \<Rightarrow> RingBuffer32ChSet \<Rightarrow> byte list option \<times> RingBuffer32ChSet" where
  "set_get_op ch limit s =
     (case ringbuffer_32ch_get (Some s) ch (Some (replicate (unat (elem_size s)) 0)) limit of
        (n, s', buf) \<Rightarrow> ((if ret_val n = 1 then buf else None), (case s' of None \<Rightarrow> s | Some q \<Rightarrow> q)))"

definition ch_view :: "u8 \<Rightarrow> u8 \<Rightarrow> RingBuffer32ChSet \<Rightarrow> byte list list" where
  "ch_view ch limit s = (if ch_ok s ch limit then ch_contents s ch else [])"

definition ch_room :: "u8 \<Rightarrow> u8 \<Rightarrow> RingBuffer32ChSet \<Rightarrow> nat" where
  "ch_room ch limit s = (if ch_ok s ch limit then ch_capacity s ch else 0)"

lemma set_put_op_cases:
  assumes "set_inv s"
  shows "set_put_op ch limit s x =
    (if ch_ok s ch limit \<and> length (ch_contents s ch) < ch_capacity s ch
     then (True, set_push s ch x) else (False, s))"
  using assms ch_contents_bound[OF assms, of ch limit]
  by (cases "ch_ok s ch limit"; cases "length (ch_contents s ch) < ch_capacity s ch")
    (auto simp: set_put_op_def ring_simps ret_val_def)

lemma set_get_op_cases:
  assumes "set_inv s"
  shows "set_get_op ch limit s =
    (if ch_ok s ch limit \<and> ch_contents s ch \<noteq> []
     then (Some (hd (ch_contents s ch)), set_pop s ch) else (None, s))"
  using assms
  by (cases "ch_ok s ch limit"; cases "ch_contents s ch")
    (auto simp: set_get_op_def ring_simps ret_val_def)

interpretation chan: bounded_fifo "set_put_op ch limit" "set_get_op ch limit" "ch_view ch limit"
  "ch_room ch limit" "\<lambda>s x. length x = unat (elem_size s)" set_inv
  for ch limit
proof (unfold_locales, goal_cases)
  case (1 s x b s')
  then show ?case
    using set_push_laws[OF 1(1), of ch limit x]
    by (auto simp: set_put_op_cases ch_view_def ch_room_def spec_put_def split: if_splits)
next
  case (2 s y s')
  then show ?case
    using set_pop_laws[OF 2(1), of ch limit]
    by (auto simp: set_get_op_cases ch_view_def spec_get_def split: if_splits list.splits)
next
  case (3 s x b s')
  then show ?case
    using set_push_laws[OF 3(1), of ch limit x]
    by (auto simp: set_put_op_cases ch_room_def split: if_splits)
next
  case (4 s y s')
  then show ?case
    using set_pop_laws[OF 4(1), of ch limit]
    by (auto simp: set_get_op_cases ch_room_def split: if_splits)
next
  case (5 s)
  then show ?case using ch_contents_bound by (auto simp: ch_view_def ch_room_def)
qed

section \<open>Initialisation with failing allocations\<close>

lemma ringbuffer_create_live:
  assumes "ringbuffer_create ok h sz esize = (res, h')"
  shows "h_live h' = h_live h + (case res of Inl _ \<Rightarrow> 0 | Inr _ \<Rightarrow> 2)"
  using assms
  by (auto simp: ringbuffer_create_alt malloc_def free_block_def split: if_splits prod.splits bool.splits)

definition blocks_of :: "ring_buffer_t option list \<Rightarrow> int" where
  "blocks_of chs = 2 * int (length (filter (\<lambda>c. c \<noteq> None) chs))"

lemma destroy_channels_live:
  assumes "\<And>r. Some r \<in> set chs \<Longrightarrow> rb_data r \<noteq> []"
  shows "h_live (destroy_channels h chs) = h_live h - blocks_of chs"
  using assms
proof (induction chs arbitrary: h)
  case (Cons c chs)
  then show ?case
    by (cases c) (auto simp: blocks_of_def ringbuffer_destory_def free_block_def)
qed (simp add: blocks_of_def)

lemma rb_inv_data_nonempty: "rb_inv r \<Longrightarrow> rb_data r \<noteq> []"
  using rb_inv_facts(1,2,5)[of r] by auto

definition fresh_channel :: "u32 \<Rightarrow> u32 \<Rightarrow> ring_buffer_t option \<Rightarrow> bool" where
  "fresh_channel cap esize c =
     (case c of None \<Rightarrow> False
      | Some r \<Rightarrow> rb_inv r \<and> rb_list r = [] \<and> rb_esize r = esize \<and> rb_capacity r = unat cap)"

lemma fresh_channel_Some: "fresh_channel cap esize c \<Longrightarrow> c \<noteq> None"
  by (cases c) (auto simp: fresh_channel_def)

lemma create_channels_spec:
  assumes "create_channels ok bs esize n i chs h = (made, chs', h')"
    and "length chs = i + n" and "\<And>j. j < i \<Longrightarrow> fresh_channel cap esize (chs ! j)"
    and "\<And>j. i \<le> j \<Longrightarrow> j < i + n \<Longrightarrow> chs ! j = None"
    and "cap = round_capacity (bs div esize)"
  shows "length chs' = i + n \<and>
    (\<forall>c \<in> set chs'. c = None \<or> fresh_channel cap esize c) \<and>
    (made \<longrightarrow> (\<forall>c \<in> set chs'. fresh_channel cap esize c)) \<and>
    h_live h' - blocks_of chs' = h_live h - 2 * int i"
  using assms
proof (induction ok bs esize n i chs h rule: create_channels.induct)
  case (1 ok bs esize i chs h)
  then have "\<forall>c \<in> set chs. fresh_channel cap esize c" by (auto simp: in_set_conv_nth)
  moreover from this have "filter (\<lambda>c. c \<noteq> None) chs = chs"
    by (auto simp: filter_id_conv dest: fresh_channel_Some)
  ultimately show ?case using 1 by (auto simp: blocks_of_def)
next
  case (2 ok bs esize n i chs h)
  obtain res h1 where c: "ringbuffer_create ok h bs esize = (res, h1)" by fastforce
  show ?case
  proof (cases res)
    case (Inl e)
    have all: "\<forall>c \<in> set chs. c = None \<or> fresh_channel cap esize c"
    proof
      fix c assume "c \<in> set chs"
      then obtain j where "j < length chs" "c = chs ! j" by (auto simp: in_set_conv_nth)
      then show "c = None \<or> fresh_channel cap esize c"
        using "2.prems"(2,3,4) by (cases "j < i") auto
    qed
    have "chs = take i chs @ replicate (Suc n) None"
      using "2.prems"(2,4) by (intro nth_equalityI) (auto simp: nth_append nth_Cons')
    moreover have "filter (\<lambda>c. c \<noteq> None) (take i chs) = take i chs"
      using "2.prems"(2) fresh_channel_Some[OF "2.prems"(3)]
      by (auto simp: filter_id_conv in_set_conv_nth)
    ultimately have "length (filter (\<lambda>c. c \<noteq> None) chs) = i"
      using "2.prems"(2) by (metis (mono_tags, lifting) append_Nil2 filter_append filter_False
          in_set_replicate length_take min.absorb2 le_add1)
    then show ?thesis
      using 2 c Inl all ringbuffer_create_live[OF c] by (auto simp: blocks_of_def)
  next
    case (Inr r)
    note made = ringbuffer_create_inv[OF c[unfolded Inr]]
    have new: "fresh_channel cap esize (Some r)"
      using made "2.prems"(5) by (simp add: fresh_channel_def)
    have rec: "create_channels ok bs esize n (Suc i) (chs[i := Some r]) h1 = (made, chs', h')"
      using "2.prems"(1) c Inr by simp
    have il: "i < length chs" using "2.prems"(2) by simp
    have pre: "length (chs[i := Some r]) = Suc i + n"
      "\<And>j. j < Suc i \<Longrightarrow> fresh_channel cap esize (chs[i := Some r] ! j)"
      "\<And>j. Suc i \<le> j \<Longrightarrow> j < Suc i + n \<Longrightarrow> chs[i := Some r] ! j = None"
      using "2.prems"(2,3,4) new by (auto simp: nth_list_update[OF il] less_Suc_eq)
    show ?thesis
      using "2.IH"[OF c[unfolded Inr, symmetric] refl rec pre "2.prems"(5)] ringbuffer_create_live[OF c] Inr
      by simp
  qed
qed

lemma ringbuffer_32ch_init_alt:
  "ringbuffer_32ch_init ok h st esize capacity MAX_Channel =
     (if st = None \<or> esize = 0 \<or> capacity = 0 \<or> MAX_Channel = 0 then (Inl EINVAL, st, h)
      else if round_capacity capacity > 0xFFFFFFFF div esize then (Inl EOVERFLOW, Some zero_set, h)
      else case malloc ok h of
             (False, h1) \<Rightarrow> (Inl ENOMEM, Some zero_set, h1)
           | (True, h1) \<Rightarrow>
               (case create_channels ok (round_capacity capacity * esize) esize (unat MAX_Channel) 0
                       (replicate (unat MAX_Channel) None) h1 of
                  (made, chs, h2) \<Rightarrow>
                    (let s = \<lparr>channels = Some chs, max_channel = MAX_Channel, elem_size = esize,
                              buf_capacity = round_capacity capacity\<rparr>
                     in if made then (Inr (), Some s, h2)
                        else case ringbuffer_32ch_destory h2 (Some s) MAX_Channel of
                               (s', h3) \<Rightarrow> (Inl ENOMEM, s', h3))))"
  by (simp only: ringbuffer_32ch_init_def round_capacity_def Let_def)

lemma capacity_div_exact:
  assumes "esize \<noteq> 0" "\<not> c > 0xFFFFFFFF div (esize :: u32)"
  shows "c * esize div esize = c"
proof -
  have "unat c \<le> (2 ^ 32 - 1) div unat esize"
    using assms(2) by (simp add: not_less word_le_nat_alt unat_div)
  then have "unat c * unat esize \<le> 2 ^ 32 - 1"
    using assms(1) by (simp add: less_eq_div_iff_mult_less_eq unat_gt_0)
  then have "unat (c * esize) = unat c * unat esize" by (intro unat_mult_small) simp
  then have "unat (c * esize div esize) = unat c" using assms(1) by (simp add: unat_div unat_gt_0)
  then show ?thesis by (simp add: word_unat_eq_iff)
qed

lemma init_channels_spec:
  assumes "esize \<noteq> 0" "\<not> round_capacity cap > 0xFFFFFFFF div esize"
    and "create_channels ok (round_capacity cap * esize) esize n 0 (replicate n None) h = (made, chs, h')"
  shows "length chs = n \<and> (\<forall>c \<in> set chs. c = None \<or> fresh_channel (round_capacity cap) esize c) \<and>
    (made \<longrightarrow> (\<forall>c \<in> set chs. fresh_channel (round_capacity cap) esize c)) \<and>
    h_live h' = h_live h + blocks_of chs"
  using create_channels_spec[OF assms(3), where cap = "round_capacity cap"]
    capacity_div_exact[OF assms(1,2)] round_capacity_pow2[of cap] round_capacity_idem
  by auto

lemma fresh_channels_data:
  assumes "\<forall>c \<in> set chs. c = None \<or> fresh_channel cap esize c" "Some r \<in> set chs"
  shows "rb_data r \<noteq> []"
  using bspec[OF assms] rb_inv_data_nonempty[of r] by (simp add: fresh_channel_def)

lemma ringbuffer_32ch_init_rollback:
  assumes "ringbuffer_32ch_init ok h (Some s0) esize cap n = (Inl e, st, h')"
  shows "h_live h' = h_live h \<and> (e \<noteq> EINVAL \<longrightarrow> st = Some zero_set)"
proof (cases "esize = 0 \<or> cap = 0 \<or> n = 0 \<or> round_capacity cap > 0xFFFFFFFF div esize \<or> \<not> ok (h_calls h)")
  case True
  then show ?thesis using assms
    by (auto simp: ringbuffer_32ch_init_alt malloc_def split: if_splits)
next
  case False
  let ?h1 = "h\<lparr>h_calls := Suc (h_calls h), h_live := h_live h + 1\<rparr>"
  from False have m: "malloc ok h = (True, ?h1)" by (simp add: malloc_def)
  from False have pre: "esize \<noteq> 0" "\<not> round_capacity cap > 0xFFFFFFFF div esize" "cap \<noteq> 0" "n \<noteq> 0" by simp_all
  obtain made chs h2 where c: "create_channels ok (round_capacity cap * esize) esize (unat n) 0
      (replicate (unat n) None) ?h1 = (made, chs, h2)"
    by (metis prod_cases3)
  note spec = init_channels_spec[OF pre(1,2) c]
  have res: "\<not> made" "h' = free_block (destroy_channels h2 chs)" "st = Some zero_set"
    using assms pre spec
    by (auto simp: ringbuffer_32ch_init_alt m c ringbuffer_32ch_destory_def Let_def split: if_splits)
  have "h_live (destroy_channels h2 chs) = h_live h2 - blocks_of chs"
    using spec fresh_channels_data by (intro destroy_channels_live) blast
  then show ?thesis using spec res by (simp add: free_block_def)
qed

lemma ringbuffer_32ch_init_success:
  assumes "ringbuffer_32ch_init ok h (Some s0) esize cap n = (Inr (), st, h')"
  obtains s chs where "st = Some s" "channels s = Some chs" "length chs = unat n" "max_channel s = n"
    "elem_size s = esize" "buf_capacity s = round_capacity cap" "set_inv s"
    "\<forall>c \<in> set chs. fresh_channel (round_capacity cap) esize c"
    "h_live h' = h_live h + 1 + 2 * int (unat n)"
proof -
  let ?h1 = "h\<lparr>h_calls := Suc (h_calls h), h_live := h_live h + 1\<rparr>"
  have pre: "esize \<noteq> 0" "\<not> round_capacity cap > 0xFFFFFFFF div esize" "cap \<noteq> 0" "n \<noteq> 0" "ok (h_calls h)"
    using assms by (auto simp: ringbuffer_32ch_init_alt malloc_def split: if_splits)
  then have m: "malloc ok h = (True, ?h1)" by (simp add: malloc_def)
  obtain made chs h2 where c: "create_channels ok (round_capacity cap * esize) esize (unat n) 0
      (replicate (unat n) None) ?h1 = (made, chs, h2)"
    by (metis prod_cases3)
  note spec = init_channels_spec[OF pre(1,2) c]
  have r: "made" "st = Some \<lparr>channels = Some chs, max_channel = n, elem_size = esize,
      buf_capacity = round_capacity cap\<rparr>" "h' = h2"
    using assms pre by (auto simp: ringbuffer_32ch_init_alt m c Let_def split: if_splits prod.splits)
  have all: "\<forall>c \<in> set chs. fresh_channel (round_capacity cap) esize c" using spec r(1) by simp
  then have "filter (\<lambda>c. c \<noteq> None) chs = chs" by (auto simp: filter_id_conv dest: fresh_channel_Some)
  then have "blocks_of chs = 2 * int (unat n)" using spec by (simp add: blocks_of_def)
  moreover have "set_inv \<lparr>channels = Some chs, max_channel = n, elem_size = esize,
      buf_capacity = round_capacity cap\<rparr>"
    using all spec by (auto simp: set_inv_def fresh_channel_def)
  ultimately show ?thesis
    using that[OF r(2), of chs] all spec r(3) by simp
qed

lemma ringbuffer_32ch_destory_live:
  assumes "set_inv s" "channels s = Some chs" "\<forall>c \<in> set chs. c \<noteq> None"
  shows "fst (ringbuffer_32ch_destory h (Some s) n) = Some zero_set"
    and "h_live (snd (ringbuffer_32ch_destory h (Some s) n)) = h_live h - 1 - 2 * int (unat (max_channel s))"
proof -
  have l: "length chs = unat (max_channel s)" and inv: "\<And>r. Some r \<in> set chs \<Longrightarrow> rb_inv r"
    using assms(1,2) by (auto simp: set_inv_def)
  have "filter (\<lambda>c. c \<noteq> None) chs = chs" using assms(3) by (simp add: filter_id_conv)
  then have "blocks_of chs = 2 * int (unat (max_channel s))" using l by (simp add: blocks_of_def)
  moreover have "h_live (destroy_channels h chs) = h_live h - blocks_of chs"
    using inv rb_inv_data_nonempty by (intro destroy_channels_live) blast
  ultimately show "h_live (snd (ringbuffer_32ch_destory h (Some s) n)) = h_live h - 1 - 2 * int (unat (max_channel s))"
    using l assms(2) by (simp add: ringbuffer_32ch_destory_def free_block_def)
qed (simp add: ringbuffer_32ch_destory_def)

lemma destroy_channels_calls: "h_calls (destroy_channels h chs) = h_calls h"
  by (induction h chs rule: destroy_channels.induct)
    (auto simp: ringbuffer_destory_def free_block_def split: option.splits)

lemma destory_calls: "h_calls (snd (ringbuffer_32ch_destory h st n)) = h_calls h"
  by (auto simp: ringbuffer_32ch_destory_def free_block_def destroy_channels_calls split: option.splits)

text \<open>
  A successful initialisation yields a well-formed set of empty queues, and destroying that set gives back every
  block, with any value of the unused channel argument.  Initialisation succeeds when every allocation does.
\<close>

lemma init_success_laws:
  assumes "ringbuffer_32ch_init ok h (Some s0) esize cap n = (Inr (), Some s, h')"
  shows "set_inv s \<and> max_channel s = n \<and> elem_size s = esize \<and>
    (\<forall>ch. ch < n \<longrightarrow> ch_ok s ch n \<and> ch_contents s ch = [] \<and> ch_capacity s ch = unat (round_capacity cap)) \<and>
    ringbuffer_32ch_destory h' (Some s) m = (Some zero_set, h'\<lparr>h_live := h_live h\<rparr>)"
proof -
  obtain chs where s: "channels s = Some chs" "length chs = unat n" "max_channel s = n"
      "elem_size s = esize" "set_inv s" "\<forall>c \<in> set chs. fresh_channel (round_capacity cap) esize c"
      "h_live h' = h_live h + 1 + 2 * int (unat n)"
    using assms by (auto elim: ringbuffer_32ch_init_success)
  have ch: "ch_ok s ch n \<and> ch_contents s ch = [] \<and> ch_capacity s ch = unat (round_capacity cap)" if "ch < n" for ch
  proof -
    have l: "unat ch < length chs" using that s(2) by (simp add: word_less_nat_alt)
    then have "fresh_channel (round_capacity cap) esize (chs ! unat ch)" using s(6) nth_mem by blast
    then show ?thesis
      using s(1-3) l that by (auto simp: fresh_channel_def ch_ok_def ringbuffer_channel_valid_def
          ch_contents_def ch_capacity_def channel_of_def split: option.splits)
  qed
  have "\<forall>c \<in> set chs. c \<noteq> None" using s(6) fresh_channel_Some by blast
  then have live: "h_live (snd (ringbuffer_32ch_destory h' (Some s) m)) = h_live h"
    "fst (ringbuffer_32ch_destory h' (Some s) m) = Some zero_set"
    using ringbuffer_32ch_destory_live[OF s(5,1), of h' m] s(3,7) by auto
  have "snd (ringbuffer_32ch_destory h' (Some s) m) = h'\<lparr>h_live := h_live h\<rparr>"
    using live(1) destory_calls[of h' "Some s" m] by (intro heap_state.equality) auto
  then show ?thesis using s ch live(2) by (auto simp: prod_eq_iff)
qed

lemma create_channels_all_ok:
  assumes "\<forall>k. ok k" "bs \<noteq> 0" "esize \<noteq> 0"
  shows "fst (create_channels ok bs esize n i chs h)"
  using assms
proof (induction ok bs esize n i chs h rule: create_channels.induct)
  case (2 ok bs esize n i chs h)
  obtain r h1 where c: "ringbuffer_create ok h bs esize = (Inr r, h1)"
    using 2(2-4) by (auto simp: ringbuffer_create_def malloc_def Let_def)
  have "fst (create_channels ok bs esize n (Suc i) (chs[i := Some r]) h1)" by (rule 2(1)[OF c[symmetric] refl 2(2-4)])
  then show ?case by (simp add: c)
qed simp

lemma init_all_allocs_ok:
  assumes "\<forall>k. ok k" "esize \<noteq> 0" "cap \<noteq> 0" "n \<noteq> 0" "round_capacity cap \<le> 0xFFFFFFFF div esize"
  shows "\<exists>s h'. ringbuffer_32ch_init ok h (Some s0) esize cap n = (Inr (), Some s, h')"
proof -
  have "round_capacity cap * esize \<noteq> 0"
  proof -
    have "round_capacity cap * esize div esize = round_capacity cap" using capacity_div_exact[OF assms(2)] assms(5) by simp
    moreover have "round_capacity cap \<noteq> 0" by (simp add: round_capacity_def Let_def)
    ultimately show ?thesis by (metis div_0)
  qed
  then have c: "fst (create_channels ok (round_capacity cap * esize) esize m i chs h1)" for m i chs h1
    using assms(1,2) by (intro create_channels_all_ok)
  obtain chs h2 where "create_channels ok (round_capacity cap * esize) esize (unat n) 0 (replicate (unat n) None)
      (snd (malloc ok h)) = (True, chs, h2)"
    using c by (metis prod.collapse)
  then show ?thesis using assms by (auto simp: ringbuffer_32ch_init_alt malloc_def not_less Let_def)
qed

section \<open>Properties\<close>

text \<open>
  C18.  On a well-formed set, any sequence of puts and gets on one channel behaves as a bounded list
  queue of that channel's capacity; an invalid channel behaves as a queue of capacity 0.
\<close>

theorem channel_refines_fifo:
  assumes "set_inv s" and "\<And>x. Put x \<in> set ops \<Longrightarrow> length x = unat (elem_size s)"
    and "fifo_run (set_put_op ch limit) (set_get_op ch limit) s ops = (outs, s')"
  shows "set_inv s' \<and> spec_run (ch_room ch limit s) (ch_view ch limit s) ops = (outs, ch_view ch limit s')"
  using assms by (rule chan.run_refines)

definition demo_set :: RingBuffer32ChSet where
  "demo_set = \<lparr>channels = Some [Some \<lparr>rb_data = [7, 0], rb_in = 1, rb_out = 0, rb_mask = 1, rb_esize = 1\<rparr>,
                                 Some \<lparr>rb_data = [0, 0], rb_in = 0, rb_out = 0, rb_mask = 1, rb_esize = 1\<rparr>],
               max_channel = 2, elem_size = 1, buf_capacity = 2\<rparr>"

lemma demo_set_inv: "set_inv demo_set"
  by (simp add: demo_set_def set_inv_def rb_inv_def is_power_of_2_def rb_capacity_def rb_count_def)

theorem channel_refines_fifo_witness:
  "fst (fifo_run (set_put_op 0 2) (set_get_op 0 2) demo_set [Put [3], Put [5], Get, Get]) =
   [Stored True, Stored False, Fetched (Some [7]), Fetched (Some [3])]"
proof -
  let ?ops = "[Put [3], Put [5], Get, Get]"
  obtain outs s' where o: "fifo_run (set_put_op 0 2) (set_get_op 0 2) demo_set ?ops = (outs, s')" by fastforce
  have "spec_run (ch_room 0 2 demo_set) (ch_view 0 2 demo_set) ?ops = (outs, ch_view 0 2 s')"
    by (rule conjunct2[OF channel_refines_fifo[OF demo_set_inv _ o]]) (auto simp: demo_set_def)
  moreover have "ch_room 0 2 demo_set = 2" "ch_view 0 2 demo_set = [[7]]"
    by code_simp+
  ultimately show ?thesis
    unfolding o by (simp add: spec_run_def spec_put_def spec_get_def)
qed



end
