(* ===== verification/Server_State.thy ===== *)
theory Server_State
  imports Wire_Structs Ring_Channels
begin

text \<open>
  The state that the threads of \<^verbatim>\<open>src/main18.c\<close> share, the operating system as a parameter, and the
  functions that send packets to the host.

  \<open>server\<close> has one field per global variable of the program.  A mutex is not represented: each
  definition is one critical section, executed without interruption by the other holders of its
  lock.  Output that only reaches the console is not represented.  The operating system is the
  record \<open>os\<close> of oracles: the value that the \<open>k\<close>-th system call returns; \<open>sys_calls\<close> counts the calls
  and \<open>sys_trace\<close> records what left the process.
\<close>

section \<open>Global state\<close>

datatype CanState = CAN_STATE_CLOSED | CAN_STATE_OPENED

record CanDeviceConfig =
  dc_can_id :: u8
  dc_baud_rate :: u32
  dc_mode :: u8
  dc_can_type :: u8
  dc_valid :: u8
  dc_state :: CanState

record BroadcastSchedulerConfig =
  bc_enable :: u8
  bc_mode :: u8
  bc_start_group :: u8
  bc_current_group :: u8
  bc_start_channel :: u8
  bc_poll_next_channel :: u8
  bc_active_mask :: u32
  bc_group_a_mask :: u32
  bc_group_b_mask :: u32
  bc_config_count :: u32

record PacketBuffer =
  pb_frames :: "PC_ARM_DATA_DATA list"
  pb_total_packets :: u8
  pb_received_packets :: u8
  pb_is_active :: bool
  pb_last_receive_time :: int

record axican =
  ax_id :: u8
  ax_rd_fd :: int
  ax_rd_flags :: int
  ax_wr_fd :: int
  ax_wr_flags :: int
  ax_count :: int
  ax_w_count :: int

datatype effect =
    Sent int "byte list"
  | Shutdown int
  | Closed int
  | SetBaud int u32
  | SetMode int u32
  | Written int "byte list"

record server =
  event_socket :: int
  data_upload_socket :: int
  data_download_socket :: int
  data_counter :: u16
  channel_frame_count :: "u32 list"
  can_configs :: "CanDeviceConfig list"
  axican_test :: "axican list"
  g_tcp_buffer_total :: u32
  g_tcp_buffer_used :: u32
  g_data_buf_set :: RingBuffer32ChSet
  g_simulator_buf_set :: RingBuffer32ChSet
  g_pulse_buf_set :: RingBuffer32ChSet
  g_can_buf_set :: RingBuffer32ChSet
  g_poll_buf_set :: RingBuffer32ChSet
  g_bcast_group_buf_set :: RingBuffer32ChSet
  g_bcast_cfg :: BroadcastSchedulerConfig
  g_bcast_wake_pending :: "u32 list"
  g_bcast_group_id :: u32
  g_bcast_rx_gate_open :: u8
  g_bcast_rx_gate_until_ms :: u64
  packet_buffers :: "PacketBuffer list"
  can_data_type :: u8
  running :: bool
  sys_calls :: nat
  sys_trace :: "effect list"

abbreviation AXICAN_MAX :: nat where "AXICAN_MAX \<equiv> 6"

abbreviation PC_STATUS_HEAD :: u32 where "PC_STATUS_HEAD \<equiv> 0x499602D2"
abbreviation PC_ARM_STATUS_WORD :: u32 where "PC_ARM_STATUS_WORD \<equiv> 0xFFF0CC01"
abbreviation REQ_SYNC_WORD :: u32 where "REQ_SYNC_WORD \<equiv> 0x03CCF0FF"
abbreviation ACK_SYNC_WORD :: u32 where "ACK_SYNC_WORD \<equiv> 0x05CCF0FF"
abbreviation EVNET_SYNC_WORD :: u32 where "EVNET_SYNC_WORD \<equiv> 0x02CCF0FF"
abbreviation PC_ARM_DATA_WORD :: u32 where "PC_ARM_DATA_WORD \<equiv> 0x04CCF0FF"

text \<open>The state at program start: the static initialisers.\<close>

definition zero_config :: CanDeviceConfig where
  "zero_config = \<lparr>dc_can_id = 0, dc_baud_rate = 0, dc_mode = 0, dc_can_type = 0, dc_valid = 0,
                   dc_state = CAN_STATE_CLOSED\<rparr>"

definition zero_bcast_cfg :: BroadcastSchedulerConfig where
  "zero_bcast_cfg = \<lparr>bc_enable = 0, bc_mode = 0, bc_start_group = 0, bc_current_group = 0,
     bc_start_channel = 0, bc_poll_next_channel = 0, bc_active_mask = 0, bc_group_a_mask = 0,
     bc_group_b_mask = 0, bc_config_count = 0\<rparr>"

definition zero_payload :: PC_ARM_DATA_DATA where
  "zero_payload = \<lparr>pd_head = 0, pd_direction = 0, pd_type = 0, pd_length = 0, pd_ch_id = 0,
     pd_total_count = 0, pd_ch_count = 0, pd_idr = 0, pd_drcr = 0, pd_dw1r = 0, pd_dw2r = 0,
     pd_packets_sum = 0, pd_packets_no = 0, pd_timestamp = 0, pd_xor_checksum = 0\<rparr>"

definition zero_packet_buffer :: PacketBuffer where
  "zero_packet_buffer = \<lparr>pb_frames = replicate 10 zero_payload, pb_total_packets = 0,
     pb_received_packets = 0, pb_is_active = False, pb_last_receive_time = 0\<rparr>"

definition zero_axican :: axican where
  "zero_axican = \<lparr>ax_id = 0, ax_rd_fd = 0, ax_rd_flags = 0, ax_wr_fd = 0, ax_wr_flags = 0, ax_count = 0, ax_w_count = 0\<rparr>"

definition boot_server :: server where
  "boot_server =
     \<lparr>event_socket = -1, data_upload_socket = -1, data_download_socket = -1, data_counter = 0,
      channel_frame_count = replicate 6 0, can_configs = replicate 6 zero_config,
      axican_test = replicate 32 zero_axican, g_tcp_buffer_total = 1048628, g_tcp_buffer_used = 0,
      g_data_buf_set = zero_set, g_simulator_buf_set = zero_set, g_pulse_buf_set = zero_set,
      g_can_buf_set = zero_set, g_poll_buf_set = zero_set, g_bcast_group_buf_set = zero_set,
      g_bcast_cfg = zero_bcast_cfg, g_bcast_wake_pending = replicate 6 0, g_bcast_group_id = 0,
      g_bcast_rx_gate_open = 0, g_bcast_rx_gate_until_ms = 0,
      packet_buffers = replicate 6 zero_packet_buffer, can_data_type = 0, running = True, sys_calls = 0, sys_trace = []\<rparr>"

section \<open>System calls\<close>

text \<open>
  \<open>os_clock\<close> gives seconds and nanoseconds, or \<open>None\<close> when the call fails; code that ignores the
  failure reads the uninitialised structure, whose contents are \<open>os_stale\<close>.
\<close>

record os =
  os_send :: "nat \<Rightarrow> int"
  os_write :: "nat \<Rightarrow> int"
  os_ioctl :: "nat \<Rightarrow> int"
  os_clock :: "nat \<Rightarrow> (u64 \<times> u64) option"
  os_stale :: "nat \<Rightarrow> u64 \<times> u64"
  os_time :: "nat \<Rightarrow> int"
  os_malloc :: "nat \<Rightarrow> bool"

definition sys_send :: "os \<Rightarrow> int \<Rightarrow> byte list \<Rightarrow> server \<Rightarrow> int \<times> server" where
  "sys_send os sock bytes s =
     (os_send os (sys_calls s),
      s\<lparr>sys_calls := Suc (sys_calls s), sys_trace := sys_trace s @ [Sent sock bytes]\<rparr>)"

definition sys_shutdown :: "int \<Rightarrow> server \<Rightarrow> server" where
  "sys_shutdown sock s =
     s\<lparr>sys_calls := Suc (sys_calls s), sys_trace := sys_trace s @ [Shutdown sock]\<rparr>"

definition sys_clock :: "os \<Rightarrow> server \<Rightarrow> (u64 \<times> u64) option \<times> server" where
  "sys_clock os s = (os_clock os (sys_calls s), s\<lparr>sys_calls := Suc (sys_calls s)\<rparr>)"

text \<open>Time stamps computed without testing the result of the clock call.\<close>

definition clock_ts :: "os \<Rightarrow> server \<Rightarrow> (u64 \<times> u64) \<times> server" where
  "clock_ts os s =
     (case sys_clock os s of
        (Some ts, s1) \<Rightarrow> (ts, s1)
      | (None, s1) \<Rightarrow> (os_stale os (sys_calls s), s1))"

definition usec_of :: "u64 \<times> u64 \<Rightarrow> u64" where
  "usec_of ts = fst ts * 1000000 + snd ts div 1000"

section \<open>Events to the host\<close>

datatype EventID = EVENT_CAN_INIT_FAILED | EVENT_CAN_SENT_FAILE
datatype EventLevel = EVENT_LEVEL_INFO | EVENT_LEVEL_RISK | EVENT_LEVEL_ERROR | EVENT_LEVEL_FATAL

primrec event_id_code :: "EventID \<Rightarrow> u32" where
  "event_id_code EVENT_CAN_INIT_FAILED = 1"
| "event_id_code EVENT_CAN_SENT_FAILE = 2"

primrec event_level_code :: "EventLevel \<Rightarrow> u32" where
  "event_level_code EVENT_LEVEL_INFO = 0"
| "event_level_code EVENT_LEVEL_RISK = 1"
| "event_level_code EVENT_LEVEL_ERROR = 2"
| "event_level_code EVENT_LEVEL_FATAL = 3"

definition strncpy63 :: "string \<Rightarrow> byte list" where
  "strncpy63 msg = (let bs = take 63 (map of_char msg) in bs @ replicate (64 - length bs) 0)"

text \<open>The error code that callers pass is never read by the function and has no argument here.\<close>

definition send_event :: "os \<Rightarrow> EventLevel \<Rightarrow> EventID \<Rightarrow> string \<Rightarrow> server \<Rightarrow> server" where
  "send_event os level eid msg s =
     (if event_socket s = -1 then s
      else case clock_ts os s of (ts, s1) \<Rightarrow>
        (let ev = \<lparr>ev_sync_word = EVNET_SYNC_WORD, ev_data_len = 84, ev_level = event_level_code level,
                   ev_id = event_id_code eid, ev_timestamp = ucast (usec_of ts), ev_checksum = 0,
                   ev_description = strncpy63 msg\<rparr>;
             ev = ev\<lparr>ev_checksum := ucast (calculate_xor_checksum (Some (event_bytes ev)) 82)\<rparr>
         in case sys_send os (event_socket s1) (event_bytes ev) s1 of (sent, s2) \<Rightarrow>
              if sent \<noteq> 84 then (sys_shutdown (event_socket s2) s2)\<lparr>event_socket := -1\<rparr>
              else s2))"

text \<open>Every event of the modelled code has the level and the identifier of a failed transmission.\<close>

abbreviation send_error :: "os \<Rightarrow> string \<Rightarrow> server \<Rightarrow> server" where
  "send_error os msg \<equiv> send_event os EVENT_LEVEL_ERROR EVENT_CAN_SENT_FAILE msg"

section \<open>Packets on the upload connection\<close>

text \<open>
  The common tail of the senders: the packet goes to the upload socket; after a failed or partial
  send the connection is shut down and forgotten, its descriptor is closed by the thread that owns it.
\<close>

definition upload_send :: "os \<Rightarrow> byte list \<Rightarrow> server \<Rightarrow> server" where
  "upload_send os bytes s =
     (case sys_send os (data_upload_socket s) bytes s of (sent, s1) \<Rightarrow>
        if sent \<noteq> int (length bytes)
        then (sys_shutdown (data_upload_socket s1) s1)\<lparr>data_upload_socket := -1\<rparr>
        else s1)"

definition send_can_send_response :: "os \<Rightarrow> CAN_Send_Response \<Rightarrow> server \<Rightarrow> server" where
  "send_can_send_response os response s =
     (if data_upload_socket s = -1 then s else upload_send os (send_response_bytes response) s)"

definition response_checksum :: "CAN_Send_Response \<Rightarrow> u32" where
  "response_checksum r = calculate_xor_checksum (Some (send_response_bytes r)) 16"

definition send_can_config_response :: "os \<Rightarrow> u8 \<Rightarrow> u32 \<Rightarrow> server \<Rightarrow> server" where
  "send_can_config_response os can_id status s =
     (if data_upload_socket s = -1 then s
      else let s1 = s\<lparr>data_counter := data_counter s + 1\<rparr>;
               r = zero_response\<lparr>rs_HEAD := reverse_4bytes ACK_SYNC_WORD, rs_LENGTH := reverse_4bytes 20,
                                 rs_COUNT := data_counter s1, rs_COMMOND := reverse_2bytes 0x0101\<rparr>;
               r = r\<lparr>rs_Checksum := response_checksum r\<rparr>;
               r = r\<lparr>rs_STATUS := status\<rparr>
           in upload_send os (send_response_bytes r) s1)"

definition send_start_stop_response :: "os \<Rightarrow> u8 \<Rightarrow> server \<Rightarrow> server" where
  "send_start_stop_response os status s =
     (let r = zero_response\<lparr>rs_HEAD := reverse_4bytes ACK_SYNC_WORD, rs_LENGTH := reverse_4bytes 20,
                            rs_COUNT := data_counter s, rs_COMMOND := reverse_2bytes 0x0103,
                            rs_STATUS := ucast status\<rparr>;
          s1 = s\<lparr>data_counter := data_counter s + 1\<rparr>;
          r = r\<lparr>rs_Checksum := response_checksum r\<rparr>
      in send_can_send_response os r s1)"

definition send_broadcast_config_response :: "os \<Rightarrow> u8 \<Rightarrow> server \<Rightarrow> server" where
  "send_broadcast_config_response os status s =
     (let s1 = s\<lparr>data_counter := data_counter s + 1\<rparr>;
          r = zero_response\<lparr>rs_HEAD := reverse_4bytes ACK_SYNC_WORD, rs_LENGTH := reverse_4bytes 20,
                            rs_COUNT := data_counter s1, rs_COMMOND := reverse_2bytes 0x0104,
                            rs_STATUS := ucast status\<rparr>;
          r = r\<lparr>rs_Checksum := response_checksum r\<rparr>
      in send_can_send_response os r s1)"

text \<open>\<open>VersionQueryResponse\<close> has the layout of \<open>CAN_Send_Response\<close>, with the version in the last word.\<close>

definition send_version_query_response :: "os \<Rightarrow> u16 \<Rightarrow> u32 \<Rightarrow> server \<Rightarrow> server" where
  "send_version_query_response os req_counter version s =
     (if data_upload_socket s = -1 then s
      else let r = zero_response\<lparr>rs_HEAD := reverse_4bytes ACK_SYNC_WORD, rs_LENGTH := reverse_4bytes 4,
                                 rs_COUNT := req_counter, rs_COMMOND := reverse_2bytes 0xFF05\<rparr>;
               r = r\<lparr>rs_Checksum := calculate_xor_checksum (Some (send_response_bytes r)) 12\<rparr>;
               r = r\<lparr>rs_STATUS := reverse_4bytes version\<rparr>
           in upload_send os (send_response_bytes r) s)"

section \<open>Frame counters and status packets\<close>

text \<open>
  The packet counter is 16 bits wide and is compared with the largest 32-bit number after integer
  promotion, as the source does it.
\<close>

definition next_total_count :: "u16 \<Rightarrow> u32" where
  "next_total_count c = (if (ucast c :: u32) = 0xFFFFFFFF then 0 else ucast c + 1)"

definition bump_channel_count :: "u8 \<Rightarrow> server \<Rightarrow> u32 \<times> server" where
  "bump_channel_count ch s =
     (let n = channel_frame_count s ! unat ch;
          n' = (if n = 0xFFFFFFFF then 0 else n + 1)
      in (n', s\<lparr>channel_frame_count := (channel_frame_count s)[unat ch := n']\<rparr>))"

definition send_can_transmit_response ::
    "os \<Rightarrow> u8 \<Rightarrow> u8 \<Rightarrow> u8 \<Rightarrow> axican_frame \<Rightarrow> server \<Rightarrow> server" where
  "send_can_transmit_response os can_id type status frame s =
     (if data_upload_socket s = -1 then s
      else case bump_channel_count can_id s of (n, s1) \<Rightarrow>
        (case clock_ts os s1 of (ts, s2) \<Rightarrow>
          (let r = \<lparr>st_arm_head = PC_ARM_STATUS_WORD, st_arm_length = reverse_4bytes 48, st_arm_conter = 0,
                    st_arm_commond = 0, st_arm_check = 0, st_arm_chind = reverse_4bytes (ucast can_id),
                    st_head = PC_STATUS_HEAD, st_direction = 1, st_type = type, st_length = 0x30,
                    st_ch_id = can_id, st_total_count = next_total_count (data_counter s),
                    st_ch_count = n, st_idr = af_can_id frame, st_drcr = af_can_dlc frame,
                    st_dw1r = af_data0 frame, st_dw2r = af_data1 frame, st_states = status,
                    st_xor_states = status, st_reserved2 = 0, st_timestamp = usec_of ts,
                    st_xor_checksum = 0\<rparr>;
               r = r\<lparr>st_xor_checksum := calculate_xor_checksum (Some (status_bytes r)) 64\<rparr>
           in upload_send os (status_bytes r) s2)))"

section \<open>Frames: what the senders leave alone\<close>

lemmas send_defs = sys_send_def sys_shutdown_def sys_clock_def clock_ts_def Let_def

lemma send_event_frame [simp]:
  "data_upload_socket (send_event os level eid msg s) = data_upload_socket s"
  "data_download_socket (send_event os level eid msg s) = data_download_socket s"
  "data_counter (send_event os level eid msg s) = data_counter s"
  "channel_frame_count (send_event os level eid msg s) = channel_frame_count s"
  "can_configs (send_event os level eid msg s) = can_configs s"
  "axican_test (send_event os level eid msg s) = axican_test s"
  "g_tcp_buffer_total (send_event os level eid msg s) = g_tcp_buffer_total s"
  "g_tcp_buffer_used (send_event os level eid msg s) = g_tcp_buffer_used s"
  "g_data_buf_set (send_event os level eid msg s) = g_data_buf_set s"
  "g_simulator_buf_set (send_event os level eid msg s) = g_simulator_buf_set s"
  "g_pulse_buf_set (send_event os level eid msg s) = g_pulse_buf_set s"
  "g_can_buf_set (send_event os level eid msg s) = g_can_buf_set s"
  "g_poll_buf_set (send_event os level eid msg s) = g_poll_buf_set s"
  "g_bcast_group_buf_set (send_event os level eid msg s) = g_bcast_group_buf_set s"
  "g_bcast_cfg (send_event os level eid msg s) = g_bcast_cfg s"
  "g_bcast_wake_pending (send_event os level eid msg s) = g_bcast_wake_pending s"
  "g_bcast_group_id (send_event os level eid msg s) = g_bcast_group_id s"
  "g_bcast_rx_gate_open (send_event os level eid msg s) = g_bcast_rx_gate_open s"
  "g_bcast_rx_gate_until_ms (send_event os level eid msg s) = g_bcast_rx_gate_until_ms s"
  "packet_buffers (send_event os level eid msg s) = packet_buffers s"
  "running (send_event os level eid msg s) = running s"
  by (simp_all add: send_event_def send_defs split: option.split)

lemma upload_send_frame [simp]:
  "event_socket (upload_send os bytes s) = event_socket s"
  "data_download_socket (upload_send os bytes s) = data_download_socket s"
  "data_counter (upload_send os bytes s) = data_counter s"
  "channel_frame_count (upload_send os bytes s) = channel_frame_count s"
  "can_configs (upload_send os bytes s) = can_configs s"
  "axican_test (upload_send os bytes s) = axican_test s"
  "g_tcp_buffer_total (upload_send os bytes s) = g_tcp_buffer_total s"
  "g_tcp_buffer_used (upload_send os bytes s) = g_tcp_buffer_used s"
  "g_data_buf_set (upload_send os bytes s) = g_data_buf_set s"
  "g_simulator_buf_set (upload_send os bytes s) = g_simulator_buf_set s"
  "g_pulse_buf_set (upload_send os bytes s) = g_pulse_buf_set s"
  "g_can_buf_set (upload_send os bytes s) = g_can_buf_set s"
  "g_poll_buf_set (upload_send os bytes s) = g_poll_buf_set s"
  "g_bcast_group_buf_set (upload_send os bytes s) = g_bcast_group_buf_set s"
  "g_bcast_cfg (upload_send os bytes s) = g_bcast_cfg s"
  "g_bcast_wake_pending (upload_send os bytes s) = g_bcast_wake_pending s"
  "g_bcast_group_id (upload_send os bytes s) = g_bcast_group_id s"
  "g_bcast_rx_gate_open (upload_send os bytes s) = g_bcast_rx_gate_open s"
  "g_bcast_rx_gate_until_ms (upload_send os bytes s) = g_bcast_rx_gate_until_ms s"
  "packet_buffers (upload_send os bytes s) = packet_buffers s"
  "running (upload_send os bytes s) = running s"
  by (simp_all add: upload_send_def send_defs)

lemma send_can_send_response_frame [simp]:
  "event_socket (send_can_send_response os r s) = event_socket s"
  "data_download_socket (send_can_send_response os r s) = data_download_socket s"
  "data_counter (send_can_send_response os r s) = data_counter s"
  "channel_frame_count (send_can_send_response os r s) = channel_frame_count s"
  "can_configs (send_can_send_response os r s) = can_configs s"
  "axican_test (send_can_send_response os r s) = axican_test s"
  "g_tcp_buffer_total (send_can_send_response os r s) = g_tcp_buffer_total s"
  "g_tcp_buffer_used (send_can_send_response os r s) = g_tcp_buffer_used s"
  "g_data_buf_set (send_can_send_response os r s) = g_data_buf_set s"
  "g_simulator_buf_set (send_can_send_response os r s) = g_simulator_buf_set s"
  "g_pulse_buf_set (send_can_send_response os r s) = g_pulse_buf_set s"
  "g_can_buf_set (send_can_send_response os r s) = g_can_buf_set s"
  "g_poll_buf_set (send_can_send_response os r s) = g_poll_buf_set s"
  "g_bcast_group_buf_set (send_can_send_response os r s) = g_bcast_group_buf_set s"
  "g_bcast_cfg (send_can_send_response os r s) = g_bcast_cfg s"
  "g_bcast_wake_pending (send_can_send_response os r s) = g_bcast_wake_pending s"
  "g_bcast_group_id (send_can_send_response os r s) = g_bcast_group_id s"
  "g_bcast_rx_gate_open (send_can_send_response os r s) = g_bcast_rx_gate_open s"
  "g_bcast_rx_gate_until_ms (send_can_send_response os r s) = g_bcast_rx_gate_until_ms s"
  "packet_buffers (send_can_send_response os r s) = packet_buffers s"
  "running (send_can_send_response os r s) = running s"
  by (simp_all add: send_can_send_response_def)

lemma send_broadcast_config_response_frame [simp]:
  "event_socket (send_broadcast_config_response os st s) = event_socket s"
  "data_download_socket (send_broadcast_config_response os st s) = data_download_socket s"
  "channel_frame_count (send_broadcast_config_response os st s) = channel_frame_count s"
  "can_configs (send_broadcast_config_response os st s) = can_configs s"
  "axican_test (send_broadcast_config_response os st s) = axican_test s"
  "g_tcp_buffer_total (send_broadcast_config_response os st s) = g_tcp_buffer_total s"
  "g_tcp_buffer_used (send_broadcast_config_response os st s) = g_tcp_buffer_used s"
  "g_data_buf_set (send_broadcast_config_response os st s) = g_data_buf_set s"
  "g_simulator_buf_set (send_broadcast_config_response os st s) = g_simulator_buf_set s"
  "g_pulse_buf_set (send_broadcast_config_response os st s) = g_pulse_buf_set s"
  "g_can_buf_set (send_broadcast_config_response os st s) = g_can_buf_set s"
  "g_poll_buf_set (send_broadcast_config_response os st s) = g_poll_buf_set s"
  "g_bcast_group_buf_set (send_broadcast_config_response os st s) = g_bcast_group_buf_set s"
  "g_bcast_cfg (send_broadcast_config_response os st s) = g_bcast_cfg s"
  "g_bcast_wake_pending (send_broadcast_config_response os st s) = g_bcast_wake_pending s"
  "g_bcast_group_id (send_broadcast_config_response os st s) = g_bcast_group_id s"
  "g_bcast_rx_gate_open (send_broadcast_config_response os st s) = g_bcast_rx_gate_open s"
  "g_bcast_rx_gate_until_ms (send_broadcast_config_response os st s) = g_bcast_rx_gate_until_ms s"
  "packet_buffers (send_broadcast_config_response os st s) = packet_buffers s"
  "running (send_broadcast_config_response os st s) = running s"
  by (simp_all add: send_broadcast_config_response_def Let_def)

lemma send_start_stop_response_frame [simp]:
  "event_socket (send_start_stop_response os st s) = event_socket s"
  "data_download_socket (send_start_stop_response os st s) = data_download_socket s"
  "channel_frame_count (send_start_stop_response os st s) = channel_frame_count s"
  "can_configs (send_start_stop_response os st s) = can_configs s"
  "axican_test (send_start_stop_response os st s) = axican_test s"
  "g_tcp_buffer_total (send_start_stop_response os st s) = g_tcp_buffer_total s"
  "g_tcp_buffer_used (send_start_stop_response os st s) = g_tcp_buffer_used s"
  "g_data_buf_set (send_start_stop_response os st s) = g_data_buf_set s"
  "g_simulator_buf_set (send_start_stop_response os st s) = g_simulator_buf_set s"
  "g_pulse_buf_set (send_start_stop_response os st s) = g_pulse_buf_set s"
  "g_can_buf_set (send_start_stop_response os st s) = g_can_buf_set s"
  "g_poll_buf_set (send_start_stop_response os st s) = g_poll_buf_set s"
  "g_bcast_group_buf_set (send_start_stop_response os st s) = g_bcast_group_buf_set s"
  "g_bcast_cfg (send_start_stop_response os st s) = g_bcast_cfg s"
  "g_bcast_wake_pending (send_start_stop_response os st s) = g_bcast_wake_pending s"
  "g_bcast_group_id (send_start_stop_response os st s) = g_bcast_group_id s"
  "g_bcast_rx_gate_open (send_start_stop_response os st s) = g_bcast_rx_gate_open s"
  "g_bcast_rx_gate_until_ms (send_start_stop_response os st s) = g_bcast_rx_gate_until_ms s"
  "packet_buffers (send_start_stop_response os st s) = packet_buffers s"
  "running (send_start_stop_response os st s) = running s"
  by (simp_all add: send_start_stop_response_def Let_def)

lemma send_can_config_response_frame [simp]:
  "event_socket (send_can_config_response os c st s) = event_socket s"
  "data_download_socket (send_can_config_response os c st s) = data_download_socket s"
  "channel_frame_count (send_can_config_response os c st s) = channel_frame_count s"
  "can_configs (send_can_config_response os c st s) = can_configs s"
  "axican_test (send_can_config_response os c st s) = axican_test s"
  "g_tcp_buffer_total (send_can_config_response os c st s) = g_tcp_buffer_total s"
  "g_tcp_buffer_used (send_can_config_response os c st s) = g_tcp_buffer_used s"
  "g_data_buf_set (send_can_config_response os c st s) = g_data_buf_set s"
  "g_simulator_buf_set (send_can_config_response os c st s) = g_simulator_buf_set s"
  "g_pulse_buf_set (send_can_config_response os c st s) = g_pulse_buf_set s"
  "g_can_buf_set (send_can_config_response os c st s) = g_can_buf_set s"
  "g_poll_buf_set (send_can_config_response os c st s) = g_poll_buf_set s"
  "g_bcast_group_buf_set (send_can_config_response os c st s) = g_bcast_group_buf_set s"
  "g_bcast_cfg (send_can_config_response os c st s) = g_bcast_cfg s"
  "g_bcast_wake_pending (send_can_config_response os c st s) = g_bcast_wake_pending s"
  "g_bcast_group_id (send_can_config_response os c st s) = g_bcast_group_id s"
  "g_bcast_rx_gate_open (send_can_config_response os c st s) = g_bcast_rx_gate_open s"
  "g_bcast_rx_gate_until_ms (send_can_config_response os c st s) = g_bcast_rx_gate_until_ms s"
  "packet_buffers (send_can_config_response os c st s) = packet_buffers s"
  "running (send_can_config_response os c st s) = running s"
  by (simp_all add: send_can_config_response_def Let_def)

lemma send_version_query_response_frame [simp]:
  "event_socket (send_version_query_response os c v s) = event_socket s"
  "data_download_socket (send_version_query_response os c v s) = data_download_socket s"
  "data_counter (send_version_query_response os c v s) = data_counter s"
  "channel_frame_count (send_version_query_response os c v s) = channel_frame_count s"
  "can_configs (send_version_query_response os c v s) = can_configs s"
  "axican_test (send_version_query_response os c v s) = axican_test s"
  "g_tcp_buffer_total (send_version_query_response os c v s) = g_tcp_buffer_total s"
  "g_tcp_buffer_used (send_version_query_response os c v s) = g_tcp_buffer_used s"
  "g_data_buf_set (send_version_query_response os c v s) = g_data_buf_set s"
  "g_simulator_buf_set (send_version_query_response os c v s) = g_simulator_buf_set s"
  "g_pulse_buf_set (send_version_query_response os c v s) = g_pulse_buf_set s"
  "g_can_buf_set (send_version_query_response os c v s) = g_can_buf_set s"
  "g_poll_buf_set (send_version_query_response os c v s) = g_poll_buf_set s"
  "g_bcast_group_buf_set (send_version_query_response os c v s) = g_bcast_group_buf_set s"
  "g_bcast_cfg (send_version_query_response os c v s) = g_bcast_cfg s"
  "g_bcast_wake_pending (send_version_query_response os c v s) = g_bcast_wake_pending s"
  "g_bcast_group_id (send_version_query_response os c v s) = g_bcast_group_id s"
  "g_bcast_rx_gate_open (send_version_query_response os c v s) = g_bcast_rx_gate_open s"
  "g_bcast_rx_gate_until_ms (send_version_query_response os c v s) = g_bcast_rx_gate_until_ms s"
  "packet_buffers (send_version_query_response os c v s) = packet_buffers s"
  "running (send_version_query_response os c v s) = running s"
  by (simp_all add: send_version_query_response_def Let_def)

lemma send_can_transmit_response_frame [simp]:
  "event_socket (send_can_transmit_response os c ty st f s) = event_socket s"
  "data_download_socket (send_can_transmit_response os c ty st f s) = data_download_socket s"
  "data_counter (send_can_transmit_response os c ty st f s) = data_counter s"
  "can_configs (send_can_transmit_response os c ty st f s) = can_configs s"
  "axican_test (send_can_transmit_response os c ty st f s) = axican_test s"
  "g_tcp_buffer_total (send_can_transmit_response os c ty st f s) = g_tcp_buffer_total s"
  "g_tcp_buffer_used (send_can_transmit_response os c ty st f s) = g_tcp_buffer_used s"
  "g_data_buf_set (send_can_transmit_response os c ty st f s) = g_data_buf_set s"
  "g_simulator_buf_set (send_can_transmit_response os c ty st f s) = g_simulator_buf_set s"
  "g_pulse_buf_set (send_can_transmit_response os c ty st f s) = g_pulse_buf_set s"
  "g_can_buf_set (send_can_transmit_response os c ty st f s) = g_can_buf_set s"
  "g_poll_buf_set (send_can_transmit_response os c ty st f s) = g_poll_buf_set s"
  "g_bcast_group_buf_set (send_can_transmit_response os c ty st f s) = g_bcast_group_buf_set s"
  "g_bcast_cfg (send_can_transmit_response os c ty st f s) = g_bcast_cfg s"
  "g_bcast_wake_pending (send_can_transmit_response os c ty st f s) = g_bcast_wake_pending s"
  "g_bcast_group_id (send_can_transmit_response os c ty st f s) = g_bcast_group_id s"
  "g_bcast_rx_gate_open (send_can_transmit_response os c ty st f s) = g_bcast_rx_gate_open s"
  "g_bcast_rx_gate_until_ms (send_can_transmit_response os c ty st f s) = g_bcast_rx_gate_until_ms s"
  "packet_buffers (send_can_transmit_response os c ty st f s) = packet_buffers s"
  "running (send_can_transmit_response os c ty st f s) = running s"
  by (simp_all add: send_can_transmit_response_def bump_channel_count_def send_defs split: option.split)

end
