(* ===== verification/Broadcast.thy ===== *)
theory Broadcast
  imports Server_State
begin

text \<open>
  The pulse-per-second broadcast scheduler (\<^verbatim>\<open>src/main18.c\<close>): configuration by command 0x0104, the
  receive window that a pulse opens, the per-channel queues of frame groups, the choice of the
  channels that a pulse wakes and the threads that send a group per wake.

  \<open>bcast_state_mutex\<close> makes each of these operations one transaction; the scheduler is the step
  relation \<open>bcast_step\<close> between the transactions of the configuration handler, the pulse thread, the
  receiver and the six sending threads.
\<close>

section \<open>Operations\<close>

abbreviation BCAST_CAN_MASK :: u32 where "BCAST_CAN_MASK \<equiv> 0x3F"

definition next_broadcast_group_id :: "server \<Rightarrow> u32 \<times> server" where
  "next_broadcast_group_id s =
     (let s1 = s\<lparr>g_bcast_group_id := (if g_bcast_group_id s = 0xFFFFFFFF then 1 else g_bcast_group_id s + 1)\<rparr>
      in (g_bcast_group_id s1, s1))"

definition get_broadcast_store_mask :: "server \<Rightarrow> u32" where
  "get_broadcast_store_mask s =
     (let cfg = g_bcast_cfg s;
          m = (if bc_enable cfg = 1
                  then if bc_mode cfg = 1 \<or> bc_mode cfg = 2 then bc_active_mask cfg
                       else if bc_mode cfg = 3 then bc_group_a_mask cfg OR bc_group_b_mask cfg
                       else 0
                  else 0)
      in m AND BCAST_CAN_MASK)"

definition monotonic_ms :: "os \<Rightarrow> server \<Rightarrow> u64 \<times> server" where
  "monotonic_ms os s =
     (case sys_clock os s of
        (None, s1) \<Rightarrow> (0, s1)
      | (Some (sec, nsec), s1) \<Rightarrow> (sec * 1000 + nsec div 1000000, s1))"

definition set_broadcast_rx_gate :: "os \<Rightarrow> u8 \<Rightarrow> server \<Rightarrow> server" where
  "set_broadcast_rx_gate os opn s =
     (let s1 = s\<lparr>g_bcast_rx_gate_open := (if opn \<noteq> 0 then 1 else 0)\<rparr>
      in if opn \<noteq> 0
         then case monotonic_ms os s1 of (now, s2) \<Rightarrow> s2\<lparr>g_bcast_rx_gate_until_ms := now + 1000\<rparr>
         else s1\<lparr>g_bcast_rx_gate_until_ms := 0\<rparr>)"

definition is_broadcast_rx_gate_open :: "os \<Rightarrow> server \<Rightarrow> bool \<times> server" where
  "is_broadcast_rx_gate_open os s =
     (case (if g_bcast_rx_gate_open s \<noteq> 0
            then case monotonic_ms os s of (now, s1) \<Rightarrow> (now \<le> g_bcast_rx_gate_until_ms s1, s1)
            else (False, s)) of
        (opened, s1) \<Rightarrow>
          (opened, if opened then s1
                   else s1\<lparr>g_bcast_rx_gate_open := 0, g_bcast_rx_gate_until_ms := 0\<rparr>))"

definition is_broadcast_pps_window_open :: "os \<Rightarrow> u8 \<Rightarrow> server \<Rightarrow> bool \<times> server" where
  "is_broadcast_pps_window_open os ch s =
     (if unat ch \<ge> AXICAN_MAX then (False, s) else is_broadcast_rx_gate_open os s)"

definition pc_can_payload_to_axican_frame :: "PC_ARM_DATA_DATA \<Rightarrow> axican_frame" where
  "pc_can_payload_to_axican_frame src =
     zero_frame\<lparr>af_can_id := pd_idr src, af_can_dlc := pd_drcr src,
                af_data0 := reverse_4bytes (pd_dw1r src), af_data1 := reverse_4bytes (pd_dw2r src),
                af_timestamp := pd_timestamp src\<rparr>"

definition broadcast_group :: "u32 \<Rightarrow> PC_ARM_DATA_DATA list \<Rightarrow> BroadcastFrameGroup" where
  "broadcast_group gid frames =
     \<lparr>bg_group_id = gid, bg_frame_count = of_nat (length frames),
      bg_frames = map pc_can_payload_to_axican_frame frames @ replicate (128 - length frames) zero_frame\<rparr>"

definition channel_configured :: "server \<Rightarrow> u8 \<Rightarrow> bool" where
  "channel_configured s ch \<longleftrightarrow> unat ch < AXICAN_MAX \<and> dc_valid (can_configs s ! unat ch) \<noteq> 0"

definition enqueue_broadcast_group ::
    "os \<Rightarrow> u8 \<Rightarrow> PC_ARM_DATA_DATA list \<Rightarrow> server \<Rightarrow> (errno + unit) \<times> server" where
  "enqueue_broadcast_group os target_ch frames s =
     (if length frames = 0 \<or> length frames > 128
      then (Inl EINVAL, send_error os ''broadcast group size invalid'' s)
      else if \<not> channel_configured s target_ch
      then (Inl EINVAL, send_error os ''broadcast packet channel invalid'' s)
      else case is_broadcast_pps_window_open os target_ch s of
        (False, s1) \<Rightarrow> (Inl EINVAL, s1)
      | (True, s1) \<Rightarrow>
          if ringbuffer_32ch_avail (Some (g_bcast_group_buf_set s1)) target_ch 6 = 0
          then (Inl ENOMEM, s1)
          else case next_broadcast_group_id s1 of (gid, s2) \<Rightarrow>
            (case ringbuffer_32ch_put (Some (g_bcast_group_buf_set s2)) target_ch
                    (Some (bcast_group_bytes (broadcast_group gid frames))) 6 of
               (r, set') \<Rightarrow>
                 (let s3 = s2\<lparr>g_bcast_group_buf_set := the set'\<rparr>
                  in if ret_val r \<noteq> 1 then (Inl ENOMEM, s3) else (Inr (), s3))))"

definition validate_broadcast_mask :: "u32 \<Rightarrow> bool" where
  "validate_broadcast_mask m \<longleftrightarrow> m AND (NOT BCAST_CAN_MASK) = 0"

definition broadcast_buffer_available :: "u8 \<Rightarrow> server \<Rightarrow> u32" where
  "broadcast_buffer_available ch s = ringbuffer_32ch_avail (Some (g_bcast_group_buf_set s)) ch 6"

definition reset_broadcast_channel :: "nat \<Rightarrow> server \<Rightarrow> server" where
  "reset_broadcast_channel ch s =
     s\<lparr>g_bcast_group_buf_set := the (ringbuffer_32ch_reset (Some (g_bcast_group_buf_set s)) (of_nat ch) 6),
       g_bcast_wake_pending := (g_bcast_wake_pending s)[ch := 0]\<rparr>"

definition reset_broadcast_buffers :: "server \<Rightarrow> server" where
  "reset_broadcast_buffers s =
     (fold reset_broadcast_channel [0..<AXICAN_MAX] s)
       \<lparr>g_bcast_rx_gate_open := 0, g_bcast_rx_gate_until_ms := 0\<rparr>"

definition bcast_reject :: "os \<Rightarrow> string \<Rightarrow> server \<Rightarrow> server" where
  "bcast_reject os msg s = send_broadcast_config_response os 1 (send_error os msg s)"

text \<open>The checks of the handler in their order: the message of the first one that fails.\<close>

definition bcast_config_error :: "ReqPacket \<Rightarrow> string option" where
  "bcast_config_error r =
     (let param = bcast_config_of (rq_data r) in
      if bp_head param \<noteq> PC_STATUS_HEAD \<or> bp_direction param \<noteq> 0 \<or> bp_length param \<noteq> 40
      then Some ''broadcast config header invalid''
      else if bp_xor_checksum param \<noteq> calculate_xor_checksum (Some (rq_data r)) 36
      then Some ''broadcast config checksum invalid''
      else if bp_enable param \<noteq> 0 \<and> bp_enable param \<noteq> 1
      then Some ''broadcast enable invalid''
      else if bp_enable param = 1 \<and> (bp_b_mode param < 1 \<or> bp_b_mode param > 3)
      then Some ''broadcast mode invalid''
      else if \<not> validate_broadcast_mask (bp_active_mask param) \<or>
              \<not> validate_broadcast_mask (bp_group_a_mask param) \<or>
              \<not> validate_broadcast_mask (bp_group_b_mask param) \<or>
              unat (bp_start_channel param) \<ge> AXICAN_MAX \<or> bp_start_group param > 1
      then Some ''broadcast mask invalid''
      else None)"

definition cfg_of_param :: "BroadcastConfigParam \<Rightarrow> BroadcastSchedulerConfig" where
  "cfg_of_param p =
     \<lparr>bc_enable = bp_enable p, bc_mode = bp_b_mode p, bc_start_group = bp_start_group p,
      bc_current_group = bp_start_group p, bc_start_channel = bp_start_channel p,
      bc_poll_next_channel = bp_start_channel p, bc_active_mask = bp_active_mask p AND BCAST_CAN_MASK,
      bc_group_a_mask = bp_group_a_mask p AND BCAST_CAN_MASK,
      bc_group_b_mask = bp_group_b_mask p AND BCAST_CAN_MASK, bc_config_count = bp_config_count p\<rparr>"

definition handle_broadcast_config :: "os \<Rightarrow> ReqPacket option \<Rightarrow> server \<Rightarrow> server" where
  "handle_broadcast_config os req s =
     (case req of
        None \<Rightarrow> bcast_reject os ''broadcast config request invalid'' s
      | Some r \<Rightarrow>
          (case bcast_config_error r of
             Some msg \<Rightarrow> bcast_reject os msg s
           | None \<Rightarrow>
               let s1 = s\<lparr>g_bcast_cfg := cfg_of_param (bcast_config_of (rq_data r))\<rparr>
               in send_broadcast_config_response os 0 (reset_broadcast_buffers s1)))"

definition poll_channel :: "u32 \<Rightarrow> u8 \<Rightarrow> nat option" where
  "poll_channel active next =
     map_option (\<lambda>step. (unat next + step) mod AXICAN_MAX)
       (find (\<lambda>step. active AND push_bit ((unat next + step) mod AXICAN_MAX) 1 \<noteq> 0) [0..<AXICAN_MAX])"

definition select_mask :: "BroadcastSchedulerConfig \<Rightarrow> u32 \<times> BroadcastSchedulerConfig" where
  "select_mask cfg =
     (if bc_enable cfg \<noteq> 1 then (0, cfg)
      else case
        (if bc_mode cfg = 1 then (bc_active_mask cfg, cfg)
         else if bc_mode cfg = 2
         then case poll_channel (bc_active_mask cfg AND BCAST_CAN_MASK) (bc_poll_next_channel cfg) of
                None \<Rightarrow> (0, cfg)
              | Some ch \<Rightarrow> (push_bit ch 1, cfg\<lparr>bc_poll_next_channel := of_nat ((ch + 1) mod AXICAN_MAX)\<rparr>)
         else if bc_mode cfg = 3
         then if bc_current_group cfg = 0
              then (bc_group_a_mask cfg, cfg\<lparr>bc_current_group := 1\<rparr>)
              else (bc_group_b_mask cfg, cfg\<lparr>bc_current_group := 0\<rparr>)
         else (0, cfg)) of
        (m, cfg') \<Rightarrow> (m AND BCAST_CAN_MASK, cfg'))"

definition select_broadcast_mask_on_pps :: "server \<Rightarrow> u32 \<times> server" where
  "select_broadcast_mask_on_pps s =
     (case select_mask (g_bcast_cfg s) of (m, cfg') \<Rightarrow> (m, s\<lparr>g_bcast_cfg := cfg'\<rparr>))"

definition notify_channel :: "u32 \<Rightarrow> nat \<Rightarrow> server \<Rightarrow> server" where
  "notify_channel m ch s =
     (if m AND push_bit ch 1 = 0 then s
      else s\<lparr>g_bcast_wake_pending := (g_bcast_wake_pending s)[ch := g_bcast_wake_pending s ! ch + 1]\<rparr>)"

definition notify_broadcast_channels :: "u32 \<Rightarrow> server \<Rightarrow> server" where
  "notify_broadcast_channels m s = fold (notify_channel m) [0..<AXICAN_MAX] s"

definition process_broadcast_pps :: "os \<Rightarrow> server \<Rightarrow> server" where
  "process_broadcast_pps os s =
     (case select_broadcast_mask_on_pps (set_broadcast_rx_gate os 1 s) of
        (wake_mask, s1) \<Rightarrow> if wake_mask \<noteq> 0 then notify_broadcast_channels wake_mask s1 else s1)"

text \<open>The group of the caller is zeroed before the call; what the ring delivers is read into it.\<close>

definition take_broadcast_group ::
    "u8 \<Rightarrow> server \<Rightarrow> u32 \<times> BroadcastFrameGroup option \<times> server" where
  "take_broadcast_group can_id s =
     (if unat can_id \<ge> AXICAN_MAX then (0, None, s)
      else if g_bcast_wake_pending s ! unat can_id \<noteq> 0
      then let s1 = s\<lparr>g_bcast_wake_pending :=
                       (g_bcast_wake_pending s)[unat can_id := g_bcast_wake_pending s ! unat can_id - 1]\<rparr>
           in if dc_state (can_configs s1 ! unat can_id) = CAN_STATE_OPENED
              then case ringbuffer_32ch_get (Some (g_bcast_group_buf_set s1)) can_id
                          (Some (replicate 3080 0)) 6 of
                     (r, set', buf) \<Rightarrow>
                       (ret_val r, map_option bcast_group_of buf, s1\<lparr>g_bcast_group_buf_set := the set'\<rparr>)
              else (0, None, s1)
      else (0, None, s))"

definition sys_write :: "os \<Rightarrow> int \<Rightarrow> byte list \<Rightarrow> server \<Rightarrow> int \<times> server" where
  "sys_write os fd bytes s =
     (os_write os (sys_calls s),
      s\<lparr>sys_calls := Suc (sys_calls s), sys_trace := sys_trace s @ [Written fd bytes]\<rparr>)"

fun write_frames :: "os \<Rightarrow> int \<Rightarrow> axican_frame list \<Rightarrow> server \<Rightarrow> (errno + unit) \<times> server" where
  "write_frames os fd [] s = (Inr (), s)"
| "write_frames os fd (f # fs) s =
     (case sys_write os fd (axican_frame_bytes f) s of (rc, s1) \<Rightarrow>
        if rc \<noteq> 24 then (Inl EIO, send_error os ''broadcast CAN send failed'' s1)
        else write_frames os fd fs s1)"

definition send_broadcast_group_for_channel ::
    "os \<Rightarrow> u8 \<Rightarrow> BroadcastFrameGroup option \<Rightarrow> server \<Rightarrow> (errno + unit) \<times> server" where
  "send_broadcast_group_for_channel os can_id grp s =
     (case grp of
        None \<Rightarrow> (Inl EINVAL, s)
      | Some g \<Rightarrow>
          if unat can_id \<ge> AXICAN_MAX then (Inl EINVAL, s)
          else if dc_state (can_configs s ! unat can_id) \<noteq> CAN_STATE_OPENED then (Inl EINVAL, s)
          else write_frames os (ax_wr_fd (axican_test s ! unat can_id))
                 (take (unat (bg_frame_count g)) (bg_frames g)) s)"

text \<open>One round of a sending thread, once it has seen a pending wake.\<close>

definition broadcast_can_send_round :: "os \<Rightarrow> u8 \<Rightarrow> server \<Rightarrow> server" where
  "broadcast_can_send_round os can_id s =
     (case take_broadcast_group can_id s of
        (get_ret, grp, s1) \<Rightarrow>
          if get_ret \<noteq> 1 then s1 else snd (send_broadcast_group_for_channel os can_id grp s1))"

section \<open>Invariant\<close>

definition cfg_ok :: "BroadcastSchedulerConfig \<Rightarrow> bool" where
  "cfg_ok c \<longleftrightarrow> unat (bc_poll_next_channel c) < AXICAN_MAX \<and> bc_current_group c \<le> 1 \<and>
     bc_active_mask c AND BCAST_CAN_MASK = bc_active_mask c \<and>
     bc_group_a_mask c AND BCAST_CAN_MASK = bc_group_a_mask c \<and>
     bc_group_b_mask c AND BCAST_CAN_MASK = bc_group_b_mask c"

definition group_ok :: "BroadcastFrameGroup \<Rightarrow> bool" where
  "group_ok g \<longleftrightarrow> bg_group_id g \<noteq> 0 \<and> 0 < bg_frame_count g \<and> bg_frame_count g \<le> 128 \<and>
     length (bg_frames g) = 128"

text \<open>The groups that wait on a channel, oldest first.\<close>

definition bcast_queue :: "server \<Rightarrow> u8 \<Rightarrow> BroadcastFrameGroup list" where
  "bcast_queue s ch = map bcast_group_of (ch_view ch 6 (g_bcast_group_buf_set s))"

definition bcast_inv :: "server \<Rightarrow> bool" where
  "bcast_inv s \<longleftrightarrow> set_inv (g_bcast_group_buf_set s) \<and> elem_size (g_bcast_group_buf_set s) = 3080 \<and>
     length (g_bcast_wake_pending s) = AXICAN_MAX \<and> length (can_configs s) = AXICAN_MAX \<and>
     cfg_ok (g_bcast_cfg s) \<and> (\<forall>ch. \<forall>g \<in> set (bcast_queue s ch). group_ok g)"

lemma bcast_invD:
  assumes "bcast_inv s"
  shows "set_inv (g_bcast_group_buf_set s)" "elem_size (g_bcast_group_buf_set s) = 3080"
    "length (g_bcast_wake_pending s) = 6" "length (can_configs s) = 6" "cfg_ok (g_bcast_cfg s)"
    "g \<in> set (bcast_queue s ch) \<Longrightarrow> group_ok g"
  using assms by (auto simp: bcast_inv_def)

text \<open>Two states that agree on what the scheduler owns.\<close>

definition bcast_same :: "server \<Rightarrow> server \<Rightarrow> bool" where
  "bcast_same s t \<longleftrightarrow> g_bcast_group_buf_set t = g_bcast_group_buf_set s \<and>
     g_bcast_wake_pending t = g_bcast_wake_pending s \<and> can_configs t = can_configs s \<and>
     g_bcast_cfg t = g_bcast_cfg s \<and> g_bcast_group_id t = g_bcast_group_id s"

lemma bcast_same_inv: "bcast_same s t \<Longrightarrow> bcast_inv t = bcast_inv s"
  by (simp add: bcast_same_def bcast_inv_def bcast_queue_def)

lemma bcast_same_queue: "bcast_same s t \<Longrightarrow> bcast_queue t = bcast_queue s"
  by (simp add: bcast_same_def bcast_queue_def fun_eq_iff)

lemma monotonic_ms_frame:
  assumes "monotonic_ms os s = (t, s')"
  shows "s' = s\<lparr>sys_calls := Suc (sys_calls s)\<rparr>"
  using assms by (auto simp: monotonic_ms_def sys_clock_def split: option.splits prod.splits)

lemma gate_query_same:
  assumes "is_broadcast_rx_gate_open os s = (b, s')"
  shows "bcast_same s s' \<and> axican_test s' = axican_test s \<and> (b \<longrightarrow> g_bcast_rx_gate_open s \<noteq> 0) \<and>
    (\<not> b \<longrightarrow> g_bcast_rx_gate_open s' = 0) \<and> (b \<longrightarrow> g_bcast_rx_gate_open s' = g_bcast_rx_gate_open s)"
  using assms
  by (auto simp: is_broadcast_rx_gate_open_def bcast_same_def split: if_splits prod.splits
      dest!: monotonic_ms_frame)

lemma send_event_same [simp]: "bcast_same s (send_event os l e m s)"
  by (simp add: bcast_same_def)

lemma bcast_reject_same [simp]: "bcast_same s (bcast_reject os m s)"
  by (simp add: bcast_same_def bcast_reject_def)

section \<open>The group number is never zero\<close>

lemma next_group_id_nonzero:
  "next_broadcast_group_id s = (g, s') \<Longrightarrow> g \<noteq> 0 \<and> s' = s\<lparr>g_bcast_group_id := g\<rparr>"
proof -
  have "w + 1 = 0 \<longleftrightarrow> w = 0xFFFFFFFF" for w :: u32
  proof -
    have "(- 1 :: u32) = 0xFFFFFFFF" by simp
    then show ?thesis using eq_neg_iff_add_eq_0[of w 1] by metis
  qed
  then show "next_broadcast_group_id s = (g, s') \<Longrightarrow> g \<noteq> 0 \<and> s' = s\<lparr>g_bcast_group_id := g\<rparr>"
    by (auto simp: next_broadcast_group_id_def Let_def split: if_splits)
qed

lemma broadcast_group_ok:
  assumes "gid \<noteq> 0" "frames \<noteq> []" "length frames \<le> 128"
  shows "group_ok (broadcast_group gid frames)"
proof -
  have "unat (of_nat (length frames) :: u16) = length frames"
    using assms(3) by (simp add: unat_of_nat)
  then show ?thesis
    using assms by (auto simp: group_ok_def broadcast_group_def word_less_nat_alt word_le_nat_alt)
qed

section \<open>Enqueueing a group\<close>

lemma bcast_queue_push:
  assumes "bcast_inv s" "ch_ok (g_bcast_group_buf_set s) ch 6"
    "length (ch_contents (g_bcast_group_buf_set s) ch) < ch_capacity (g_bcast_group_buf_set s) ch"
    "length (bg_frames g) = 128"
  shows "bcast_queue (s\<lparr>g_bcast_group_buf_set := set_push (g_bcast_group_buf_set s) ch (bcast_group_bytes g)\<rparr>) c
    = bcast_queue s c @ (if c = ch then [g] else [])"
  using assms set_push_laws[OF bcast_invD(1)[OF assms(1)] assms(2,3), of "bcast_group_bytes g"] bcast_invD(2)[OF assms(1)]
  by (auto simp: bcast_queue_def ch_view_def)

lemma enqueue_result:
  assumes inv: "bcast_inv s" and "enqueue_broadcast_group os ch frames s = (r, s')"
  obtains (refused) e where "r = Inl e" "bcast_same s s'" 
    | (queued) gid where "r = Inr ()" "gid \<noteq> 0" "frames \<noteq> []" "length frames \<le> 128" "unat ch < 6"
        "g_bcast_rx_gate_open s \<noteq> 0" "g_bcast_group_id s' = gid"
        "\<And>c. bcast_queue s' c = bcast_queue s c @ (if c = ch then [broadcast_group gid frames] else [])"
        "set_inv (g_bcast_group_buf_set s')" "elem_size (g_bcast_group_buf_set s') = 3080"
        "g_bcast_wake_pending s' = g_bcast_wake_pending s" "can_configs s' = can_configs s"
        "g_bcast_cfg s' = g_bcast_cfg s"
proof (cases "frames \<noteq> [] \<and> length frames \<le> 128 \<and> channel_configured s ch")
  case False
  then show ?thesis
    using assms(2) refused by (auto simp: enqueue_broadcast_group_def not_le split: if_splits)
next
  case True
  then have ch: "unat ch < 6" by (simp add: channel_configured_def)
  obtain b s1 where w: "is_broadcast_rx_gate_open os s = (b, s1)" by fastforce
  note same = gate_query_same[OF w]
  then have inv1: "bcast_inv s1" using inv bcast_same_inv by blast
  let ?G = "g_bcast_group_buf_set s1"
  note inv1' = bcast_invD[OF inv1]
  show ?thesis
  proof (cases "b \<and> ringbuffer_32ch_avail (Some ?G) ch 6 \<noteq> 0")
    case False
    then show ?thesis
      using assms(2) True refused same ch w
      by (auto simp: enqueue_broadcast_group_def is_broadcast_pps_window_open_def split: if_splits bool.splits)
  next
    case room: True
    then have "unat (ringbuffer_32ch_avail (Some ?G) ch 6) \<noteq> 0" by (simp add: unat_eq_0)
    then have ok: "ch_ok ?G ch 6" "length (ch_contents ?G ch) < ch_capacity ?G ch"
      using ch32_avail[OF inv1'(1), of ch 6] by (auto split: if_splits)
    obtain gid s2 where g: "next_broadcast_group_id s1 = (gid, s2)" by fastforce
    let ?g = "broadcast_group gid frames"
    have l128: "length (bg_frames ?g) = 128" using True by (simp add: broadcast_group_def)
    have res: "r = Inr ()"
      "s' = s1\<lparr>g_bcast_group_id := gid, g_bcast_group_buf_set := set_push ?G ch (bcast_group_bytes ?g)\<rparr>"
      using assms(2) True room ok ch w next_group_id_nonzero[OF g] ch32_put_cases[OF inv1'(1)]
      by (auto simp: enqueue_broadcast_group_def is_broadcast_pps_window_open_def g ret_val_def Let_def not_le)
    have q: "bcast_queue s' c = bcast_queue s c @ (if c = ch then [?g] else [])" for c
      using bcast_queue_push[OF inv1 ok l128, of c] bcast_same_queue[of s s1] same
      by (simp add: res(2) bcast_queue_def)
    have "set_inv (g_bcast_group_buf_set s')" "elem_size (g_bcast_group_buf_set s') = 3080"
      using set_push_laws(1)[OF inv1'(1) ok, of "bcast_group_bytes ?g"] l128 inv1'(2)
        set_push_laws(5)[OF inv1'(1) ok, of "bcast_group_bytes ?g"]
      by (simp_all add: res(2))
    then show ?thesis
      using True ch room same next_group_id_nonzero[OF g] res q
      by (intro queued[of gid]) (simp_all add: bcast_same_def)
  qed
qed

lemma enqueue_inv:
  assumes "bcast_inv s" "enqueue_broadcast_group os ch frames s = (r, s')"
  shows "bcast_inv s'"
  using assms
proof (cases rule: enqueue_result)
  case (refused e)
  then show ?thesis using assms(1) bcast_same_inv by blast
next
  case (queued gid)
  then show ?thesis
    using bcast_invD[OF assms(1)] broadcast_group_ok[of gid frames] by (auto simp: bcast_inv_def)
qed

section \<open>Configuration and reset\<close>

lemma reset_channel_laws:
  assumes "set_inv (g_bcast_group_buf_set s)" "c < 6"
  shows "set_inv (g_bcast_group_buf_set (reset_broadcast_channel c s)) \<and>
    elem_size (g_bcast_group_buf_set (reset_broadcast_channel c s)) = elem_size (g_bcast_group_buf_set s) \<and>
    bcast_queue (reset_broadcast_channel c s) ch = (if ch = of_nat c then [] else bcast_queue s ch) \<and>
    g_bcast_wake_pending (reset_broadcast_channel c s) = (g_bcast_wake_pending s)[c := 0] \<and>
    can_configs (reset_broadcast_channel c s) = can_configs s \<and>
    g_bcast_cfg (reset_broadcast_channel c s) = g_bcast_cfg s"
proof -
  obtain t where t: "ringbuffer_32ch_reset (Some (g_bcast_group_buf_set s)) (of_nat c) 6 = Some t"
    by (cases "ringbuffer_32ch_reset (Some (g_bcast_group_buf_set s)) (of_nat c) 6")
      (auto simp: ringbuffer_32ch_reset_def split: if_splits)
  show ?thesis
    using ch32_reset_laws[OF assms(1) t]
    by (auto simp: reset_broadcast_channel_def t bcast_queue_def ch_view_def)
qed

lemma reset_fold_laws:
  assumes "set_inv (g_bcast_group_buf_set s)" "set cs \<subseteq> {..<6}"
  shows "set_inv (g_bcast_group_buf_set (fold reset_broadcast_channel cs s)) \<and>
    elem_size (g_bcast_group_buf_set (fold reset_broadcast_channel cs s)) = elem_size (g_bcast_group_buf_set s) \<and>
    bcast_queue (fold reset_broadcast_channel cs s) ch = (if ch \<in> of_nat ` set cs then [] else bcast_queue s ch) \<and>
    g_bcast_wake_pending (fold reset_broadcast_channel cs s) = fold (\<lambda>c p. p[c := 0]) cs (g_bcast_wake_pending s) \<and>
    can_configs (fold reset_broadcast_channel cs s) = can_configs s \<and>
    g_bcast_cfg (fold reset_broadcast_channel cs s) = g_bcast_cfg s"
  using assms
proof (induction cs arbitrary: s)
  case (Cons c cs)
  then show ?case using reset_channel_laws[of s c] by auto
qed simp

lemma bcast_queue_invalid:
  assumes "6 \<le> ch" shows "bcast_queue s ch = []"
  using assms by (simp add: bcast_queue_def ch_view_def ch_ok_def ringbuffer_channel_valid_def leD
      split: option.split)

lemma reset_broadcast_laws:
  assumes "set_inv (g_bcast_group_buf_set s)" "length (g_bcast_wake_pending s) = 6"
  shows "set_inv (g_bcast_group_buf_set (reset_broadcast_buffers s)) \<and>
    elem_size (g_bcast_group_buf_set (reset_broadcast_buffers s)) = elem_size (g_bcast_group_buf_set s) \<and>
    bcast_queue (reset_broadcast_buffers s) ch = [] \<and>
    g_bcast_wake_pending (reset_broadcast_buffers s) = replicate 6 0 \<and>
    g_bcast_rx_gate_open (reset_broadcast_buffers s) = 0 \<and>
    can_configs (reset_broadcast_buffers s) = can_configs s \<and>
    g_bcast_cfg (reset_broadcast_buffers s) = g_bcast_cfg s"
proof -
  let ?t = "fold reset_broadcast_channel [0..<6] s"
  have sub: "set [0..<6] \<subseteq> {..<6}" by auto
  note laws = reset_fold_laws[OF assms(1) sub, of ch]
  have q: "bcast_queue (reset_broadcast_buffers s) ch = bcast_queue ?t ch"
    by (simp add: reset_broadcast_buffers_def bcast_queue_def)
  have "bcast_queue ?t ch = []"
  proof (cases "unat ch < 6")
    case True
    then have "ch \<in> of_nat ` set [0..<6]" by (intro image_eqI[of _ _ "unat ch"]) simp_all
    then show ?thesis using laws by simp
  next
    case False
    then show ?thesis by (intro bcast_queue_invalid) (simp add: word_le_nat_alt)
  qed
  moreover have "fold (\<lambda>c p. p[c := 0]) [0..<6] (g_bcast_wake_pending s) = replicate 6 0"
    using assms(2) by (auto simp: length_Suc_conv numeral_eq_Suc upt_rec)
  ultimately show ?thesis
    using laws q by (simp add: reset_broadcast_buffers_def)
qed

definition bcast_config_ok :: "ReqPacket option \<Rightarrow> bool" where
  "bcast_config_ok req = (case req of None \<Rightarrow> False | Some r \<Rightarrow> bcast_config_error r = None)"

lemma handle_config_reject:
  "\<not> bcast_config_ok req \<Longrightarrow> \<exists>msg. handle_broadcast_config os req s = bcast_reject os msg s"
  by (auto simp: handle_broadcast_config_def bcast_config_ok_def split: option.splits)

lemma handle_config_rejected:
  "\<not> bcast_config_ok req \<Longrightarrow> bcast_same s (handle_broadcast_config os req s)"
  using handle_config_reject[of req os s] by auto

lemma handle_config_accepted:
  assumes "bcast_config_ok (Some r)"
  shows "handle_broadcast_config os (Some r) s =
    send_broadcast_config_response os 0
      (reset_broadcast_buffers (s\<lparr>g_bcast_cfg := cfg_of_param (bcast_config_of (rq_data r))\<rparr>))"
  using assms by (simp add: handle_broadcast_config_def bcast_config_ok_def)

lemma accepted_cfg_ok: "bcast_config_ok (Some r) \<Longrightarrow> cfg_ok (cfg_of_param (bcast_config_of (rq_data r)))"
  by (auto simp: bcast_config_ok_def bcast_config_error_def cfg_ok_def cfg_of_param_def Let_def
      and.assoc not_le not_less split: if_splits)

lemma handle_config_laws:
  assumes inv: "bcast_inv s" and ok: "bcast_config_ok (Some r)"
    and s': "s' = handle_broadcast_config os (Some r) s"
  shows "bcast_inv s' \<and> bcast_queue s' ch = [] \<and> g_bcast_wake_pending s' = replicate 6 0 \<and>
    g_bcast_rx_gate_open s' = 0 \<and> g_bcast_cfg s' = cfg_of_param (bcast_config_of (rq_data r)) \<and>
    can_configs s' = can_configs s"
proof -
  let ?s1 = "s\<lparr>g_bcast_cfg := cfg_of_param (bcast_config_of (rq_data r))\<rparr>"
  note pre = bcast_invD[OF inv]
  have laws: "set_inv (g_bcast_group_buf_set s') \<and> elem_size (g_bcast_group_buf_set s') = 3080 \<and>
    bcast_queue s' c = [] \<and> g_bcast_wake_pending s' = replicate 6 0 \<and> g_bcast_rx_gate_open s' = 0 \<and>
    can_configs s' = can_configs s \<and> g_bcast_cfg s' = cfg_of_param (bcast_config_of (rq_data r))" for c
    using reset_broadcast_laws[of ?s1 c] pre
    by (simp add: s' handle_config_accepted[OF ok] bcast_queue_def)
  have "cfg_ok (cfg_of_param (bcast_config_of (rq_data r)))"
    by (rule accepted_cfg_ok[OF ok])
  then show ?thesis using laws pre(4) by (auto simp: bcast_inv_def)
qed

section \<open>Choosing the channels of a pulse\<close>

lemma and_push_bit_iff: "(m AND push_bit k 1 = 0) \<longleftrightarrow> \<not> bit (m :: u32) k"
  by (simp add: and_exp_eq_0_iff_not_bit)

lemma mask6_bit: "bit (m AND BCAST_CAN_MASK) k \<longleftrightarrow> bit m k \<and> k < 6"
proof -
  have m: "(BCAST_CAN_MASK :: u32) = mask 6" by (simp add: mask_eq_exp_minus_1)
  show ?thesis unfolding m by (simp only: bit_and_iff bit_mask_iff possible_bit_word) auto
qed

text \<open>The distance, going round the six channels, from \<open>a\<close> to \<open>c\<close>.\<close>

definition ring_dist :: "nat \<Rightarrow> nat \<Rightarrow> nat" where
  "ring_dist a c = (if a mod 6 \<le> c then c - a mod 6 else c + 6 - a mod 6)"

lemma ring_dist_bound: "c < 6 \<Longrightarrow> ring_dist a c < 6"
  by (auto simp: ring_dist_def)

lemma ring_dist_target: "c < 6 \<Longrightarrow> (a + ring_dist a c) mod 6 = c"
proof -
  assume c: "c < 6"
  have r: "a mod 6 < 6" by simp
  have "(a + ring_dist a c) mod 6 = (a mod 6 + ring_dist a c) mod 6" by (simp add: mod_add_left_eq)
  also have "\<dots> = c" using c r by (auto simp: ring_dist_def simp del: mod_less_divisor)
  finally show ?thesis .
qed

lemma ring_dist_unique:
  assumes "k < 6" shows "ring_dist a ((a + k) mod 6) = k"
proof -
  define r where "r = a mod 6"
  have r: "r < 6" by (simp add: r_def)
  have "(a + k) mod 6 = (r + k) mod 6" by (simp add: r_def mod_add_left_eq)
  also have "\<dots> = (if r + k < 6 then r + k else r + k - 6)" using r assms by (simp add: mod_if)
  finally have e: "(a + k) mod 6 = (if r + k < 6 then r + k else r + k - 6)" .
  show ?thesis
    unfolding ring_dist_def e r_def[symmetric] using assms r by (cases "r + k < 6") simp_all
qed

lemma ring_dist_step:
  assumes "c < 6" "k < ring_dist a c"
  shows "ring_dist (((a + k) mod 6 + 1) mod 6) c = ring_dist a c - Suc k"
proof -
  let ?b = "a + k + 1"
  have b: "((a + k) mod 6 + 1) mod 6 = ?b mod 6" by (simp add: mod_Suc_eq)
  have d: "ring_dist a c - Suc k < 6" using ring_dist_bound[OF assms(1), of a] by simp
  have "(?b + (ring_dist a c - Suc k)) mod 6 = c"
    using ring_dist_target[OF assms(1), of a] assms(2) by (simp add: add.commute)
  then have "ring_dist ?b c = ring_dist a c - Suc k" using ring_dist_unique[OF d, of ?b] by simp
  moreover have "ring_dist (?b mod 6) c = ring_dist ?b c" by (simp only: ring_dist_def mod_mod_trivial)
  ultimately show ?thesis unfolding b by simp
qed

text \<open>Polling picks the active channel that comes first from the next channel onwards.\<close>

lemma poll_channel_None: "poll_channel m next = None \<Longrightarrow> c < 6 \<Longrightarrow> \<not> bit m c"
  using ring_dist_target[of c "unat next"] ring_dist_bound[of c "unat next"]
  by (auto simp: poll_channel_def find_None_iff and_exp_eq_0_iff_not_bit)

lemma poll_channel_Some:
  assumes "poll_channel m next = Some c"
  shows "c < 6 \<and> bit m c \<and> (\<forall>c' < 6. bit m c' \<longrightarrow> ring_dist (unat next) c \<le> ring_dist (unat next) c')"
proof -
  obtain k where k: "k < 6" "bit m ((unat next + k) mod 6)" "c = (unat next + k) mod 6"
      "\<And>j. j < k \<Longrightarrow> \<not> bit m ((unat next + j) mod 6)"
    using assms by (auto simp: poll_channel_def find_Some_iff and_exp_eq_0_iff_not_bit)
  have "ring_dist (unat next) c = k" using ring_dist_unique[OF k(1)] k(3) by simp
  moreover have "k \<le> ring_dist (unat next) c'" if "c' < 6" "bit m c'" for c'
    using k(4)[of "ring_dist (unat next) c'"] ring_dist_target[OF that(1), of "unat next"] that(2)
    by (metis not_le)
  ultimately show ?thesis using k(2,3) by auto
qed

lemma of_nat_mod6: "unat (of_nat (n mod 6) :: u8) = n mod 6"
proof -
  have "n mod 6 < 2 ^ 8" by (rule less_trans[of _ 6]) simp_all
  then show ?thesis by (simp add: unat_of_nat)
qed

lemma select_mask_laws:
  assumes "select_mask c = (m, c')"
  shows "m AND BCAST_CAN_MASK = m" and "cfg_ok c \<Longrightarrow> cfg_ok c'"
    and "bc_enable c' = bc_enable c \<and> bc_mode c' = bc_mode c \<and> bc_active_mask c' = bc_active_mask c \<and>
      bc_group_a_mask c' = bc_group_a_mask c \<and> bc_group_b_mask c' = bc_group_b_mask c"
proof -
  show "m AND BCAST_CAN_MASK = m"
    using assms by (auto simp: select_mask_def and.assoc split: if_splits prod.splits)
  have "unat (of_nat (Suc k mod 6) :: u8) < 6" for k using of_nat_mod6[of "Suc k"] by simp
  then show "cfg_ok c \<Longrightarrow> cfg_ok c'"
    using assms by (auto simp: select_mask_def cfg_ok_def split: if_splits prod.splits option.splits)
  show "bc_enable c' = bc_enable c \<and> bc_mode c' = bc_mode c \<and> bc_active_mask c' = bc_active_mask c \<and>
      bc_group_a_mask c' = bc_group_a_mask c \<and> bc_group_b_mask c' = bc_group_b_mask c"
    using assms by (auto simp: select_mask_def split: if_splits prod.splits option.splits)
qed

definition wake_incr :: "u32 \<Rightarrow> nat \<Rightarrow> u32 list \<Rightarrow> u32 list" where
  "wake_incr m c p = (if bit m c then p[c := p ! c + 1] else p)"

lemma notify_fold: "fold (notify_channel m) cs s = s\<lparr>g_bcast_wake_pending := fold (wake_incr m) cs (g_bcast_wake_pending s)\<rparr>"
  by (induction cs arbitrary: s) (simp_all add: notify_channel_def wake_incr_def and_exp_eq_0_iff_not_bit)

lemma wake_incr_fold:
  assumes "distinct cs" "\<forall>c \<in> set cs. c < length p"
  shows "length (fold (wake_incr m) cs p) = length p \<and>
    fold (wake_incr m) cs p ! c = p ! c + (if c \<in> set cs \<and> bit m c then 1 else 0)"
  using assms
proof (induction cs arbitrary: p)
  case (Cons d cs)
  then show ?case using Cons.IH[of "wake_incr m d p"] by (auto simp: wake_incr_def nth_list_update)
qed simp

lemma notify_laws:
  assumes "length (g_bcast_wake_pending s) = 6"
  shows "notify_broadcast_channels m s = s\<lparr>g_bcast_wake_pending := fold (wake_incr m) [0..<6] (g_bcast_wake_pending s)\<rparr>"
    and "length (fold (wake_incr m) [0..<6] (g_bcast_wake_pending s)) = 6"
    and "c < 6 \<Longrightarrow> fold (wake_incr m) [0..<6] (g_bcast_wake_pending s) ! c
      = g_bcast_wake_pending s ! c + (if bit m c then 1 else 0)"
  using wake_incr_fold[of "[0..<6]" "g_bcast_wake_pending s" m] assms
  by (simp_all add: notify_broadcast_channels_def notify_fold)

lemma gate_set_frame:
  "set_broadcast_rx_gate os 1 s =
     s\<lparr>sys_calls := Suc (sys_calls s), g_bcast_rx_gate_open := 1,
       g_bcast_rx_gate_until_ms := fst (monotonic_ms os s) + 1000\<rparr>"
  by (auto simp: set_broadcast_rx_gate_def Let_def monotonic_ms_def sys_clock_def split: option.split prod.split)

lemma pps_laws:
  assumes inv: "bcast_inv s" and s': "s' = process_broadcast_pps os s"
    and sel: "select_mask (g_bcast_cfg s) = (m, c')"
  shows "bcast_inv s'" "bcast_queue s' = bcast_queue s" "can_configs s' = can_configs s"
    "g_bcast_cfg s' = c'" "g_bcast_rx_gate_open s' = 1"
    "g_bcast_rx_gate_until_ms s' = fst (monotonic_ms os s) + 1000"
    "c < 6 \<Longrightarrow> g_bcast_wake_pending s' ! c = g_bcast_wake_pending s ! c + (if bit m c then 1 else 0)"
proof -
  note pre = bcast_invD[OF inv]
  let ?s1 = "s\<lparr>sys_calls := Suc (sys_calls s), g_bcast_rx_gate_open := 1,
       g_bcast_rx_gate_until_ms := fst (monotonic_ms os s) + 1000, g_bcast_cfg := c'\<rparr>"
  have e: "s' = (if m \<noteq> 0 then notify_broadcast_channels m ?s1 else ?s1)"
    by (simp add: s' process_broadcast_pps_def gate_set_frame select_broadcast_mask_on_pps_def sel)
  note n = notify_laws[where s = ?s1 and m = m, simplified, OF pre(3)]
  show q: "bcast_queue s' = bcast_queue s" and cc: "can_configs s' = can_configs s"
    and cf: "g_bcast_cfg s' = c'" and "g_bcast_rx_gate_open s' = 1"
    and "g_bcast_rx_gate_until_ms s' = fst (monotonic_ms os s) + 1000"
    by (simp_all add: e n(1) bcast_queue_def fun_eq_iff)
  show "c < 6 \<Longrightarrow> g_bcast_wake_pending s' ! c = g_bcast_wake_pending s ! c + (if bit m c then 1 else 0)"
    using n(3)[of c] by (simp add: e n(1))
  have "length (g_bcast_wake_pending s') = 6" "g_bcast_group_buf_set s' = g_bcast_group_buf_set s"
    using n(2) pre(3) by (simp_all add: e n(1))
  then show "bcast_inv s'"
    using inv q cc cf select_mask_laws(2)[OF sel pre(5)] by (simp add: bcast_inv_def)
qed

section \<open>Taking a group\<close>

lemma take_laws:
  assumes inv: "bcast_inv s" and t: "take_broadcast_group ch s = (n, g, s')"
  shows "bcast_inv s' \<and> can_configs s' = can_configs s \<and> g_bcast_cfg s' = g_bcast_cfg s \<and>
    g_bcast_rx_gate_open s' = g_bcast_rx_gate_open s \<and> g_bcast_group_id s' = g_bcast_group_id s \<and>
    (if unat ch < 6 \<and> g_bcast_wake_pending s ! unat ch \<noteq> 0
     then g_bcast_wake_pending s' = (g_bcast_wake_pending s)[unat ch := g_bcast_wake_pending s ! unat ch - 1]
     else g_bcast_wake_pending s' = g_bcast_wake_pending s) \<and>
    (if unat ch < 6 \<and> g_bcast_wake_pending s ! unat ch \<noteq> 0 \<and>
        dc_state (can_configs s ! unat ch) = CAN_STATE_OPENED \<and> bcast_queue s ch \<noteq> []
     then n = 1 \<and> g = Some (hd (bcast_queue s ch)) \<and>
       (\<forall>c. bcast_queue s' c = (if c = ch then tl (bcast_queue s ch) else bcast_queue s c))
     else n = 0 \<and> bcast_queue s' = bcast_queue s)"
proof (cases "unat ch < 6 \<and> g_bcast_wake_pending s ! unat ch \<noteq> 0 \<and>
    dc_state (can_configs s ! unat ch) = CAN_STATE_OPENED")
  case False
  then show ?thesis
    using inv t by (auto simp: take_broadcast_group_def bcast_inv_def bcast_queue_def Let_def split: if_splits)
next
  case True
  note pre = bcast_invD[OF inv]
  let ?G = "g_bcast_group_buf_set s"
  let ?p = "(g_bcast_wake_pending s)[unat ch := g_bcast_wake_pending s ! unat ch - 1]"
  show ?thesis
  proof (cases "ch_view ch 6 ?G = []")
    case empty: True
    then have "s' = s\<lparr>g_bcast_wake_pending := ?p\<rparr>" "n = 0"
      using t True pre
      by (auto simp: take_broadcast_group_def ch32_get_cases ch_view_def ret_val_def Let_def split: if_splits)
    then show ?thesis
      using True inv empty by (auto simp: bcast_inv_def bcast_queue_def)
  next
    case nonempty: False
    then have ok: "ch_ok ?G ch 6" "ch_contents ?G ch \<noteq> []" by (auto simp: ch_view_def split: if_splits)
    have r: "s' = s\<lparr>g_bcast_wake_pending := ?p, g_bcast_group_buf_set := set_pop ?G ch\<rparr>" "n = 1"
        "g = Some (bcast_group_of (hd (ch_contents ?G ch)))"
      using t True ok pre by (auto simp: take_broadcast_group_def ch32_get_cases ret_val_def Let_def)
    note pop = set_pop_laws[OF pre(1) ok]
    have q: "bcast_queue s' c = (if c = ch then tl (bcast_queue s ch) else bcast_queue s c)" for c
      using pop(2,4) ok(1) by (auto simp: r(1) bcast_queue_def ch_view_def map_tl)
    moreover have "set (tl (bcast_queue s ch)) \<subseteq> set (bcast_queue s ch)"
      by (cases "bcast_queue s ch") auto
    ultimately have "bcast_inv s'"
      using inv pop(1,5) by (auto simp: bcast_inv_def r(1) split: if_splits)
    then show ?thesis
      using True nonempty ok r q by (auto simp: bcast_queue_def ch_view_def hd_map)
  qed
qed

section \<open>The scheduler as a transition system\<close>

text \<open>
  A transition is one transaction of one thread.  \<open>Elsewhere\<close> is a step of another part of the
  program: it may open, close or configure channels, but leaves what the scheduler owns alone.
\<close>

datatype bcast_act =
    Configure "ReqPacket option"
  | Pulse
  | Enqueue u8 "PC_ARM_DATA_DATA list" "BroadcastFrameGroup option"
  | TakeGroup u8 "BroadcastFrameGroup option"
  | Elsewhere

inductive bcast_step :: "os \<Rightarrow> server \<Rightarrow> bcast_act \<Rightarrow> server \<Rightarrow> bool" for os where
  configure: "bcast_step os s (Configure req) (handle_broadcast_config os req s)"
| pulse: "bcast_step os s Pulse (process_broadcast_pps os s)"
| enqueued: "enqueue_broadcast_group os ch frames s = (Inr (), t) \<Longrightarrow>
    bcast_step os s (Enqueue ch frames (Some (broadcast_group (g_bcast_group_id t) frames))) t"
| refused: "enqueue_broadcast_group os ch frames s = (Inl e, t) \<Longrightarrow> bcast_step os s (Enqueue ch frames None) t"
| taken: "take_broadcast_group ch s = (1, g, t) \<Longrightarrow> bcast_step os s (TakeGroup ch g) t"
| untaken: "take_broadcast_group ch s = (n, g, t) \<Longrightarrow> n \<noteq> 1 \<Longrightarrow> bcast_step os s (TakeGroup ch None) t"
| elsewhere: "bcast_same (s\<lparr>can_configs := can_configs t\<rparr>) t \<Longrightarrow> length (can_configs t) = length (can_configs s) \<Longrightarrow>
    g_bcast_rx_gate_open t = g_bcast_rx_gate_open s \<Longrightarrow>
    g_bcast_rx_gate_until_ms t = g_bcast_rx_gate_until_ms s \<Longrightarrow> bcast_step os s Elsewhere t"

inductive bcast_steps :: "os \<Rightarrow> server \<Rightarrow> bcast_act list \<Rightarrow> server \<Rightarrow> bool" for os where
  none: "bcast_steps os s [] s"
| more: "bcast_step os s a t \<Longrightarrow> bcast_steps os t as u \<Longrightarrow> bcast_steps os s (a # as) u"

inductive_cases bcast_stepE:
  "bcast_step os s (Configure req) t" "bcast_step os s Pulse t" "bcast_step os s (Enqueue ch fs g) t"
  "bcast_step os s (TakeGroup ch g) t" "bcast_step os s Elsewhere t"

lemma elsewhere_laws:
  assumes "bcast_same (s\<lparr>can_configs := can_configs t\<rparr>) t" "length (can_configs t) = length (can_configs s)"
  shows "bcast_inv t = bcast_inv s" "bcast_queue t = bcast_queue s"
    "g_bcast_wake_pending t = g_bcast_wake_pending s"
  using assms by (auto simp: bcast_same_def bcast_inv_def bcast_queue_def fun_eq_iff)

lemma bcast_step_inv:
  assumes "bcast_step os s a t" "bcast_inv s"
  shows "bcast_inv t"
  using assms
proof (cases rule: bcast_step.cases)
  case (configure req)
  show ?thesis
  proof (cases "bcast_config_ok req")
    case True
    then obtain r where "req = Some r" by (auto simp: bcast_config_ok_def split: option.splits)
    then show ?thesis using handle_config_laws[OF assms(2)] True configure by blast
  next
    case False
    then show ?thesis using handle_config_rejected[OF False] bcast_same_inv assms(2) configure by blast
  qed
next
  case pulse
  then show ?thesis using pps_laws(1)[OF assms(2)] by (metis surj_pair)
next
  case (elsewhere)
  then show ?thesis using elsewhere_laws(1) assms(2) by blast
qed (use assms(2) enqueue_inv take_laws in blast)+

lemma bcast_steps_inv: "bcast_steps os s as t \<Longrightarrow> bcast_inv s \<Longrightarrow> bcast_inv t"
  by (induction rule: bcast_steps.induct) (auto dest: bcast_step_inv)

text \<open>The state after a reset: nothing queued, nothing pending, the window closed.\<close>

definition quiet :: "server \<Rightarrow> bool" where
  "quiet s \<longleftrightarrow> g_bcast_rx_gate_open s = 0 \<and> (\<forall>c < 6. g_bcast_wake_pending s ! c = 0) \<and>
     (\<forall>c. bcast_queue s c = [])"

definition productive :: "bcast_act \<Rightarrow> bool" where
  "productive a = (case a of Enqueue _ _ (Some _) \<Rightarrow> True | TakeGroup _ (Some _) \<Rightarrow> True | _ \<Rightarrow> False)"

lemma gate_closed_query:
  "g_bcast_rx_gate_open s = 0 \<Longrightarrow>
   is_broadcast_rx_gate_open os s = (False, s\<lparr>g_bcast_rx_gate_open := 0, g_bcast_rx_gate_until_ms := 0\<rparr>)"
  by (simp add: is_broadcast_rx_gate_open_def)

lemma enqueue_closed:
  assumes "g_bcast_rx_gate_open s = 0" "enqueue_broadcast_group os ch frames s = (r, t)"
  shows "(\<exists>e. r = Inl e) \<and> bcast_same s t \<and> g_bcast_rx_gate_open t = 0"
  using assms gate_closed_query[OF assms(1)]
  by (auto simp: enqueue_broadcast_group_def is_broadcast_pps_window_open_def bcast_same_def split: if_splits)

lemma configure_quiet:
  assumes "bcast_inv s" "bcast_config_ok (Some r)"
  shows "quiet (handle_broadcast_config os (Some r) s)"
  using handle_config_laws[OF assms refl, of os] by (simp add: quiet_def)

lemma bcast_reject_gate [simp]:
  "\<not> bcast_config_ok req \<Longrightarrow> g_bcast_rx_gate_open (handle_broadcast_config os req s) = g_bcast_rx_gate_open s"
  using handle_config_reject[of req os s] by (auto simp: bcast_reject_def)

lemma quiet_same:
  assumes "bcast_same s t" "g_bcast_rx_gate_open t = g_bcast_rx_gate_open s"
  shows "quiet t = quiet s"
  using assms bcast_same_queue[OF assms(1)] by (simp add: quiet_def bcast_same_def)

lemma quiet_step:
  assumes "bcast_step os s a t" "bcast_inv s" "quiet s" "a \<noteq> Pulse"
  shows "quiet t \<and> \<not> productive a"
  using assms(1)
proof (cases rule: bcast_step.cases)
  case (configure req)
  show ?thesis
  proof (cases "bcast_config_ok req")
    case True
    then obtain r where "req = Some r" by (auto simp: bcast_config_ok_def split: option.splits)
    then show ?thesis using configure_quiet[OF assms(2)] True configure by (simp add: productive_def)
  next
    case False
    then show ?thesis
      using quiet_same[OF handle_config_rejected[OF False, of s os]] assms(3) configure
      by (simp add: productive_def)
  qed
next
  case (enqueued ch frames)
  then show ?thesis using enqueue_closed[OF _ enqueued(2)] assms(3) by (simp add: quiet_def)
next
  case (refused ch frames e)
  have "bcast_same s t" "g_bcast_rx_gate_open t = 0"
    using enqueue_closed[OF _ refused(2)] assms(3) by (simp_all add: quiet_def)
  then show ?thesis
    using quiet_same[of s t] assms(3) refused(1) by (simp add: quiet_def[of s] productive_def)
next
  case (taken ch g)
  have "\<not> (unat ch < 6 \<and> g_bcast_wake_pending s ! unat ch \<noteq> 0)" using assms(3) by (simp add: quiet_def)
  then show ?thesis using take_laws[OF assms(2) taken(2)] by (simp split: if_splits)
next
  case (untaken ch n g)
  have "\<not> (unat ch < 6 \<and> g_bcast_wake_pending s ! unat ch \<noteq> 0)" using assms(3) by (simp add: quiet_def)
  then show ?thesis
    using take_laws[OF assms(2) untaken(2)] assms(3) untaken(1) by (simp add: quiet_def productive_def split: if_splits)
next
  case elsewhere
  then show ?thesis
    using assms(3) elsewhere_laws[OF elsewhere(2,3)] by (simp add: quiet_def productive_def)
qed (use assms(4) in simp)

section \<open>Order and number of the delivered groups\<close>

fun queued_on :: "u8 \<Rightarrow> bcast_act list \<Rightarrow> BroadcastFrameGroup list" where
  "queued_on c (Enqueue ch fs (Some g) # as) = (if ch = c then g # queued_on c as else queued_on c as)"
| "queued_on c (a # as) = queued_on c as"
| "queued_on c [] = []"

fun delivered_on :: "u8 \<Rightarrow> bcast_act list \<Rightarrow> BroadcastFrameGroup list" where
  "delivered_on c (TakeGroup ch (Some g) # as) = (if ch = c then g # delivered_on c as else delivered_on c as)"
| "delivered_on c (a # as) = delivered_on c as"
| "delivered_on c [] = []"

definition pulses :: "bcast_act list \<Rightarrow> nat" where
  "pulses as = length (filter (\<lambda>a. a = Pulse) as)"

lemma acts_append:
  "queued_on c (a # as) = queued_on c [a] @ queued_on c as"
  "delivered_on c (a # as) = delivered_on c [a] @ delivered_on c as"
proof -
  show "queued_on c (a # as) = queued_on c [a] @ queued_on c as"
    by (cases "(c, [a])" rule: queued_on.cases) auto
  show "delivered_on c (a # as) = delivered_on c [a] @ delivered_on c as"
    by (cases "(c, [a])" rule: delivered_on.cases) auto
qed

definition reconfigures :: "bcast_act \<Rightarrow> bool" where
  "reconfigures a = (case a of Configure req \<Rightarrow> bcast_config_ok req | _ \<Rightarrow> False)"

lemma step_conserves:
  assumes "bcast_step os s a t" "bcast_inv s" "\<not> reconfigures a"
  shows "bcast_queue s c @ queued_on c [a] = delivered_on c [a] @ bcast_queue t c"
  using assms(1)
proof (cases rule: bcast_step.cases)
  case (configure req)
  then show ?thesis
    using assms(3) bcast_same_queue[OF handle_config_rejected[of req s os]] by (simp add: reconfigures_def)
next
  case pulse
  then show ?thesis using pps_laws(2)[OF assms(2)] by (metis append.right_neutral append_Nil delivered_on.simps(3,7)
      queued_on.simps(3,7) surj_pair)
next
  case (enqueued ch frames)
  then show ?thesis
    by (cases rule: enqueue_result[OF assms(2) enqueued(2)]) auto
next
  case (refused ch frames e)
  then show ?thesis
    by (cases rule: enqueue_result[OF assms(2) refused(2)]) (auto dest: bcast_same_queue)
next
  case (taken ch g)
  then show ?thesis
    using take_laws[OF assms(2) taken(2)] by (auto split: if_splits)
next
  case (untaken ch n g)
  then show ?thesis
    using take_laws[OF assms(2) untaken(2)] by (auto split: if_splits)
next
  case elsewhere
  then show ?thesis using elsewhere_laws(2) by simp
qed

lemma steps_conserve:
  "bcast_steps os s as t \<Longrightarrow> bcast_inv s \<Longrightarrow> \<forall>a \<in> set as. \<not> reconfigures a \<Longrightarrow>
   bcast_queue s c @ queued_on c as = delivered_on c as @ bcast_queue t c"
proof (induction rule: bcast_steps.induct)
  case (more s a t as u)
  have "bcast_queue s c @ queued_on c [a] = delivered_on c [a] @ bcast_queue t c"
    using more.prems by (intro step_conserves[OF more.hyps(1)]) simp_all
  moreover have "bcast_queue t c @ queued_on c as = delivered_on c as @ bcast_queue u c"
    using more bcast_step_inv by auto
  ultimately show ?case
    by (metis acts_append append.assoc)
qed simp

lemma step_wakes:
  assumes "bcast_step os s a t" "bcast_inv s" "unat c < 6"
  shows "length (delivered_on c [a]) + unat (g_bcast_wake_pending t ! unat c)
    \<le> unat (g_bcast_wake_pending s ! unat c) + pulses [a]"
  using assms(1)
proof (cases rule: bcast_step.cases)
  case (configure req)
  show ?thesis
  proof (cases "bcast_config_ok req")
    case True
    then obtain r where "req = Some r" by (auto simp: bcast_config_ok_def split: option.splits)
    then show ?thesis using handle_config_laws[OF assms(2), of r t os] True configure assms(3) by simp
  next
    case False
    then show ?thesis using handle_config_rejected[OF False, of s os] configure by (simp add: bcast_same_def)
  qed
next
  case pulse
  obtain m c' where sel: "select_mask (g_bcast_cfg s) = (m, c')" by fastforce
  have "unat (w + 1 :: u32) \<le> Suc (unat w)" for w
    by (simp add: unat_word_ariths)
  then show ?thesis
    using pps_laws(7)[OF assms(2) pulse(2) sel assms(3)] pulse(1) by (simp add: pulses_def)
next
  case (enqueued ch frames)
  then show ?thesis by (cases rule: enqueue_result[OF assms(2) enqueued(2)]) (auto simp: pulses_def)
next
  case (refused ch frames e)
  then show ?thesis
    by (cases rule: enqueue_result[OF assms(2) refused(2)]) (auto simp: pulses_def bcast_same_def)
next
  case (taken ch g)
  note laws = take_laws[OF assms(2) taken(2)]
  then have p: "unat ch < 6" "g_bcast_wake_pending s ! unat ch \<noteq> 0"
    "g_bcast_wake_pending t = (g_bcast_wake_pending s)[unat ch := g_bcast_wake_pending s ! unat ch - 1]"
    by (auto split: if_splits)
  have u: "unat (g_bcast_wake_pending s ! unat ch - 1) + 1 = unat (g_bcast_wake_pending s ! unat ch)"
    using p(2) by (simp add: unat_minus_one unat_gt_0 Suc_leI)
  show ?thesis
    using p u taken(1) bcast_invD(3)[OF assms(2)] assms(3)
    by (cases g) (auto simp: nth_list_update word_unat_eq_iff)
next
  case (untaken ch n g)
  have "unat (w - 1 :: u32) \<le> unat w" if "w \<noteq> 0" for w
    using that by (simp add: unat_minus_one)
  then show ?thesis
    using take_laws[OF assms(2) untaken(2)] untaken(1) bcast_invD(3)[OF assms(2)] assms(3)
    by (auto simp: nth_list_update pulses_def split: if_splits)
next
  case elsewhere
  then show ?thesis using elsewhere_laws(3) by simp
qed

lemma steps_wakes:
  "bcast_steps os s as t \<Longrightarrow> bcast_inv s \<Longrightarrow> unat c < 6 \<Longrightarrow>
   length (delivered_on c as) + unat (g_bcast_wake_pending t ! unat c)
     \<le> unat (g_bcast_wake_pending s ! unat c) + pulses as"
proof (induction rule: bcast_steps.induct)
  case (more s a t as u)
  have "length (delivered_on c [a]) + unat (g_bcast_wake_pending t ! unat c)
    \<le> unat (g_bcast_wake_pending s ! unat c) + pulses [a]"
    using step_wakes[OF more.hyps(1)] more.prems by simp
  moreover have "length (delivered_on c as) + unat (g_bcast_wake_pending u ! unat c)
    \<le> unat (g_bcast_wake_pending t ! unat c) + pulses as"
    using more bcast_step_inv by blast
  moreover have "pulses (a # as) = pulses [a] + pulses as" by (simp add: pulses_def)
  moreover have "length (delivered_on c (a # as)) = length (delivered_on c [a]) + length (delivered_on c as)"
    by (metis acts_append(2) length_append)
  ultimately show ?case by linarith
qed (simp add: pulses_def)

lemma quiet_steps:
  "bcast_steps os s as t \<Longrightarrow> bcast_inv s \<Longrightarrow> quiet s \<Longrightarrow> Pulse \<notin> set as \<Longrightarrow>
   quiet t \<and> (\<forall>a \<in> set as. \<not> productive a)"
proof (induction rule: bcast_steps.induct)
  case (more s a t as u)
  then have "quiet t \<and> \<not> productive a" by (intro quiet_step[OF more.hyps(1)]) auto
  then show ?case using more bcast_step_inv by auto
qed simp

section \<open>Fairness of the three modes\<close>

text \<open>The masks that the next \<open>n\<close> pulses select.\<close>

fun pulse_masks :: "nat \<Rightarrow> BroadcastSchedulerConfig \<Rightarrow> u32 list" where
  "pulse_masks 0 c = []"
| "pulse_masks (Suc n) c = (case select_mask c of (m, c') \<Rightarrow> m # pulse_masks n c')"

lemma select_polling:
  assumes "bc_enable c = 1" "bc_mode c = 2" "ch < 6" "bit (bc_active_mask c) ch"
    "select_mask c = (m, c')"
  shows "\<exists>k < 6. bit (bc_active_mask c) k \<and> m = 2 ^ k \<and>
    (if ring_dist (unat (bc_poll_next_channel c)) ch = ring_dist (unat (bc_poll_next_channel c)) k then k = ch
     else ring_dist (unat (bc_poll_next_channel c')) ch < ring_dist (unat (bc_poll_next_channel c)) ch)"
proof -
  let ?a = "bc_active_mask c AND BCAST_CAN_MASK" and ?n = "bc_poll_next_channel c"
  have "poll_channel ?a ?n \<noteq> None"
    using poll_channel_None[of ?a ?n ch] assms(3,4) by (auto simp only: mask6_bit)
  then obtain k where k: "poll_channel ?a ?n = Some k" by blast
  note s = poll_channel_Some[OF k]
  then have k6: "k < 6" and kb: "bit (bc_active_mask c) k" by (simp_all only: mask6_bit)
  have "bit (2 ^ k AND BCAST_CAN_MASK :: u32) i = bit (2 ^ k :: u32) i" for i
    unfolding mask6_bit using k6 by (auto simp: bit_exp_iff)
  then have "(2 ^ k AND BCAST_CAN_MASK :: u32) = 2 ^ k" by (intro bit_eqI)
  then have "select_mask c = (2 ^ k, c\<lparr>bc_poll_next_channel := of_nat (Suc k mod 6)\<rparr>)"
    using assms(1,2) k by (simp add: select_mask_def)
  then have mc: "m = 2 ^ k" "c' = c\<lparr>bc_poll_next_channel := of_nat (Suc k mod 6)\<rparr>"
    using assms(5) by simp_all
  have m: "m = 2 ^ k" "bc_poll_next_channel c' = of_nat (Suc k mod 6)" by (simp_all add: mc)
  let ?d = "ring_dist (unat ?n)"
  have le: "?d k \<le> ?d ch" using s assms(3,4) by (simp only: mask6_bit)
  have kt: "(unat ?n + ?d k) mod 6 = k" using ring_dist_target[OF k6] .
  have nx: "unat (bc_poll_next_channel c') = (k + 1) mod 6" using of_nat_mod6[of "Suc k"] by (simp add: m(2))
  have less: "ring_dist (unat (bc_poll_next_channel c')) ch < ?d ch" if "?d ch \<noteq> ?d k"
  proof -
    have lt: "?d k < ?d ch" using le that by simp
    show ?thesis using ring_dist_step[OF assms(3) lt] lt unfolding kt nx by linarith
  qed
  have same: "k = ch" if "?d ch = ?d k"
    using ring_dist_target[OF assms(3), of "unat ?n"] unfolding that kt .
  show ?thesis using m(1) k6 kb less same by (intro exI[of _ k]) simp
qed

lemma polling_reaches:
  assumes "bc_enable c = 1" "bc_mode c = 2" "ch < 6" "bit (bc_active_mask c) ch"
    "ring_dist (unat (bc_poll_next_channel c)) ch < n"
  shows "2 ^ ch \<in> set (pulse_masks n c)"
  using assms
proof (induction n arbitrary: c)
  case (Suc n)
  obtain m c' where sel: "select_mask c = (m, c')" by fastforce
  show ?case
  proof (cases "m = 2 ^ ch")
    case False
    then have "ring_dist (unat (bc_poll_next_channel c')) ch < ring_dist (unat (bc_poll_next_channel c)) ch"
      using select_polling[OF Suc.prems(1-4) sel] by (auto split: if_splits)
    then have "2 ^ ch \<in> set (pulse_masks n c')"
      using Suc.prems select_mask_laws(3)[OF sel] by (intro Suc.IH) auto
    then show ?thesis by (simp add: sel)
  qed (simp add: sel)
qed simp

lemma polling_single:
  assumes "bc_enable c = 1" "bc_mode c = 2" "bc_active_mask c AND BCAST_CAN_MASK \<noteq> 0" "m \<in> set (pulse_masks n c)"
  shows "\<exists>k < 6. bit (bc_active_mask c) k \<and> m = 2 ^ k"
  using assms
proof (induction n arbitrary: c)
  case (Suc n)
  obtain m' c' where sel: "select_mask c = (m', c')" by fastforce
  obtain ch where "bit (bc_active_mask c AND BCAST_CAN_MASK) ch" using Suc.prems(3) by (auto simp: bit_eq_iff)
  then have "ch < 6" "bit (bc_active_mask c) ch" by (simp_all add: mask6_bit)
  then have "\<exists>k < 6. bit (bc_active_mask c) k \<and> m' = 2 ^ k"
    using select_polling[OF Suc.prems(1,2) _ _ sel] by blast
  then show ?case
    using Suc.IH[of c'] Suc.prems select_mask_laws(3)[OF sel] by (auto simp: sel)
qed simp

lemma alternate_masks:
  assumes "bc_enable c = 1" "bc_mode c = 3" "cfg_ok c"
  shows "k < n \<Longrightarrow> pulse_masks n c ! k =
    (if (bc_current_group c = 0) = even k then bc_group_a_mask c else bc_group_b_mask c)"
  using assms
proof (induction n arbitrary: c k)
  case (Suc n)
  obtain m c' where sel: "select_mask c = (m, c')" by fastforce
  have s: "m = (if bc_current_group c = 0 then bc_group_a_mask c else bc_group_b_mask c)"
    "(bc_current_group c' = 0) = (bc_current_group c \<noteq> 0)"
    using sel Suc.prems by (auto simp: select_mask_def cfg_ok_def split: if_splits)
  show ?case
  proof (cases k)
    case (Suc j)
    then show ?thesis
      using Suc.IH[of j c'] Suc.prems select_mask_laws[OF sel] s by (auto simp: sel)
  qed (use s in \<open>auto simp: sel\<close>)
qed simp

section \<open>The receive window\<close>

definition ms_of :: "u64 \<times> u64 \<Rightarrow> u64" where
  "ms_of ts = fst ts * 1000 + snd ts div 1000000"

lemma monotonic_ms_clock:
  "os_clock os (sys_calls s) = Some ts \<Longrightarrow> monotonic_ms os s = (ms_of ts, s\<lparr>sys_calls := Suc (sys_calls s)\<rparr>)"
  by (cases ts) (simp add: monotonic_ms_def sys_clock_def ms_of_def)

lemma gate_query_open:
  assumes "g_bcast_rx_gate_open s \<noteq> 0" "os_clock os (sys_calls s) = Some ts"
  shows "fst (is_broadcast_rx_gate_open os s) = (ms_of ts \<le> g_bcast_rx_gate_until_ms s)"
  using assms by (simp add: is_broadcast_rx_gate_open_def monotonic_ms_clock)

section \<open>Writing a group to the device\<close>

lemma send_event_trace:
  "\<exists>tail. sys_trace (send_event os l i m t) = sys_trace t @ tail \<and>
     (\<forall>x \<in> set tail. \<exists>sock b. x = Sent sock b \<or> x = Shutdown sock)"
  by (auto simp: send_event_def send_defs split: option.split)

lemma write_frames_trace:
  assumes "write_frames os fd fs s = (r, s')"
  shows "r = Inr () \<Longrightarrow> sys_trace s' = sys_trace s @ map (\<lambda>f. Written fd (axican_frame_bytes f)) fs"
    and "r = Inl e \<Longrightarrow> \<exists>k < length fs. \<exists>tail. sys_trace s' =
           sys_trace s @ map (\<lambda>f. Written fd (axican_frame_bytes f)) (take (Suc k) fs) @ tail \<and>
           (\<forall>x \<in> set tail. \<exists>sock b. x = Sent sock b \<or> x = Shutdown sock)"
proof -
  show "r = Inr () \<Longrightarrow> sys_trace s' = sys_trace s @ map (\<lambda>f. Written fd (axican_frame_bytes f)) fs"
    using assms by (induction os fd fs s rule: write_frames.induct) (auto simp: sys_write_def split: if_splits)
  show "r = Inl e \<Longrightarrow> \<exists>k < length fs. \<exists>tail. sys_trace s' =
           sys_trace s @ map (\<lambda>f. Written fd (axican_frame_bytes f)) (take (Suc k) fs) @ tail \<and>
           (\<forall>x \<in> set tail. \<exists>sock b. x = Sent sock b \<or> x = Shutdown sock)"
    using assms
  proof (induction os fd fs s rule: write_frames.induct)
    case (2 os fd f fs s)
    let ?s1 = "s\<lparr>sys_calls := Suc (sys_calls s), sys_trace := sys_trace s @ [Written fd (axican_frame_bytes f)]\<rparr>"
    show ?case
    proof (cases "os_write os (sys_calls s) = 24")
      case True
      then obtain k tail where "k < length fs" "sys_trace s' =
           sys_trace ?s1 @ map (\<lambda>f. Written fd (axican_frame_bytes f)) (take (Suc k) fs) @ tail"
          "\<forall>x \<in> set tail. \<exists>sock b. x = Sent sock b \<or> x = Shutdown sock"
        using 2 by (auto simp: sys_write_def)
      then show ?thesis by (intro exI[of _ "Suc k"]) auto
    next
      case False
      then have "s' = send_error os ''broadcast CAN send failed'' ?s1" using 2(3) by (auto simp: sys_write_def)
      then obtain tail where "sys_trace s' = sys_trace ?s1 @ tail"
          "\<forall>x \<in> set tail. \<exists>sock b. x = Sent sock b \<or> x = Shutdown sock"
        using send_event_trace[of os EVENT_LEVEL_ERROR EVENT_CAN_SENT_FAILE "''broadcast CAN send failed''" ?s1]
        by auto
      then show ?thesis by (intro exI[of _ 0] conjI exI[of _ tail]) simp_all
    qed
  qed simp
qed

lemma write_frames_ok:
  "(\<And>k. os_write os k = 24) \<Longrightarrow> fst (write_frames os fd fs s) = Inr ()"
  by (induction os fd fs s rule: write_frames.induct) (simp_all add: sys_write_def)

section \<open>Properties\<close>

text \<open>A configured server with all channels open, on which the properties are exercised.\<close>

definition demo_server :: server where
  "demo_server = boot_server\<lparr>
     can_configs := replicate 6 (zero_config\<lparr>dc_valid := 1, dc_state := CAN_STATE_OPENED\<rparr>),
     g_bcast_group_buf_set :=
       \<lparr>channels = Some (replicate 6 (Some \<lparr>rb_data = replicate 6160 0, rb_in = 0, rb_out = 0,
                                            rb_mask = 1, rb_esize = 3080\<rparr>)),
        max_channel = 6, elem_size = 3080, buf_capacity = 2\<rparr>\<rparr>"

definition demo_config :: ReqPacket where
  "demo_config = \<lparr>rq_sync_word = 0, rq_data_len = 0, rq_counter = 0, rq_cmd_type = 0, rq_checksum = 0,
     rq_data = bcast_config_bytes
       \<lparr>bp_head = PC_STATUS_HEAD, bp_direction = 0, bp_type = 0, bp_length = 40, bp_reserved = 0,
        bp_config_count = 1, bp_enable = 1, bp_b_mode = 2, bp_start_group = 0, bp_start_channel = 0,
        bp_active_mask = 5, bp_group_a_mask = 0, bp_group_b_mask = 0, bp_timestamp = 0,
        bp_xor_checksum = 0x49BE00D7\<rparr>\<rparr>"

definition demo_os :: os where
  "demo_os = \<lparr>os_send = (\<lambda>_. 84), os_write = (\<lambda>_. 24), os_ioctl = (\<lambda>_. 0), os_clock = (\<lambda>k. Some (of_nat k, 0)),
              os_stale = (\<lambda>_. (0, 0)), os_time = (\<lambda>_. 0), os_malloc = (\<lambda>_. True)\<rparr>"

lemma demo_queue_empty: "bcast_queue demo_server ch = []"
  by (auto simp: bcast_queue_def demo_server_def ch_view_def ch_ok_def ringbuffer_channel_valid_def
      ch_contents_def channel_of_def rb_list_def rb_count_def word_less_nat_alt)

lemma demo_inv: "bcast_inv demo_server"
  by (simp add: bcast_inv_def demo_queue_empty)
    (simp add: demo_server_def boot_server_def set_inv_def rb_inv_def is_power_of_2_def rb_capacity_def
      rb_count_def cfg_ok_def zero_bcast_cfg_def)

lemma demo_config_ok: "bcast_config_ok (Some demo_config)"
  by code_simp

text \<open>
  C9.  Whatever the order in which configuration commands, pulses, incoming groups, sending threads and
  the rest of the program interleave, the scheduler keeps its invariant: the queues are well formed, every
  queued group has a non-zero number and between 1 and 128 frames, the masks name existing channels only
  and the next polled channel is a channel.
\<close>

theorem broadcast_invariant:
  assumes "bcast_steps os s acts t" and "bcast_inv s"
  shows "bcast_inv t"
  using assms by (rule bcast_steps_inv)

theorem broadcast_invariant_witness:
  "bcast_inv (process_broadcast_pps demo_os (handle_broadcast_config demo_os (Some demo_config) demo_server))"
  by (rule broadcast_invariant[OF _ demo_inv, of demo_os "[Configure (Some demo_config), Pulse]"])
    (rule bcast_steps.more, rule bcast_step.configure, rule bcast_steps.more, rule bcast_step.pulse,
      rule bcast_steps.none)

text \<open>
  C28.  An accepted configuration discards everything: until the next pulse, in any interleaving, no group
  is accepted and no sending thread obtains one, so that a wake or a group from before the
  reconfiguration can never be used after it.
\<close>

theorem reset_discards_stale_wakes:
  assumes "bcast_inv s" and "bcast_config_ok (Some r)"
    and "bcast_steps os (handle_broadcast_config os (Some r) s) acts t" and "Pulse \<notin> set acts"
  shows "quiet t \<and> (\<forall>a \<in> set acts. \<not> productive a)"
proof (rule quiet_steps[OF assms(3) _ _ assms(4)])
  show "bcast_inv (handle_broadcast_config os (Some r) s)"
    using handle_config_laws[OF assms(1,2) refl] by blast
  show "quiet (handle_broadcast_config os (Some r) s)" by (rule configure_quiet[OF assms(1,2)])
qed

theorem reset_discards_stale_wakes_witness:
  "quiet (snd (snd (take_broadcast_group 0
     (handle_broadcast_config demo_os (Some demo_config) (process_broadcast_pps demo_os demo_server)))))"
proof -
  let ?s = "process_broadcast_pps demo_os demo_server"
  let ?c = "handle_broadcast_config demo_os (Some demo_config) ?s"
  obtain n g t where t: "take_broadcast_group 0 ?c = (n, g, t)" by (metis prod_cases3)
  have inv: "bcast_inv ?s" using pps_laws(1)[OF demo_inv refl] by (metis surj_pair)
  have "bcast_steps demo_os ?c [TakeGroup 0 (if n = 1 then g else None)] t"
    using t by (intro bcast_steps.more[OF _ bcast_steps.none]) (auto intro: bcast_step.intros)
  from reset_discards_stale_wakes[OF inv demo_config_ok this] t show ?thesis by simp
qed

text \<open>
  C14.  On every channel, and as long as no configuration is accepted, the groups handed to the sending
  thread are exactly the groups that were accepted, each once and in order, apart from those still queued.
\<close>

theorem broadcast_groups_fifo:
  assumes "bcast_steps os s acts t" and "bcast_inv s" and "\<forall>a \<in> set acts. \<not> reconfigures a"
  shows "bcast_queue s ch @ queued_on ch acts = delivered_on ch acts @ bcast_queue t ch"
  using assms by (rule steps_conserve)

definition demo_payload :: PC_ARM_DATA_DATA where
  "demo_payload = zero_payload\<lparr>pd_idr := 0x123, pd_dw1r := 0x11223344\<rparr>"

definition demo_pulsed :: server where
  "demo_pulsed = process_broadcast_pps demo_os demo_server"

lemma demo_enqueue:
  obtains t where "enqueue_broadcast_group demo_os 2 [demo_payload] demo_pulsed = (Inr (), t)"
    "g_bcast_group_id t = 1"
proof -
  have p: "demo_pulsed = demo_server\<lparr>sys_calls := 1, g_bcast_rx_gate_open := 1, g_bcast_rx_gate_until_ms := 1000\<rparr>"
    by (simp add: demo_pulsed_def process_broadcast_pps_def gate_set_frame select_broadcast_mask_on_pps_def
        select_mask_def demo_server_def boot_server_def zero_bcast_cfg_def monotonic_ms_def sys_clock_def demo_os_def)
  have inv: "set_inv (g_bcast_group_buf_set demo_server)" by (rule bcast_invD(1)[OF demo_inv])
  have ok: "ch_ok (g_bcast_group_buf_set demo_server) 2 6"
    "ch_contents (g_bcast_group_buf_set demo_server) 2 = []" "ch_capacity (g_bcast_group_buf_set demo_server) 2 = 2"
    by (simp_all add: demo_server_def ch_ok_def ringbuffer_channel_valid_def ch_contents_def ch_capacity_def
        channel_of_def rb_list_def rb_count_def rb_capacity_def)
  have av: "ringbuffer_32ch_avail (Some (g_bcast_group_buf_set demo_server)) 2 6 \<noteq> 0"
    using ch32_avail[OF inv, of 2 6] ok by auto
  have cc: "channel_configured demo_pulsed 2" "g_bcast_group_id demo_server = 0"
    by (simp_all add: channel_configured_def p demo_server_def boot_server_def)
  have "fst (enqueue_broadcast_group demo_os 2 [demo_payload] demo_pulsed) = Inr ()"
    "g_bcast_group_id (snd (enqueue_broadcast_group demo_os 2 [demo_payload] demo_pulsed)) = 1"
    using cc av ok
    by (simp_all add: enqueue_broadcast_group_def is_broadcast_pps_window_open_def p
        is_broadcast_rx_gate_open_def monotonic_ms_def sys_clock_def demo_os_def next_broadcast_group_id_def
        ch32_put_cases[OF inv] ret_val_def)
  then show ?thesis by (intro that) (auto simp: prod_eq_iff)
qed

theorem broadcast_groups_fifo_witness:
  "\<exists>t. bcast_queue t 2 = [broadcast_group 1 [demo_payload]] \<and>
     bcast_steps demo_os demo_pulsed [Enqueue 2 [demo_payload] (Some (broadcast_group 1 [demo_payload]))] t"
proof -
  obtain t where t: "enqueue_broadcast_group demo_os 2 [demo_payload] demo_pulsed = (Inr (), t)"
    "g_bcast_group_id t = 1" by (rule demo_enqueue)
  have inv: "bcast_inv demo_pulsed" "bcast_queue demo_pulsed = bcast_queue demo_server"
    using pps_laws(1,2)[OF demo_inv demo_pulsed_def[unfolded demo_pulsed_def]] unfolding demo_pulsed_def
    by (metis surj_pair)+
  have st: "bcast_steps demo_os demo_pulsed [Enqueue 2 [demo_payload] (Some (broadcast_group 1 [demo_payload]))] t"
    using bcast_step.enqueued[OF t(1)] t(2) by (auto intro: bcast_steps.intros)
  have "bcast_queue t 2 = [broadcast_group 1 [demo_payload]]"
    using broadcast_groups_fifo[OF st inv(1), of 2] by (simp add: reconfigures_def inv(2) demo_queue_empty)
  then show ?thesis using st by blast
qed

text \<open>
  C15.  A channel sends at most one group per pulse: over any interleaving the number of groups handed
  to the thread of a channel, plus the wakes it has left, is at most the wakes it had plus the number of
  pulses.
\<close>

theorem at_most_one_group_per_pulse:
  assumes "bcast_steps os s acts t" and "bcast_inv s" and "unat ch < AXICAN_MAX"
  shows "length (delivered_on ch acts) + unat (g_bcast_wake_pending t ! unat ch)
    \<le> unat (g_bcast_wake_pending s ! unat ch) + pulses acts"
  using assms by (rule steps_wakes)

theorem at_most_one_group_per_pulse_witness:
  "unat (g_bcast_wake_pending demo_pulsed ! unat (2 :: u8)) \<le> 1"
proof -
  have "bcast_steps demo_os demo_server [Pulse] demo_pulsed"
    unfolding demo_pulsed_def by (rule bcast_steps.more, rule bcast_step.pulse, rule bcast_steps.none)
  from at_most_one_group_per_pulse[OF this demo_inv, of 2] show ?thesis
    by (simp add: pulses_def demo_server_def boot_server_def)
qed

text \<open>
  C27.  Polling is fair: in polling mode every pulse selects exactly one active channel, and every active
  channel is selected within any six consecutive pulses, from whatever position the rotation is at.
\<close>

theorem polling_is_fair:
  assumes "bc_enable c = 1" and "bc_mode c = 2" and "ch < AXICAN_MAX" and "bit (bc_active_mask c) ch"
  shows "2 ^ ch \<in> set (pulse_masks 6 c) \<and>
    (\<forall>m \<in> set (pulse_masks n c). \<exists>k < 6. bit (bc_active_mask c) k \<and> m = 2 ^ k)"
proof
  show "2 ^ ch \<in> set (pulse_masks 6 c)"
    using ring_dist_bound[OF assms(3)] by (intro polling_reaches[OF assms])
  have "bit (bc_active_mask c AND BCAST_CAN_MASK) ch" using assms(3,4) by (simp only: mask6_bit)
  then have "bc_active_mask c AND BCAST_CAN_MASK \<noteq> 0" by (metis bit_0_eq bot_apply bot_bool_def)
  then show "\<forall>m \<in> set (pulse_masks n c). \<exists>k < 6. bit (bc_active_mask c) k \<and> m = 2 ^ k"
    using polling_single[OF assms(1,2)] by blast
qed

theorem polling_is_fair_witness:
  "(2 :: u32) ^ 4 \<in> set (pulse_masks 6 (zero_bcast_cfg\<lparr>bc_enable := 1, bc_mode := 2, bc_active_mask := 0x35,
      bc_poll_next_channel := 5\<rparr>))"
  by (rule conjunct1[OF polling_is_fair]) code_simp+

text \<open>
  C35.  In alternating mode consecutive pulses wake the two groups in strict alternation, starting with the
  configured group.
\<close>

theorem ab_groups_alternate:
  assumes "bcast_config_ok (Some r)" and "c = cfg_of_param (bcast_config_of (rq_data r))"
    and "bc_enable c = 1" and "bc_mode c = 3" and "k < n"
  shows "pulse_masks n c ! k =
    (if (bc_start_group c = 0) = even k then bc_group_a_mask c else bc_group_b_mask c)"
proof -
  have "cfg_ok c"
    unfolding assms(2) by (rule accepted_cfg_ok[OF assms(1)])
  moreover have "bc_current_group c = bc_start_group c" using assms(2) by (simp add: cfg_of_param_def)
  ultimately show ?thesis using alternate_masks[OF assms(3,4) _ assms(5)] by simp
qed

definition demo_ab :: ReqPacket where
  "demo_ab = demo_config\<lparr>rq_data := bcast_config_bytes
       \<lparr>bp_head = PC_STATUS_HEAD, bp_direction = 0, bp_type = 0, bp_length = 40, bp_reserved = 0,
        bp_config_count = 0, bp_enable = 1, bp_b_mode = 3, bp_start_group = 1, bp_start_channel = 0,
        bp_active_mask = 0, bp_group_a_mask = 3, bp_group_b_mask = 0x30, bp_timestamp = 0,
        bp_xor_checksum = 0x49BF01E0\<rparr>\<rparr>"

theorem ab_groups_alternate_witness:
  "pulse_masks 3 (cfg_of_param (bcast_config_of (rq_data demo_ab))) ! 0 = 0x30 \<and>
   pulse_masks 3 (cfg_of_param (bcast_config_of (rq_data demo_ab))) ! 1 = 3"
proof -
  have ok: "bcast_config_ok (Some demo_ab)" by code_simp
  show ?thesis
    using ab_groups_alternate[OF ok refl, of 0 3] ab_groups_alternate[OF ok refl, of 1 3]
    by (simp add: demo_ab_def cfg_of_param_def)
qed

text \<open>
  A pulse opens the receive window for one second: a later check finds it open exactly when the
  monotonic clock has advanced by at most 1000 milliseconds since the pulse, provided no other pulse,
  reset or failed check came in between.
\<close>

lemma receive_window_one_second:
  assumes "bcast_inv s" and "os_clock os (sys_calls s) = Some t0" and "unat (ms_of t0) < 2 ^ 64 - 1000"
    and "s1 = process_broadcast_pps os s"
    and "g_bcast_rx_gate_open s2 = g_bcast_rx_gate_open s1"
    and "g_bcast_rx_gate_until_ms s2 = g_bcast_rx_gate_until_ms s1"
    and "os_clock os (sys_calls s2) = Some t1" and "unat ch < AXICAN_MAX"
  shows "fst (is_broadcast_pps_window_open os ch s2) \<longleftrightarrow> unat (ms_of t1) \<le> unat (ms_of t0) + 1000"
proof -
  obtain m c' where sel: "select_mask (g_bcast_cfg s) = (m, c')" by fastforce
  note laws = pps_laws[OF assms(1,4) sel]
  have u: "g_bcast_rx_gate_until_ms s2 = ms_of t0 + 1000"
    using laws(6) assms(2,6) by (simp add: monotonic_ms_clock)
  have "unat (ms_of t0 + 1000) = unat (ms_of t0) + 1000"
    using assms(3) by (simp add: unat_word_ariths)
  then show ?thesis
    using gate_query_open[of s2 os t1] laws(5) assms(5,7,8) u
    by (simp add: is_broadcast_pps_window_open_def word_le_nat_alt)
qed

text \<open>
  A group reaches the device as it was queued: when every write succeeds the frames of the group, and
  nothing else, are written to the channel's device in order; after a failed write nothing more of the
  group is written and an error is returned; a closed channel writes nothing.
\<close>

lemma group_written_in_order:
  assumes "unat ch < AXICAN_MAX" and "send_broadcast_group_for_channel os ch (Some g) s = (r, s')"
  defines "frames \<equiv> map (\<lambda>f. Written (ax_wr_fd (axican_test s ! unat ch)) (axican_frame_bytes f))
                      (take (unat (bg_frame_count g)) (bg_frames g))"
  shows "(dc_state (can_configs s ! unat ch) \<noteq> CAN_STATE_OPENED \<longrightarrow> r = Inl EINVAL \<and> s' = s) \<and>
    (dc_state (can_configs s ! unat ch) = CAN_STATE_OPENED \<longrightarrow>
       ((\<forall>k. os_write os k = 24) \<longrightarrow> r = Inr ()) \<and>
       (r = Inr () \<longrightarrow> sys_trace s' = sys_trace s @ frames) \<and>
       (\<forall>e. r = Inl e \<longrightarrow> (\<exists>k < length frames. \<exists>tail. sys_trace s' = sys_trace s @ take (Suc k) frames @ tail \<and>
          (\<forall>x \<in> set tail. \<exists>sock b. x = Sent sock b \<or> x = Shutdown sock))))"
proof (cases "dc_state (can_configs s ! unat ch) = CAN_STATE_OPENED")
  case True
  let ?fd = "ax_wr_fd (axican_test s ! unat ch)" and ?fs = "take (unat (bg_frame_count g)) (bg_frames g)"
  have w: "write_frames os ?fd ?fs s = (r, s')"
    using assms(1,2) True by (simp add: send_broadcast_group_for_channel_def)
  have "(\<forall>k. os_write os k = 24) \<longrightarrow> r = Inr ()" using write_frames_ok[of os ?fd ?fs s] w by auto
  then show ?thesis
    using write_frames_trace[OF w] True by (auto simp: frames_def take_map)
qed (use assms(1,2) in \<open>simp add: send_broadcast_group_for_channel_def\<close>)

end
