(* ===== verification/Commands.thy ===== *)
theory Commands
  imports Broadcast
begin

text \<open>
  The handlers of the command connection (port 9009, \<^verbatim>\<open>src/main18.c\<close>): device configuration, information
  and buffer queries, start and stop, version query, and the periodic buffer report.  Each handler
  is one function of the server state, with the checks in their order, the early returns and the
  fall-through between the cases of a switch written out.
\<close>

section \<open>Device configuration\<close>

definition sys_ioctl :: "os \<Rightarrow> effect \<Rightarrow> server \<Rightarrow> int \<times> server" where
  "sys_ioctl os e s =
     (os_ioctl os (sys_calls s),
      s\<lparr>sys_calls := Suc (sys_calls s), sys_trace := sys_trace s @ [e]\<rparr>)"

definition axican_set_baud :: "os \<Rightarrow> int \<Rightarrow> u32 \<Rightarrow> server \<Rightarrow> int \<times> server" where
  "axican_set_baud os fd baud s = sys_ioctl os (SetBaud fd baud) s"

definition axican_set_mode :: "os \<Rightarrow> int \<Rightarrow> u32 \<Rightarrow> server \<Rightarrow> int \<times> server" where
  "axican_set_mode os fd mode s = sys_ioctl os (SetMode fd mode) s"

definition update_config :: "u8 \<Rightarrow> (CanDeviceConfig \<Rightarrow> CanDeviceConfig) \<Rightarrow> server \<Rightarrow> server" where
  "update_config ch f s = s\<lparr>can_configs := (can_configs s)[unat ch := f (can_configs s ! unat ch)]\<rparr>"

text \<open>
  The baud rate in simulator mode (\<open>strict\<close>) and in normal mode.  In normal mode the assignments after the
  error branch are executed in either case.
\<close>

definition config_baud :: "os \<Rightarrow> bool \<Rightarrow> int \<Rightarrow> CanConfigParam \<Rightarrow> server \<Rightarrow> bool \<times> server" where
  "config_baud os strict fd param s =
     (if 0 < cp_baud_rate param \<and> cp_baud_rate param \<le> 1000000
      then case axican_set_baud os fd (cp_baud_rate param) s of (ret, s1) \<Rightarrow>
        (let s2 = (if ret \<noteq> 0 then send_error os ''CAN set baud rate failed'' s1 else s1)
         in if strict \<and> ret \<noteq> 0 then (False, s2)
            else (True, update_config (cp_ch_id param) (\<lambda>c. c\<lparr>dc_baud_rate := cp_baud_rate param\<rparr>) s2))
      else (False, send_error os ''Invalid baud rate (0~1000000)'' s))"

text \<open>The case for loop-back mode has no break and runs on into the default case.\<close>

definition config_mode :: "os \<Rightarrow> bool \<Rightarrow> int \<Rightarrow> CanConfigParam \<Rightarrow> server \<Rightarrow> bool \<times> server" where
  "config_mode os strict fd param s =
     (if cp_mode param = 2 \<or> cp_mode param = 4
      then case axican_set_mode os fd (ucast (cp_mode param)) s of (ret, s1) \<Rightarrow>
        (let s2 = (if ret \<noteq> 0 then send_error os ''CAN set mode failed'' s1 else s1);
             mode_success = (\<not> strict \<or> ret = 0)
         in if cp_mode param = 2 then (mode_success, s2)
            else (mode_success, send_error os ''RECEIVE DATA MODE OTHER'' s2))
      else (False, send_error os ''RECEIVE DATA MODE OTHER'' s))"

definition config_device :: "os \<Rightarrow> bool \<Rightarrow> CanConfigParam \<Rightarrow> server \<Rightarrow> server" where
  "config_device os strict param s =
     (let fd = ax_rd_fd (axican_test s ! unat (cp_ch_id param)) in
      case config_baud os strict fd param s of (baud_success, s1) \<Rightarrow>
      case config_mode os strict fd param s1 of (mode_success, s2) \<Rightarrow>
        send_can_config_response os (cp_ch_id param) (if mode_success \<and> baud_success then 0 else 1) s2)"

definition handle_can_config :: "os \<Rightarrow> ReqPacket \<Rightarrow> server \<Rightarrow> server" where
  "handle_can_config os req s =
     (let param = can_config_of (rq_data req) in
      if unat (cp_ch_id param) \<ge> AXICAN_MAX then send_error os ''Invalid CAN ID'' s
      else if cp_head param \<noteq> PC_STATUS_HEAD then send_error os ''DATA HEAND ERR'' s
      else if cp_xor_checksum param \<noteq> calculate_xor_checksum (Some (rq_data req)) 44
      then send_error os ''xor_checksum ERR'' s
      else
        let s1 = update_config (cp_ch_id param)
                   (\<lambda>c. c\<lparr>dc_can_id := cp_ch_id param, dc_valid := 1,
                          dc_can_type := ucast (cp_CAN_DATA_MODE param)\<rparr>) s
        in if cp_CAN_DATA_MODE param = 1 \<and> cp_type param = 0 then config_device os True param s1
           else if (cp_CAN_DATA_MODE param = 1 \<or> cp_CAN_DATA_MODE param = 0) \<and> cp_type param = 0
           then config_device os False param s1
           else send_error os ''Unsupported CAN data mode'' s1)"

section \<open>Information query\<close>

definition info_entry :: "os \<Rightarrow> nat \<Rightarrow> server \<Rightarrow> CanConfigParam \<times> server" where
  "info_entry os i s =
     (let cfg = can_configs s ! i in
      case bump_channel_count (dc_can_id cfg) s of (n, s1) \<Rightarrow>
      case clock_ts os s1 of (ts, s2) \<Rightarrow>
        (let p = \<lparr>cp_head = 0x499602D2, cp_direction = 1, cp_type = dc_can_type cfg, cp_length = 0x30,
                  cp_ch_id = dc_can_id cfg, cp_total_count = next_total_count (data_counter s),
                  cp_ch_count = n, cp_baud_rate = dc_baud_rate cfg, cp_mode = dc_mode cfg,
                  cp_auto_send = 1, cp_ier = 0, cp_Packet_Interval = 0,
                  cp_CAN_DATA_MODE = ucast (dc_can_type (can_configs s ! unat (dc_can_id cfg))),
                  cp_reserved = replicate 6 0, cp_timestamp = usec_of ts, cp_xor_checksum = 0\<rparr>
         in (p\<lparr>cp_xor_checksum := calculate_xor_checksum (Some (can_config_bytes p)) 44\<rparr>, s2)))"

fun info_entries :: "os \<Rightarrow> nat list \<Rightarrow> server \<Rightarrow> CanConfigParam list \<times> server" where
  "info_entries os [] s = ([], s)"
| "info_entries os (i # is) s =
     (case info_entry os i s of (p, s1) \<Rightarrow> case info_entries os is s1 of (ps, s2) \<Rightarrow> (p # ps, s2))"

definition info_response_header :: "u32 \<Rightarrow> u16 \<Rightarrow> u32 \<Rightarrow> byte list" where
  "info_response_header response_size count checksum =
     le_bytes 4 (reverse_4bytes ACK_SYNC_WORD) @ le_bytes 4 (reverse_4bytes response_size) @
     le_bytes 2 count @ le_bytes 2 (reverse_2bytes 0x0102) @ le_bytes 4 checksum"

definition send_can_info_response :: "os \<Rightarrow> CanConfigParam list \<Rightarrow> server \<Rightarrow> server" where
  "send_can_info_response os devices s =
     (if data_upload_socket s = -1 then s
      else if \<not> os_malloc os (sys_calls s) then s\<lparr>sys_calls := Suc (sys_calls s)\<rparr>
      else let s1 = s\<lparr>sys_calls := Suc (sys_calls s), data_counter := data_counter s + 1\<rparr>;
               body = concat (map can_config_bytes devices);
               response_size = 16 + 48 * length devices;
               head = info_response_header (of_nat response_size) (data_counter s1);
               checksum = calculate_xor_checksum (Some (head 0 @ body)) (response_size - 4)
           in upload_send os (head checksum @ body) s1)"

definition handle_can_info_query :: "os \<Rightarrow> int \<Rightarrow> ReqPacket \<Rightarrow> server \<Rightarrow> server" where
  "handle_can_info_query os sock req s =
     (if u32_at (rq_data req) 0 \<noteq> 0xFFFFFFFF then send_error os ''RECEIVE DATA NOT 0XFFFFFFFF'' s
      else case info_entries os [0..<AXICAN_MAX] s of (devices, s1) \<Rightarrow>
        snd (sys_send os sock (map of_char ''CAN info query processed, result sent via port 9010'')
               (send_can_info_response os devices s1)))"

section \<open>Buffer query and report\<close>

definition query_channel :: "server \<Rightarrow> nat \<Rightarrow> CanBufRemainingResponse" where
  "query_channel s ch =
     \<lparr>br_channel = of_nat ch,
      br_normal_buf_remaining = ringbuffer_32ch_avail (Some (g_data_buf_set s)) (of_nat ch) 32,
      br_pulse_buf_remaining = broadcast_buffer_available (of_nat ch) s,
      br_sim_buf_remaining = ringbuffer_32ch_avail (Some (g_simulator_buf_set s)) (of_nat ch) 32,
      br_dmaddr_space = 0xFFFFFFFF, br_vfifo_space = 0xFFFFFFFF, br_axififo_space = 0xFFFFFFFF\<rparr>"

definition zero_remaining :: CanBufRemainingResponse where
  "zero_remaining = \<lparr>br_channel = 0, br_normal_buf_remaining = 0, br_pulse_buf_remaining = 0,
     br_sim_buf_remaining = 0, br_dmaddr_space = 0, br_vfifo_space = 0, br_axififo_space = 0\<rparr>"

definition handle_can_buf_query :: "os \<Rightarrow> ReqPacket \<Rightarrow> server \<Rightarrow> server" where
  "handle_can_buf_query os req s =
     (if u32_at (rq_data req) 0 \<noteq> 0xFFFFFFFF then send_error os ''Invalid buffer type (must be 1~3)'' s
      else let multi_response =
                 \<lparr>mc_head = 0, mc_length = 0, mc_count = 0, mc_commond = 0, mc_checksum = 0,
                  mc_channels = map (query_channel s) [0..<AXICAN_MAX] @ replicate 26 zero_remaining\<rparr>
           in if data_upload_socket s = -1 then s
              else upload_send os (multi_buf_bytes multi_response) s)"

text \<open>One round of the report thread; it reads the rings of the six channels directly.\<close>

definition report_channel :: "server \<Rightarrow> nat \<Rightarrow> CanBufRemainingResponse" where
  "report_channel s ch =
     (if ch < AXICAN_MAX
      then \<lparr>br_channel = of_nat ch,
            br_normal_buf_remaining = ringbuffer_avail (channel_of (g_data_buf_set s) (of_nat ch)),
            br_pulse_buf_remaining = broadcast_buffer_available (of_nat ch) s,
            br_sim_buf_remaining = ringbuffer_avail (channel_of (g_simulator_buf_set s) (of_nat ch)),
            br_dmaddr_space = 0xFFFFFFFF, br_vfifo_space = 0xFFFFFFFF, br_axififo_space = 0xFFFFFFFF\<rparr>
      else \<lparr>br_channel = of_nat ch, br_normal_buf_remaining = 0xFFFFFFFF, br_pulse_buf_remaining = 0xFFFFFFFF,
            br_sim_buf_remaining = 0xFFFFFFFF, br_dmaddr_space = 0xFFFFFFFF, br_vfifo_space = 0xFFFFFFFF,
            br_axififo_space = 0xFFFFFFFF\<rparr>)"

definition buffer_report_round :: "os \<Rightarrow> server \<Rightarrow> server" where
  "buffer_report_round os s =
     (let head = \<lparr>mc_head = reverse_4bytes ACK_SYNC_WORD, mc_length = reverse_4bytes (32 * 25), mc_count = 0,
                  mc_commond = reverse_2bytes 0x0100, mc_checksum = 0, mc_channels = []\<rparr>;
          upload_data = head\<lparr>mc_checksum := calculate_xor_checksum (Some (multi_buf_bytes head)) 12,
                             mc_channels := map (report_channel s) [0..<32]\<rparr>
      in if data_download_socket s = -1 then s
         else case sys_send os (data_download_socket s) (multi_buf_bytes upload_data) s of (n, s1) \<Rightarrow>
           if n \<noteq> 816 then (sys_shutdown (data_download_socket s1) s1)\<lparr>data_download_socket := -1\<rparr>
           else s1)"

section \<open>Start, stop and version\<close>

definition handle_can_start_stop :: "os \<Rightarrow> ReqPacket \<Rightarrow> server \<Rightarrow> server" where
  "handle_can_start_stop os req s =
     (let can_id = u32_at (rq_data req) 0;
          host_data = reverse_4bytes (u32_at (rq_data req) 4)
      in if unat can_id \<ge> AXICAN_MAX
         then send_start_stop_response os 1 (send_error os ''Invalid CAN ID for start/stop'' s)
         else if host_data = 0xAA
         then send_start_stop_response os 0
                (update_config (ucast can_id) (\<lambda>c. c\<lparr>dc_state := CAN_STATE_OPENED\<rparr>) s)
         else if host_data = 0xBB
         then send_start_stop_response os 0
                (update_config (ucast can_id) (\<lambda>c. c\<lparr>dc_state := CAN_STATE_CLOSED\<rparr>) s)
         else send_start_stop_response os 1
                (send_error os ''Invalid CAN state (expected open/close)'' s))"

definition handle_version_query :: "os \<Rightarrow> ReqPacket option \<Rightarrow> server \<Rightarrow> server" where
  "handle_version_query os req s =
     (case req of
        None \<Rightarrow> send_version_query_response os 0 0xFFFFFFFF s
      | Some r \<Rightarrow>
          if reverse_4bytes (rq_data_len r) \<noteq> 4
          then send_version_query_response os (rq_counter r) 0xFFFFFFFF s
          else let query_type = reverse_4bytes (u32_at (rq_data r) 0);
                   result = (if query_type = 0xAA then 0x20260701
                             else if query_type = 0xBB then 0xFFFFFFFF
                             else if query_type = 0xAC then 1
                             else 0xFFFFFFFF)
               in send_version_query_response os (rq_counter r) result s)"

section \<open>Accounting of the receive buffer\<close>

definition adjust_tcp_buffer_total :: "u32 \<Rightarrow> server \<Rightarrow> bool \<times> server" where
  "adjust_tcp_buffer_total new_total s =
     (if new_total < g_tcp_buffer_used s then (False, s)
      else (True, s\<lparr>g_tcp_buffer_total := new_total\<rparr>))"

text \<open>The argument is a signed 32-bit size; the sum of the first branch wraps.\<close>

definition update_tcp_buffer_usage :: "int \<Rightarrow> server \<Rightarrow> server" where
  "update_tcp_buffer_usage bytes s =
     (if bytes > 0
      then let used = g_tcp_buffer_used s + of_int bytes
           in s\<lparr>g_tcp_buffer_used := (if used > 4096 then 4096 else used)\<rparr>
      else if bytes < 0
      then let processed = of_int (- bytes) :: u32
           in s\<lparr>g_tcp_buffer_used :=
                  (if g_tcp_buffer_used s \<ge> processed then g_tcp_buffer_used s - processed else 0)\<rparr>
      else s)"

section \<open>Lemmas\<close>

lemma update_config_nth:
  "i < length (can_configs s) \<Longrightarrow>
   can_configs (update_config ch f s) ! i = (if i = unat ch then f (can_configs s ! i) else can_configs s ! i)"
  by (auto simp: update_config_def nth_list_update)

lemma unat_ucast_small: "unat w < 6 \<Longrightarrow> unat (ucast (w :: u32) :: u8) = unat w"
  by (simp add: unsigned_ucast_eq take_bit_nat_eq_self)

lemma send_response_take16:
  "take 16 (send_response_bytes r) = le_bytes 4 (rs_HEAD r) @ le_bytes 4 (rs_LENGTH r) @ le_bytes 2 (rs_COUNT r) @
     le_bytes 2 (rs_COMMOND r) @ le_bytes 4 (rs_Checksum r)"
  by (simp add: send_response_bytes_def)

lemma response_checksum_words:
  "response_checksum r = xor_words (take 16 (send_response_bytes r))"
  by (simp add: response_checksum_def checksum_eq_words)

section \<open>Properties\<close>

text \<open>
  C37.  Start and stop act on the addressed channel only: an open or close request for an existing channel
  sets the state of that channel and of no other, any other value or channel leaves the table as it was,
  and the answer goes out with status 0 exactly when the request was obeyed.
\<close>

theorem start_stop_effect:
  fixes req :: ReqPacket and os :: os
  assumes "length (can_configs s) = AXICAN_MAX"
  defines "ch \<equiv> unat (u32_at (rq_data req) 0)" and "v \<equiv> reverse_4bytes (u32_at (rq_data req) 4)"
    and "t \<equiv> handle_can_start_stop os req s"
  shows "(\<forall>i < AXICAN_MAX. can_configs t ! i =
      (if i = ch \<and> v = 0xAA then (can_configs s ! i)\<lparr>dc_state := CAN_STATE_OPENED\<rparr>
       else if i = ch \<and> v = 0xBB then (can_configs s ! i)\<lparr>dc_state := CAN_STATE_CLOSED\<rparr>
       else can_configs s ! i)) \<and>
    (\<exists>s1. t = send_start_stop_response os (if ch < AXICAN_MAX \<and> (v = 0xAA \<or> v = 0xBB) then 0 else 1) s1)"
proof
  show "\<forall>i < AXICAN_MAX. can_configs t ! i =
      (if i = ch \<and> v = 0xAA then (can_configs s ! i)\<lparr>dc_state := CAN_STATE_OPENED\<rparr>
       else if i = ch \<and> v = 0xBB then (can_configs s ! i)\<lparr>dc_state := CAN_STATE_CLOSED\<rparr>
       else can_configs s ! i)"
    using assms(1) unat_ucast_small[of "u32_at (rq_data req) 0"]
    by (auto simp: t_def ch_def v_def handle_can_start_stop_def Let_def update_config_nth not_le)
  show "\<exists>s1. t = send_start_stop_response os (if ch < AXICAN_MAX \<and> (v = 0xAA \<or> v = 0xBB) then 0 else 1) s1"
    by (auto simp: t_def ch_def v_def handle_can_start_stop_def Let_def not_le)
qed

theorem start_stop_effect_witness:
  "dc_state (can_configs (handle_can_start_stop demo_os
     (demo_config\<lparr>rq_data := le_bytes 4 (3 :: u32) @ [0, 0, 0, 0xBB]\<rparr>) demo_server) ! 3) = CAN_STATE_CLOSED"
proof -
  let ?r = "demo_config\<lparr>rq_data := le_bytes 4 (3 :: u32) @ [0, 0, 0, 0xBB]\<rparr>"
  have l: "length (can_configs demo_server) = 6" by (simp add: demo_server_def)
  have v: "reverse_4bytes (u32_at (rq_data ?r) 4) = 0xBB" by code_simp
  have c: "unat (u32_at (rq_data ?r) 0) = 3" by (simp add: u32_at_def)
  from start_stop_effect[OF l, where req = ?r and os = demo_os] show ?thesis unfolding v c by simp
qed


definition demo_param :: CanConfigParam where
  "demo_param = (can_config_of (replicate 48 0))\<lparr>cp_baud_rate := 500000, cp_mode := 2, cp_ch_id := 1\<rparr>"


text \<open>
  The status word of an acknowledgement is not protected: the checksum of a start/stop, broadcast or
  configuration answer is computed over the first 16 bytes, before the status word, so that answers that differ
  in the status only carry the same checksum; it detects a change of any other field.
\<close>

lemma response_checksum_ignores_status:
  "response_checksum (r\<lparr>rs_STATUS := x\<rparr>) = response_checksum r \<and>
   (response_checksum (r\<lparr>rs_HEAD := y\<rparr>) = response_checksum r \<longleftrightarrow> y = rs_HEAD r) \<and>
   (response_checksum (r\<lparr>rs_LENGTH := z\<rparr>) = response_checksum r \<longleftrightarrow> z = rs_LENGTH r)"
proof -
  have w: "xor_words (le_bytes 4 w @ bs) = w XOR xor_words bs" for w bs
    by (simp add: xor_words_append xor_words_short)
  show ?thesis
    by (auto simp: response_checksum_words send_response_take16 w)
qed

text \<open>
  The free space reported for a channel is the free space of its queues: for a well-formed set the
  reported number is the capacity of the channel less the number of queued elements, and 0 when the
  channel does not exist.
\<close>

lemma reported_space_is_free_space:
  assumes "set_inv (g_data_buf_set s)" and "set_inv (g_bcast_group_buf_set s)"
  shows "unat (br_normal_buf_remaining (query_channel s i)) =
      ch_room (of_nat i) 32 (g_data_buf_set s) - length (ch_view (of_nat i) 32 (g_data_buf_set s)) \<and>
    unat (br_pulse_buf_remaining (query_channel s i)) =
      ch_room (of_nat i) 6 (g_bcast_group_buf_set s) - length (ch_view (of_nat i) 6 (g_bcast_group_buf_set s))"
  using ch32_avail[OF assms(1)] ch32_avail[OF assms(2)]
  by (simp add: query_channel_def broadcast_buffer_available_def ch_room_def ch_view_def)

end
