(* ===== verification/Stream_Spec.thy ===== *)
theory Stream_Spec
  imports Can_Prelude
begin

text \<open>
  The interface of the two byte-stream parsers of the program.  A parser looks at the bytes buffered so
  far and decides: it needs more, the first byte cannot start a packet and is skipped, or a complete packet
  of a given length is at the front.  The locale \<open>framed_stream\<close> states what such a parser promises, the
  decisive law being that a decision, once taken, does not depend on bytes that arrive later.  From these
  laws the locale derives that the way a stream is cut into chunks by the network does not
  matter, that the buffer always has room again when the parser stops and that noise before a packet is
  skipped.
\<close>

datatype verdict = Need | Skip | Packet nat

locale framed_stream =
  fixes verdict :: "byte list \<Rightarrow> verdict"
    and handle :: "byte list \<Rightarrow> 's \<Rightarrow> 's"
    and drain :: "byte list \<Rightarrow> 's \<Rightarrow> byte list \<times> 's"
    and bound :: nat
  assumes stable: "verdict b \<noteq> Need \<Longrightarrow> verdict (b @ c) = verdict b"
    and skip_law: "verdict b = Skip \<Longrightarrow> b \<noteq> []"
    and packet_law: "verdict b = Packet n \<Longrightarrow> 0 < n \<and> n \<le> length b"
    and need_bound: "verdict b = Need \<Longrightarrow> length b < bound"
    and drain_need: "verdict b = Need \<Longrightarrow> drain b s = (b, s)"
    and drain_skip: "verdict b = Skip \<Longrightarrow> drain b s = drain (drop 1 b) s"
    and drain_packet: "verdict b = Packet n \<Longrightarrow> drain b s = drain (drop n b) (handle (take n b) s)"
begin

lemma drain_stops:
  "\<exists>b' s'. drain b s = (b', s') \<and> verdict b' = Need"
proof (induction "length b" arbitrary: b s rule: less_induct)
  case less
  show ?case
  proof (cases "verdict b")
    case Need
    then show ?thesis using drain_need by blast
  next
    case Skip
    then have "length (drop 1 b) < length b" using skip_law by simp
    then show ?thesis using less drain_skip[OF Skip] by metis
  next
    case (Packet n)
    then have "length (drop n b) < length b" using packet_law[OF Packet] by auto
    then show ?thesis using less drain_packet[OF Packet] by metis
  qed
qed

lemma drain_bound: "drain b s = (b', s') \<Longrightarrow> verdict b' = Need \<and> length b' < bound"
  using drain_stops[of b s] need_bound by auto

lemma drain_append:
  "drain (b @ c) s = (case drain b s of (b', s') \<Rightarrow> drain (b' @ c) s')"
proof (induction "length b" arbitrary: b s rule: less_induct)
  case less
  show ?case
  proof (cases "verdict b")
    case Need
    then show ?thesis by (simp add: drain_need)
  next
    case Skip
    then have v: "verdict (b @ c) = Skip" using stable by simp
    have "length (drop 1 b) < length b" using skip_law[OF Skip] by simp
    moreover have "drop 1 (b @ c) = drop 1 b @ c" using skip_law[OF Skip] by (cases b) simp_all
    ultimately show ?thesis using less drain_skip[OF v] drain_skip[OF Skip] by metis
  next
    case (Packet n)
    then have v: "verdict (b @ c) = Packet n" using stable by simp
    have "length (drop n b) < length b" using packet_law[OF Packet] by auto
    moreover have "drop n (b @ c) = drop n b @ c" "take n (b @ c) = take n b"
      using packet_law[OF Packet] by simp_all
    ultimately show ?thesis using less drain_packet[OF v] drain_packet[OF Packet] by metis
  qed
qed

lemma drain_chunks:
  "verdict b = Need \<Longrightarrow>
   fold (\<lambda>chunk (b, s). drain (b @ chunk) s) chunks (b, s) = drain (b @ concat chunks) s"
proof (induction chunks arbitrary: b s)
  case Nil
  then show ?case by (simp add: drain_need)
next
  case (Cons c cs)
  obtain b1 s1 where d: "drain (b @ c) s = (b1, s1)" "verdict b1 = Need" using drain_stops by blast
  have "fold (\<lambda>chunk (b, s). drain (b @ chunk) s) (c # cs) (b, s) = drain (b1 @ concat cs) s1"
    using Cons.IH[OF d(2)] by (simp add: d(1))
  also have "\<dots> = drain ((b @ c) @ concat cs) s" using drain_append[of "b @ c" "concat cs" s] d(1) by simp
  finally show ?case by simp
qed

lemma noise_skipped:
  "(\<And>k. k < length noise \<Longrightarrow> verdict (drop k noise @ b) = Skip) \<Longrightarrow> drain (noise @ b) s = drain b s"
proof (induction noise)
  case (Cons x xs)
  have "verdict ((x # xs) @ b) = Skip" using Cons.prems[of 0] by simp
  then have "drain ((x # xs) @ b) s = drain (xs @ b) s" using drain_skip by fastforce
  also have "\<dots> = drain b s"
  proof (rule Cons.IH)
    fix k assume "k < length xs"
    then show "verdict (drop k xs @ b) = Skip" using Cons.prems[of "Suc k"] by simp
  qed
  finally show ?case .
qed simp

lemma packets_handled:
  "(\<And>p c. p \<in> set ps \<Longrightarrow> verdict (p @ c) = Packet (length p)) \<Longrightarrow> verdict rest = Need \<Longrightarrow>
   drain (concat ps @ rest) s = (rest, fold handle ps s)"
proof (induction ps arbitrary: s)
  case Nil
  then show ?case by (simp add: drain_need)
next
  case (Cons p ps)
  have "verdict (p @ concat ps @ rest) = Packet (length p)" using Cons.prems(1) by simp
  from drain_packet[OF this] have "drain (concat (p # ps) @ rest) s = drain (concat ps @ rest) (handle p s)"
    by simp
  then show ?case using Cons by simp
qed

end

end
