(* ===== verification/Command_Stream.thy ===== *)
theory Command_Stream
  imports Commands Stream_Spec
begin

text \<open>
  The command connection (port 9009, \<^verbatim>\<open>src/main18.c\<close>): recognition of a request in the receive buffer,
  resynchronisation after damaged bytes, dispatch to the handlers and the receive loop of a client.
  The buffer is the list of the bytes received and not yet consumed; moving the rest of the buffer to the
  front is dropping the consumed prefix.
\<close>

section \<open>Recognising a request\<close>

datatype ParseStatus = PARSE_SUCCESS | PARSE_ERR_SYNC | PARSE_ERR_LEN | PARSE_ERR_CHECKSUM | PARSE_NEED_MORE

definition parse_request_packet :: "byte list option \<Rightarrow> ParseStatus \<times> ReqPacket option" where
  "parse_request_packet buffer =
     (case buffer of
        None \<Rightarrow> (PARSE_ERR_LEN, None)
      | Some b \<Rightarrow>
          if length b < 16 then (PARSE_NEED_MORE, None)
          else let header = req_packet_of b in
            if reverse_4bytes (rq_sync_word header) \<noteq> REQ_SYNC_WORD then (PARSE_ERR_SYNC, None)
            else if rq_checksum header \<noteq> u32_at b 0 XOR u32_at b 4 XOR u32_at b 8
            then (PARSE_ERR_CHECKSUM, None)
            else let payload_len = unat (reverse_4bytes (rq_data_len header)) in
              if payload_len > 4096 - 16 then (PARSE_ERR_LEN, None)
              else if payload_len > length b - 16 then (PARSE_NEED_MORE, None)
              else (PARSE_SUCCESS, Some header))"

definition command_min_payload_size :: "u16 \<Rightarrow> nat" where
  "command_min_payload_size command =
     (if command = 0x0101 then 48
      else if command = 0x0102 then 4
      else if command = 0x0100 then 4
      else if command = 0x0103 then 8
      else if command = 0x0104 then 40
      else 0)"

section \<open>Dispatch\<close>

definition dispatch_command :: "os \<Rightarrow> int \<Rightarrow> ReqPacket \<Rightarrow> server \<Rightarrow> server" where
  "dispatch_command os sock req s =
     (let payload_len = unat (reverse_4bytes (rq_data_len req));
          command = reverse_2bytes (rq_cmd_type req)
      in if payload_len < command_min_payload_size command then s
         else if command = 0x0101 then handle_can_config os req s
         else if command = 0x0102 then handle_can_info_query os sock req s
         else if command = 0x0100 then handle_can_buf_query os req s
         else if command = 0x0103 then handle_can_start_stop os req s
         else if command = 0x0104 then handle_broadcast_config os (Some req) s
         else if command = 0xFF05 then handle_version_query os (Some req) s
         else send_error os ''Unknown CAN command'' s)"

function command_drain :: "os \<Rightarrow> int \<Rightarrow> byte list \<Rightarrow> server \<Rightarrow> byte list \<times> server" where
  "command_drain os sock buffer s =
     (if length buffer < 16 then (buffer, s)
      else case parse_request_packet (Some buffer) of
        (PARSE_NEED_MORE, _) \<Rightarrow> (buffer, s)
      | (PARSE_SUCCESS, Some req) \<Rightarrow>
          (let packet_len = 16 + unat (reverse_4bytes (rq_data_len req))
           in command_drain os sock (drop packet_len buffer)
                (dispatch_command os sock (req_packet_of (take packet_len buffer)) s))
      | _ \<Rightarrow> command_drain os sock (drop 1 buffer) s)"
  by pat_completeness auto
termination
  by (relation "measure (\<lambda>(os, sock, buffer, s). length buffer)") auto

declare command_drain.simps [simp del]

section \<open>The receive loop of one client\<close>

datatype recv_result = Received "byte list" | Interrupted | Failed | Eof

text \<open>
  The list is what successive calls of \<^verbatim>\<open>recv\<close> return; when it is exhausted the thread is blocked
  in the call and the result says so.
\<close>

fun command_client ::
    "os \<Rightarrow> int \<Rightarrow> recv_result list \<Rightarrow> byte list \<times> server \<Rightarrow> bool \<times> byte list \<times> server" where
  "command_client os sock rs (buffer, s) =
     (if \<not> running s then (False, buffer, s\<lparr>sys_trace := sys_trace s @ [Closed sock]\<rparr>)
      else case rs of
        [] \<Rightarrow> (True, buffer, s)
      | Interrupted # rs' \<Rightarrow> command_client os sock rs' (buffer, s)
      | Failed # rs' \<Rightarrow>
          (let s1 = send_error os ''9009 port recv failed'' s
           in (False, buffer, s1\<lparr>sys_trace := sys_trace s1 @ [Closed sock]\<rparr>))
      | Eof # rs' \<Rightarrow> (False, buffer, s\<lparr>sys_trace := sys_trace s @ [Closed sock]\<rparr>)
      | Received bytes # rs' \<Rightarrow> command_client os sock rs' (command_drain os sock (buffer @ bytes) s))"

declare command_client.simps [simp del]

section \<open>The parser is a framed stream\<close>

definition command_verdict :: "byte list \<Rightarrow> verdict" where
  "command_verdict b =
     (case parse_request_packet (Some b) of
        (PARSE_NEED_MORE, _) \<Rightarrow> Need
      | (PARSE_SUCCESS, Some req) \<Rightarrow> Packet (16 + unat (reverse_4bytes (rq_data_len req)))
      | _ \<Rightarrow> Skip)"

definition command_handle :: "os \<Rightarrow> int \<Rightarrow> byte list \<Rightarrow> server \<Rightarrow> server" where
  "command_handle os sock p s = dispatch_command os sock (req_packet_of p) s"

lemma at_append:
  "k + 2 \<le> length b \<Longrightarrow> u16_at (b @ c) k = u16_at b k"
  "k + 4 \<le> length b \<Longrightarrow> u32_at (b @ c) k = u32_at b k"
  by (simp_all add: u16_at_def u32_at_def)

lemma command_verdict_alt:
  "command_verdict b =
    (if length b < 16 then Need
     else if reverse_4bytes (u32_at b 0) \<noteq> REQ_SYNC_WORD then Skip
     else if u32_at b 12 \<noteq> u32_at b 0 XOR u32_at b 4 XOR u32_at b 8 then Skip
     else if unat (reverse_4bytes (u32_at b 4)) > 4080 then Skip
     else if length b < 16 + unat (reverse_4bytes (u32_at b 4)) then Need
     else Packet (16 + unat (reverse_4bytes (u32_at b 4))))"
  by (auto simp: command_verdict_def parse_request_packet_def req_packet_of_def Let_def)

lemma command_drain_alt:
  "command_drain os sock b s =
    (case command_verdict b of Need \<Rightarrow> (b, s) | Skip \<Rightarrow> command_drain os sock (drop 1 b) s
     | Packet n \<Rightarrow> command_drain os sock (drop n b) (command_handle os sock (take n b) s))"
  by (subst command_drain.simps)
    (auto simp: command_verdict_def command_handle_def parse_request_packet_def Let_def)

interpretation cmd: framed_stream command_verdict "command_handle os sock" "command_drain os sock" 4096
  for os sock
proof (unfold_locales, goal_cases)
  case (1 b c)
  then have l: "\<not> length b < 16" by (auto simp: command_verdict_alt)
  then show ?case
    using 1 unfolding command_verdict_alt by (simp add: at_append split: if_splits)
qed (auto simp: command_verdict_alt command_drain_alt split: if_splits)

section \<open>Commands keep the state well formed\<close>

text \<open>
  What the handlers rely on when they index the per-channel tables: six entries each, and every recorded
  channel number below six.
\<close>

definition ctrl_ok :: "server \<Rightarrow> bool" where
  "ctrl_ok s \<longleftrightarrow> bcast_inv s \<and> length (channel_frame_count s) = AXICAN_MAX \<and>
     (\<forall>c \<in> set (can_configs s). unat (dc_can_id c) < AXICAN_MAX)"

text \<open>\<open>ctrl_keeps f\<close>: the operation \<open>f\<close> keeps the state well formed and does not stop the server.\<close>

definition ctrl_keeps :: "(server \<Rightarrow> server) \<Rightarrow> bool" where
  "ctrl_keeps f \<longleftrightarrow> (\<forall>s. (ctrl_ok s \<longrightarrow> ctrl_ok (f s)) \<and> running (f s) = running s)"

lemma ctrl_keeps_same:
  assumes "\<And>s. bcast_same s (f s)" "\<And>s. length (channel_frame_count (f s)) = length (channel_frame_count s)"
    "\<And>s. running (f s) = running s"
  shows "ctrl_keeps f"
proof -
  have "bcast_inv (f s) = bcast_inv s" "can_configs (f s) = can_configs s" for s
    using bcast_same_inv[OF assms(1)] assms(1)[of s] by (simp_all add: bcast_same_def)
  then show ?thesis using assms(2,3) by (simp add: ctrl_keeps_def ctrl_ok_def)
qed

lemma ctrl_keeps_comp: "ctrl_keeps f \<Longrightarrow> ctrl_keeps g \<Longrightarrow> ctrl_keeps (\<lambda>s. f (g s))"
  by (simp add: ctrl_keeps_def)

lemma ctrl_keeps_id: "ctrl_keeps (\<lambda>s. s)"
  by (simp add: ctrl_keeps_def)

lemma ctrl_keeps_senders:
  "ctrl_keeps (send_event os l e m)" "ctrl_keeps (upload_send os bytes)"
  "ctrl_keeps (send_start_stop_response os st)" "ctrl_keeps (send_can_config_response os ch w)"
  "ctrl_keeps (send_version_query_response os c v)" "ctrl_keeps (send_broadcast_config_response os st)"
  "ctrl_keeps (\<lambda>s. snd (sys_send os sock bytes s))" "ctrl_keeps (\<lambda>s. snd (sys_ioctl os x s))"
  by (rule ctrl_keeps_same; simp add: bcast_same_def sys_send_def sys_ioctl_def)+

lemma ctrl_keeps_update:
  assumes "\<And>c. unat (dc_can_id c) < 6 \<Longrightarrow> unat (dc_can_id (f c)) < 6" "unat ch < 6"
  shows "ctrl_keeps (update_config ch f)"
proof -
  have "ctrl_ok (update_config ch f s)" if "ctrl_ok s" for s
  proof -
    have l: "length (can_configs s) = 6" using that by (simp add: ctrl_ok_def bcast_inv_def)
    then have "can_configs s ! unat ch \<in> set (can_configs s)" using assms(2) by simp
    then have "unat (dc_can_id (f (can_configs s ! unat ch))) < 6" using that assms(1) by (simp add: ctrl_ok_def)
    moreover have "bcast_inv (update_config ch f s) = bcast_inv s"
      by (simp add: update_config_def bcast_inv_def bcast_queue_def)
    ultimately show ?thesis
      using that set_update_subset_insert[of "can_configs s" "unat ch"]
      by (auto simp: ctrl_ok_def update_config_def)
  qed
  then show ?thesis by (simp add: ctrl_keeps_def update_config_def)
qed

lemma ctrl_keeps_if: "ctrl_keeps f \<Longrightarrow> ctrl_keeps g \<Longrightarrow> ctrl_keeps (\<lambda>s. if P s then f s else g s)"
  by (simp add: ctrl_keeps_def)

lemma ctrl_keepsD: "ctrl_keeps f \<Longrightarrow> ctrl_ok s \<Longrightarrow> ctrl_ok (f s)" "ctrl_keeps f \<Longrightarrow> running (f s) = running s"
  by (simp_all add: ctrl_keeps_def)

lemma ctrl_keeps_baud: "unat (cp_ch_id p) < 6 \<Longrightarrow> ctrl_keeps (\<lambda>s. snd (config_baud os strict fd p s))"
  using ctrl_keepsD[OF ctrl_keeps_senders(1)] ctrl_keepsD[OF ctrl_keeps_senders(8)]
    ctrl_keepsD[OF ctrl_keeps_update[of "\<lambda>c. c\<lparr>dc_baud_rate := cp_baud_rate p\<rparr>" "cp_ch_id p"]]
  by (simp add: ctrl_keeps_def config_baud_def axican_set_baud_def Let_def split_beta)

lemma ctrl_keeps_mode: "ctrl_keeps (\<lambda>s. snd (config_mode os strict fd p s))"
  using ctrl_keepsD[OF ctrl_keeps_senders(1)] ctrl_keepsD[OF ctrl_keeps_senders(8)]
  by (simp add: ctrl_keeps_def config_mode_def axican_set_mode_def Let_def split_beta)

lemma ctrl_keeps_device: "unat (cp_ch_id p) < 6 \<Longrightarrow> ctrl_keeps (config_device os strict p)"
  using ctrl_keepsD[OF ctrl_keeps_baud] ctrl_keepsD[OF ctrl_keeps_mode] ctrl_keepsD[OF ctrl_keeps_senders(4)]
  by (simp add: ctrl_keeps_def config_device_def Let_def split_beta)

lemma ctrl_keeps_config: "ctrl_keeps (handle_can_config os req)"
proof -
  let ?p = "can_config_of (rq_data req)"
  let ?f = "\<lambda>c. c\<lparr>dc_can_id := cp_ch_id ?p, dc_valid := 1, dc_can_type := ucast (cp_CAN_DATA_MODE ?p)\<rparr>"
  show ?thesis
    using ctrl_keepsD[OF ctrl_keeps_device[of ?p]] ctrl_keepsD[OF ctrl_keeps_senders(1)]
      ctrl_keepsD[OF ctrl_keeps_update[of ?f "cp_ch_id ?p"]]
    by (auto simp: ctrl_keeps_def handle_can_config_def Let_def not_le)
qed

lemma ctrl_keeps_info_entry: "ctrl_keeps (\<lambda>s. snd (info_entry os i s))"
  by (rule ctrl_keeps_same)
    (simp_all add: bcast_same_def info_entry_def bump_channel_count_def send_defs split: option.split)

lemma ctrl_keeps_info_entries: "ctrl_keeps (\<lambda>s. snd (info_entries os is s))"
proof -
  have "(ctrl_ok s \<longrightarrow> ctrl_ok (snd (info_entries os is s))) \<and> running (snd (info_entries os is s)) = running s" for s
    using ctrl_keepsD[OF ctrl_keeps_info_entry] by (induction "is" arbitrary: s) (simp_all add: split_beta)
  then show ?thesis by (simp add: ctrl_keeps_def)
qed

lemma ctrl_keeps_info: "ctrl_keeps (handle_can_info_query os sock req)"
proof -
  have r: "ctrl_keeps (send_can_info_response os ds)" for ds
    by (rule ctrl_keeps_same) (simp_all add: bcast_same_def send_can_info_response_def Let_def)
  show ?thesis
    using ctrl_keepsD[OF r] ctrl_keepsD[OF ctrl_keeps_info_entries] ctrl_keepsD[OF ctrl_keeps_senders(1)]
      ctrl_keepsD[OF ctrl_keeps_senders(7)]
    by (simp add: ctrl_keeps_def handle_can_info_query_def split_beta)
qed

lemma ctrl_keeps_buf_query: "ctrl_keeps (handle_can_buf_query os req)"
  by (rule ctrl_keeps_same) (simp_all add: bcast_same_def handle_can_buf_query_def Let_def)

lemma ctrl_keeps_version: "ctrl_keeps (handle_version_query os req)"
  by (rule ctrl_keeps_same) (simp_all add: bcast_same_def handle_version_query_def Let_def split: option.split)

lemma ctrl_keeps_start_stop: "ctrl_keeps (handle_can_start_stop os req)"
proof -
  have u: "unat (ucast w :: u8) < 6" if "unat w < 6" for w :: u32
    using that by (simp add: unsigned_ucast_eq take_bit_nat_eq_self)
  note upd = ctrl_keeps_update[where f = "\<lambda>c. c\<lparr>dc_state := CAN_STATE_OPENED\<rparr>"]
    ctrl_keeps_update[where f = "\<lambda>c. c\<lparr>dc_state := CAN_STATE_CLOSED\<rparr>"]
  show ?thesis
    using ctrl_keepsD[OF upd(1)] ctrl_keepsD[OF upd(2)] ctrl_keepsD[OF ctrl_keeps_senders(1)]
      ctrl_keepsD[OF ctrl_keeps_senders(3)] u
    by (simp add: ctrl_keeps_def handle_can_start_stop_def Let_def not_le)
qed

lemma reset_frame:
  "channel_frame_count (reset_broadcast_buffers s) = channel_frame_count s"
  "running (reset_broadcast_buffers s) = running s" "can_configs (reset_broadcast_buffers s) = can_configs s"
proof -
  have "channel_frame_count (fold reset_broadcast_channel cs s) = channel_frame_count s \<and>
    running (fold reset_broadcast_channel cs s) = running s \<and>
    can_configs (fold reset_broadcast_channel cs s) = can_configs s" for cs
    by (induction cs arbitrary: s) (simp_all add: reset_broadcast_channel_def)
  then show "channel_frame_count (reset_broadcast_buffers s) = channel_frame_count s"
    "running (reset_broadcast_buffers s) = running s" "can_configs (reset_broadcast_buffers s) = can_configs s"
    by (simp_all add: reset_broadcast_buffers_def)
qed

lemma ctrl_keeps_broadcast: "ctrl_keeps (handle_broadcast_config os req)"
proof (cases "bcast_config_ok req")
  case True
  then obtain r where r: "req = Some r" by (auto simp: bcast_config_ok_def split: option.splits)
  show ?thesis
    using handle_config_laws[OF _ True[unfolded r] refl, of _ os] handle_config_accepted[OF True[unfolded r]]
    by (simp add: ctrl_keeps_def ctrl_ok_def r reset_frame)
next
  case False
  then have "\<exists>msg. \<forall>s. handle_broadcast_config os req s = bcast_reject os msg s"
    by (cases req) (auto simp: handle_broadcast_config_def bcast_config_ok_def split: option.splits)
  then obtain msg where m: "\<forall>s. handle_broadcast_config os req s = bcast_reject os msg s" by blast
  show ?thesis
    using ctrl_keeps_comp[OF ctrl_keeps_senders(6) ctrl_keeps_senders(1)]
    by (simp add: ctrl_keeps_def m bcast_reject_def)
qed

lemma ctrl_keeps_dispatch: "ctrl_keeps (dispatch_command os sock req)"
  using ctrl_keepsD[OF ctrl_keeps_config] ctrl_keepsD[OF ctrl_keeps_info] ctrl_keepsD[OF ctrl_keeps_buf_query]
    ctrl_keepsD[OF ctrl_keeps_start_stop] ctrl_keepsD[OF ctrl_keeps_broadcast]
    ctrl_keepsD[OF ctrl_keeps_version] ctrl_keepsD[OF ctrl_keeps_senders(1)]
  by (simp add: ctrl_keeps_def dispatch_command_def Let_def)

lemma command_drain_keeps: "ctrl_keeps (\<lambda>s. snd (command_drain os sock b s))"
proof -
  have "(ctrl_ok s \<longrightarrow> ctrl_ok (snd (command_drain os sock b s))) \<and>
    running (snd (command_drain os sock b s)) = running s" for s
  proof (induction "length b" arbitrary: b s rule: less_induct)
    case less
    show ?case
    proof (cases "command_verdict b")
      case Need
      then show ?thesis by (simp add: cmd.drain_need)
    next
      case Skip
      then show ?thesis using less[of "drop 1 b"] cmd.skip_law[OF Skip] by (simp add: cmd.drain_skip)
    next
      case (Packet n)
      then have "length (drop n b) < length b" using cmd.packet_law[OF Packet] by auto
      from less[OF this] show ?thesis
        using ctrl_keepsD[OF ctrl_keeps_dispatch] by (simp add: cmd.drain_packet[OF Packet] command_handle_def)
    qed
  qed
  then show ?thesis by (simp add: ctrl_keeps_def)
qed

lemma command_client_chunks:
  "running s \<Longrightarrow> command_verdict b = Need \<Longrightarrow>
   command_client os sock (map Received chunks) (b, s) = (True, command_drain os sock (b @ concat chunks) s)"
proof (induction chunks arbitrary: b s)
  case Nil
  then show ?case by (subst command_client.simps) (simp add: cmd.drain_need)
next
  case (Cons c cs)
  obtain b1 s1 where d: "command_drain os sock (b @ c) s = (b1, s1)" "command_verdict b1 = Need"
    using cmd.drain_stops by blast
  have "running s1" using ctrl_keepsD(2)[OF command_drain_keeps, of os sock "b @ c" s] d Cons.prems by simp
  then have "command_client os sock (map Received cs) (b1, s1) = (True, command_drain os sock (b1 @ concat cs) s1)"
    using Cons.IH d(2) by blast
  also have "\<dots> = (True, command_drain os sock ((b @ c) @ concat cs) s)"
    using cmd.drain_append[of os sock "b @ c" "concat cs" s] d(1) by simp
  finally show ?case using Cons.prems(1) d(1) by (subst command_client.simps) simp
qed

section \<open>Building requests\<close>

text \<open>What a host sends: header with the synchronisation word, length, counter, command and checksum.\<close>

definition encode_request :: "u16 \<Rightarrow> u16 \<Rightarrow> byte list \<Rightarrow> byte list" where
  "encode_request counter command payload =
     (let w0 = reverse_4bytes REQ_SYNC_WORD; w1 = reverse_4bytes (of_nat (length payload));
          w2 = le_word (le_bytes 2 counter @ le_bytes 2 (reverse_2bytes command)) :: u32
      in le_bytes 4 w0 @ le_bytes 4 w1 @ le_bytes 4 w2 @ le_bytes 4 (w0 XOR w1 XOR w2) @ payload)"

lemma u32_at_simps:
  "u32_at (le_bytes 4 a @ le_bytes 4 b @ le_bytes 4 c @ le_bytes 4 d @ r) 0 = a"
  "u32_at (le_bytes 4 a @ le_bytes 4 b @ le_bytes 4 c @ le_bytes 4 d @ r) 4 = b"
  "u32_at (le_bytes 4 a @ le_bytes 4 b @ le_bytes 4 c @ le_bytes 4 d @ r) 8 = c"
  "u32_at (le_bytes 4 a @ le_bytes 4 b @ le_bytes 4 c @ le_bytes 4 d @ r) 12 = d"
  by (simp_all add: u32_at_def)

lemma encode_request_verdict:
  assumes "length payload \<le> 4080"
  shows "command_verdict (encode_request counter command payload @ c)
    = Packet (length (encode_request counter command payload))"
proof -
  have "unat (of_nat (length payload) :: u32) = length payload" using assms by (simp add: unat_of_nat)
  then show ?thesis
    using assms by (simp add: command_verdict_alt encode_request_def Let_def u32_at_simps)
qed

lemma noise_verdict:
  assumes "noise \<noteq> []" "\<forall>x \<in> set noise. x \<noteq> 0x03" "16 \<le> length b"
  shows "command_verdict (noise @ b) = Skip"
proof -
  obtain x ys where x: "noise @ b = x # ys" "x \<noteq> 0x03" using assms(1,2) by (cases noise) auto
  have l: "16 \<le> length (x # ys)" using assms(3) by (simp flip: x(1))
  have "u32_at (x # ys) 0 = reverse_4bytes REQ_SYNC_WORD \<Longrightarrow> x = 0x03"
  proof -
    assume "u32_at (x # ys) 0 = reverse_4bytes REQ_SYNC_WORD"
    then have "le_bytes 4 (u32_at (x # ys) 0) = le_bytes 4 (reverse_4bytes REQ_SYNC_WORD)" by simp
    also have "le_bytes 4 (u32_at (x # ys) 0) = take 4 (x # ys)" using at_image(3)[of 0 "x # ys"] l by simp
    finally have "hd (take 4 (x # ys)) = hd (le_bytes 4 (reverse_4bytes REQ_SYNC_WORD))" by simp
    then show "x = 0x03" by (simp add: le_bytes_def reverse_4bytes_def upt_rec)
  qed
  then have "reverse_4bytes (u32_at (x # ys) 0) \<noteq> REQ_SYNC_WORD"
    using x(2) by (metis reverse_4bytes_involution)
  then show ?thesis using l by (simp add: x(1) command_verdict_alt)
qed

section \<open>Properties\<close>

text \<open>
  C13.  The division of the command stream into network segments is irrelevant: a client whose bytes arrive
  in any chunks is served exactly as if they had arrived at once; the same packets are dispatched, in the same
  order, with the same effects and the same bytes left over.  When the loop goes back to
  receive, fewer than 4096 bytes are buffered, so that the call always has room.
\<close>

theorem command_chunking_irrelevant:
  assumes "running s"
  shows "command_client os sock (map Received chunks) ([], s) = (True, command_drain os sock (concat chunks) s) \<and>
    length (fst (command_drain os sock (concat chunks) s)) < 4096"
proof -
  have "command_verdict [] = Need" by (simp add: command_verdict_alt)
  then show ?thesis
    using command_client_chunks[OF assms, of "[]" os sock chunks]
      cmd.drain_bound[of os sock "concat chunks" s] by (metis append_Nil prod.collapse)
qed

theorem command_chunking_irrelevant_witness:
  "command_client demo_os 5 [Received [3, 204], Received [240, 255]] ([], demo_server) = (True, [3, 204, 240, 255], demo_server)"
proof -
  have "running demo_server" by (simp add: demo_server_def boot_server_def)
  from command_chunking_irrelevant[OF this, of demo_os 5 "[[3, 204], [240, 255]]"]
  show ?thesis by (simp add: cmd.drain_need command_verdict_alt)
qed

text \<open>
  C29.  Requests are recovered from a damaged stream: after any noise without the first byte of the
  synchronisation word, a sequence of well-formed requests is dispatched completely and in order, each
  exactly once, and nothing is left in the buffer.
\<close>

theorem requests_dispatched_in_order:
  assumes "\<forall>x \<in> set noise. x \<noteq> 0x03" and "reqs \<noteq> []" and "\<forall>(n, c, p) \<in> set reqs. length p \<le> 4080"
  defines "packets \<equiv> map (\<lambda>(n, c, p). encode_request n c p) reqs"
  shows "command_drain os sock (noise @ concat packets) s =
    ([], fold (\<lambda>p s. dispatch_command os sock (req_packet_of p) s) packets s)"
proof -
  have ok: "command_verdict (p @ c) = Packet (length p)" if "p \<in> set packets" for p c
    using that assms(3) encode_request_verdict by (fastforce simp: packets_def)
  obtain n c p rs where r: "reqs = (n, c, p) # rs" using assms(2) by (metis list.exhaust prod_cases3)
  have l: "16 \<le> length (concat packets)" by (simp add: packets_def r encode_request_def Let_def)
  have "command_drain os sock (noise @ concat packets) s = command_drain os sock (concat packets) s"
  proof (rule cmd.noise_skipped)
    fix k assume "k < length noise"
    then show "command_verdict (drop k noise @ concat packets) = Skip"
      using assms(1) l by (intro noise_verdict) (auto dest: in_set_dropD)
  qed
  also have "\<dots> = ([], fold (command_handle os sock) packets s)"
    using cmd.packets_handled[of packets "[]" os sock s] ok by (simp add: command_verdict_alt)
  finally show ?thesis by (simp add: command_handle_def[abs_def])
qed

theorem requests_dispatched_in_order_witness:
  "fst (command_drain demo_os 5 ([1, 2] @ encode_request 7 0xFF05 [0, 0, 0, 0xAA]) demo_server) = []"
  using requests_dispatched_in_order[of "[1, 2]" "[(7, 0xFF05, [0, 0, 0, 0xAA])]" demo_os 5 demo_server] by simp

text \<open>
  No input on the command port can damage the server: whatever bytes a client sends, the scheduler
  invariant, the sizes of the per-channel tables and the validity of the recorded channel numbers are
  kept, and the server keeps running.
\<close>

lemma any_command_bytes_keep_state:
  assumes "ctrl_ok s"
  shows "ctrl_ok (snd (command_drain os sock bytes s)) \<and>
    running (snd (command_drain os sock bytes s)) = running s"
  using ctrl_keepsD[OF command_drain_keeps] assms by blast

end
