(* ===== verification/Download_Stream.thy ===== *)
theory Download_Stream
  imports Command_Stream
begin

text \<open>
  The download connection (port 9012, \<^verbatim>\<open>src/main18.c\<close>): recognition of data packets in the receive
  buffer, validation of the 48-byte CAN payloads, routing to the normal, broadcast, simulator and pulse
  queues, and the receive loop of a client with the replacement of an older connection.

  The loop over the buffer is modelled with its offset; it is then shown to be an instance of the stream
  interface.  The counters of valid and faulty packets are local to the function and never read, and
  have no counterpart.
\<close>

section \<open>Payload validation and queueing\<close>

definition payload_frame :: "byte list \<Rightarrow> nat \<Rightarrow> byte list" where
  "payload_frame payload i = take 48 (drop (48 * i) payload)"

definition validate_48byte_can_payload :: "byte list \<Rightarrow> bool" where
  "validate_48byte_can_payload b =
     (let frame = pc_arm_data_of b in
      if pd_head frame \<noteq> PC_STATUS_HEAD \<or> pd_length frame \<noteq> 48 then False
      else if pd_xor_checksum frame \<noteq> calculate_xor_checksum (Some b) 44 then False
      else True)"

definition enqueue_normal_can_payload :: "os \<Rightarrow> byte list \<Rightarrow> server \<Rightarrow> (errno + unit) \<times> server" where
  "enqueue_normal_can_payload os b s =
     (let can_id = pd_ch_id (pc_arm_data_of b) in
      if \<not> channel_configured s can_id then (Inl EINVAL, s)
      else if ringbuffer_32ch_avail (Some (g_data_buf_set s)) can_id 32 = 0
      then (Inl ENOMEM, send_error os ''normal CAN buffer full'' s)
      else case ringbuffer_32ch_put (Some (g_data_buf_set s)) can_id (Some b) 32 of (r, set') \<Rightarrow>
        (if ret_val r = 1 then Inr () else Inl ENOMEM, s\<lparr>g_data_buf_set := the set'\<rparr>))"

definition process_9012_can_payload_frames ::
    "os \<Rightarrow> byte list option \<Rightarrow> u32 \<Rightarrow> server \<Rightarrow> (errno + unit) \<times> server" where
  "process_9012_can_payload_frames os payload packet_channel s =
     (case payload of
        None \<Rightarrow> (Inl EINVAL, s)
      | Some p \<Rightarrow>
          if length p = 0 \<or> length p mod 48 \<noteq> 0 then (Inl EINVAL, s)
          else let frame_count = length p div 48 in
            if frame_count = 0 \<or> frame_count > 128 then (Inl EINVAL, s)
            else let frames = map (payload_frame p) [0..<frame_count] in
              if \<not> (\<forall>f \<in> set frames. validate_48byte_can_payload f) then (Inl EINVAL, s)
              else if frame_count = 1
              then (let frame = frames ! 0; type = pd_type (pc_arm_data_of frame) in
                    if type = 1 then enqueue_normal_can_payload os frame s
                    else if type = 2
                    then if unat packet_channel \<ge> AXICAN_MAX then (Inl EINVAL, s)
                         else enqueue_broadcast_group os (ucast packet_channel) [pc_arm_data_of frame] s
                    else (Inl EINVAL, s))
              else if \<not> (\<forall>f \<in> set frames. pd_type (pc_arm_data_of f) = 2) then (Inl EINVAL, s)
              else if unat packet_channel \<ge> AXICAN_MAX then (Inl EINVAL, s)
              else enqueue_broadcast_group os (ucast packet_channel) (map pc_arm_data_of frames) s)"

section \<open>Packets of the other kinds\<close>

datatype DataType =
  DATA_TYPE_CAN | DATA_TYPE_SECOND_PULSE | DATA_TYPE_SIMULATOR | DATA_TYPE_DMA | DATA_TYPE_1553B | DATA_TYPE_MAX

text \<open>A CAN payload whose size is no multiple of 48 declares its own length.\<close>

definition legacy_can_ok :: "byte list \<Rightarrow> bool" where
  "legacy_can_ok payload =
     (let hdr = pc_arm_data_of payload; len = unat (pd_length hdr) in
      if len < 48 \<or> len > length payload \<or> len mod 4 \<noteq> 0 then False
      else if pd_head hdr \<noteq> PC_STATUS_HEAD then False
      else if pd_xor_checksum hdr \<noteq> calculate_xor_checksum (Some payload) (len - 4) then False
      else True)"

definition classify_payload :: "u16 \<Rightarrow> byte list \<Rightarrow> server \<Rightarrow> (DataType \<times> u8) option" where
  "classify_payload command payload s =
     (if command = 0x0001
      then if length payload < 48 then None
           else if \<not> legacy_can_ok payload then None
           else let can_id = pd_ch_id (pc_arm_data_of payload) in
             if \<not> channel_configured s can_id then None else Some (DATA_TYPE_CAN, can_id)
      else if command = 0x0003
      then if length payload < 288 then None
           else let sim = pc_arm_sim_of payload in
             if sd_channel_id sim \<ge> max_channel (g_simulator_buf_set s) \<or> unat (sd_send_len sim) > 256 then None
             else if sd_head sim \<noteq> PC_STATUS_HEAD then None
             else Some (DATA_TYPE_SIMULATOR, sd_channel_id sim)
      else if command = 0x0002
      then if length payload < 9 then None else Some (DATA_TYPE_SECOND_PULSE, 0)
      else if command = 0x0005
      then if length payload < 2 then None else Some (DATA_TYPE_DMA, u8_at payload 0)
      else None)"

definition put_into ::
    "os \<Rightarrow> (server \<Rightarrow> RingBuffer32ChSet) \<Rightarrow> (RingBuffer32ChSet \<Rightarrow> server \<Rightarrow> server) \<Rightarrow>
     u8 \<Rightarrow> byte list \<Rightarrow> server \<Rightarrow> server" where
  "put_into os sel upd can_id data s =
     (if ringbuffer_32ch_avail (Some (sel s)) can_id 32 = 0 then send_error os ''buffer full'' s
      else case ringbuffer_32ch_put (Some (sel s)) can_id (Some data) 32 of (r, set') \<Rightarrow> upd (the set') s)"

definition queue_payload :: "os \<Rightarrow> DataType \<Rightarrow> u8 \<Rightarrow> byte list \<Rightarrow> server \<Rightarrow> server" where
  "queue_payload os type can_id data s =
     (case type of
        DATA_TYPE_CAN \<Rightarrow> put_into os g_data_buf_set (\<lambda>q s. s\<lparr>g_data_buf_set := q\<rparr>) can_id data s
      | DATA_TYPE_SIMULATOR \<Rightarrow>
          put_into os g_simulator_buf_set (\<lambda>q s. s\<lparr>g_simulator_buf_set := q\<rparr>) can_id data s
      | DATA_TYPE_SECOND_PULSE \<Rightarrow> put_into os g_pulse_buf_set (\<lambda>q s. s\<lparr>g_pulse_buf_set := q\<rparr>) can_id data s
      | _ \<Rightarrow> s)"

definition download_packet :: "os \<Rightarrow> DATA_ReqPacket \<Rightarrow> server \<Rightarrow> server" where
  "download_packet os req s =
     (let command = reverse_2bytes (dq_cmd_type req);
          payload = take (unat (reverse_4bytes (dq_data_len req))) (dq_data req);
          packet_channel = reverse_4bytes (dq_channel req)
      in if (command = 0x0001 \<or> command = 0x0002) \<and> length payload \<ge> 48 \<and> length payload mod 48 = 0
         then snd (process_9012_can_payload_frames os (Some payload) packet_channel s)
         else case classify_payload command payload s of
                None \<Rightarrow> s
              | Some (type, can_id) \<Rightarrow> queue_payload os type can_id payload s)"

section \<open>The loop over the receive buffer\<close>

abbreviation DOWNLOAD_MAX :: nat where "DOWNLOAD_MAX \<equiv> 2097256"

function download_loop :: "os \<Rightarrow> byte list \<Rightarrow> nat \<Rightarrow> server \<Rightarrow> nat \<times> server" where
  "download_loop os bytes offset s =
     (if offset + 20 \<le> length bytes
      then let req = data_req_of (drop offset bytes);
               payload_size = unat (reverse_4bytes (dq_data_len req))
           in if reverse_4bytes (dq_sync_word req) \<noteq> PC_ARM_DATA_WORD
              then download_loop os bytes (offset + 1) s
              else if dq_checksum req \<noteq> calculate_xor_checksum (Some (drop offset bytes)) 12 \<or>
                      payload_size > DOWNLOAD_MAX - 20
              then download_loop os bytes (offset + 1) s
              else let pkg_total_len = 20 + payload_size
                   in if pkg_total_len > length bytes - offset then (offset, s)
                      else download_loop os bytes (offset + pkg_total_len) (download_packet os req s)
      else (offset, s))"
  by pat_completeness auto
termination
  by (relation "measure (\<lambda>(os, bytes, offset, s). length bytes - offset)") auto

declare download_loop.simps [simp del]

definition process_download_data_batch :: "os \<Rightarrow> byte list \<Rightarrow> server \<Rightarrow> byte list \<times> server" where
  "process_download_data_batch os bytes s =
     (if length bytes > DOWNLOAD_MAX then (bytes, s)
      else case download_loop os bytes 0 s of (offset, s1) \<Rightarrow>
        (if offset > 0 then (if offset < length bytes then drop offset bytes else []) else bytes, s1))"

section \<open>The connection\<close>

definition download_connect :: "int \<Rightarrow> server \<Rightarrow> server" where
  "download_connect sock s =
     (if data_download_socket s \<noteq> -1 then sys_shutdown (data_download_socket s) s else s)
       \<lparr>data_download_socket := sock\<rparr>"

datatype loop_exit = Continue | Leave

definition download_client_step ::
    "os \<Rightarrow> int \<Rightarrow> recv_result \<Rightarrow> byte list \<times> server \<Rightarrow> loop_exit \<times> byte list \<times> server" where
  "download_client_step os sock r st =
     (case st of (stream, s) \<Rightarrow>
        if \<not> running s then (Leave, stream, s)
        else if DOWNLOAD_MAX - length stream = 0 then (Leave, stream, s)
        else case r of
          Interrupted \<Rightarrow> (Continue, stream, s)
        | Failed \<Rightarrow> (Leave, stream, s)
        | Eof \<Rightarrow> (Leave, stream, s)
        | Received bytes \<Rightarrow>
            if data_download_socket s = sock
            then (Continue, process_download_data_batch os (stream @ bytes) s)
            else (Leave, stream @ bytes, s))"

definition download_disconnect :: "int \<Rightarrow> server \<Rightarrow> server" where
  "download_disconnect sock s =
     (let s1 = (if data_download_socket s = sock then s\<lparr>data_download_socket := -1\<rparr> else s)
      in s1\<lparr>sys_trace := sys_trace s1 @ [Closed sock]\<rparr>)"

section \<open>The loop is a framed stream\<close>

definition download_verdict :: "byte list \<Rightarrow> verdict" where
  "download_verdict b =
     (if length b < 20 then Need
      else if reverse_4bytes (u32_at b 0) \<noteq> PC_ARM_DATA_WORD then Skip
      else if u32_at b 12 \<noteq> calculate_xor_checksum (Some b) 12 \<or>
              unat (reverse_4bytes (u32_at b 4)) > DOWNLOAD_MAX - 20 then Skip
      else if length b < 20 + unat (reverse_4bytes (u32_at b 4)) then Need
      else Packet (20 + unat (reverse_4bytes (u32_at b 4))))"

definition download_handle :: "os \<Rightarrow> byte list \<Rightarrow> server \<Rightarrow> server" where
  "download_handle os p s = download_packet os (data_req_of p) s"

definition download_drain :: "os \<Rightarrow> byte list \<Rightarrow> server \<Rightarrow> byte list \<times> server" where
  "download_drain os b s = (case download_loop os b 0 s of (offset, s1) \<Rightarrow> (drop offset b, s1))"

lemma checksum_append:
  "n \<le> length b \<Longrightarrow> calculate_xor_checksum (Some (b @ c)) n = calculate_xor_checksum (Some b) n"
  by (simp add: checksum_eq_words)

lemma u32_at_take: "k + 4 \<le> n \<Longrightarrow> u32_at (take n b) k = u32_at b k"
  by (simp add: u32_at_def drop_take min_def)

lemma u16_at_take: "k + 2 \<le> n \<Longrightarrow> u16_at (take n b) k = u16_at b k"
  by (simp add: u16_at_def drop_take min_def)

lemma data_req_fields:
  "dq_sync_word (data_req_of b) = u32_at b 0" "dq_data_len (data_req_of b) = u32_at b 4"
  "dq_checksum (data_req_of b) = u32_at b 12"
  by (simp_all add: data_req_of_def)

text \<open>A packet is handled from its own bytes only.\<close>

lemma download_packet_take:
  "n = 20 + unat (reverse_4bytes (u32_at b 4)) \<Longrightarrow>
   download_packet os (data_req_of (take n b)) s = download_packet os (data_req_of b) s"
  by (simp add: download_packet_def data_req_of_def u32_at_take u16_at_take drop_take Let_def)

lemma download_loop_verdict:
  "download_loop os b off s =
    (case download_verdict (drop off b) of
       Need \<Rightarrow> (off, s)
     | Skip \<Rightarrow> download_loop os b (off + 1) s
     | Packet n \<Rightarrow> download_loop os b (off + n) (download_handle os (take n (drop off b)) s))"
proof -
  let ?b = "drop off b"
  let ?n = "20 + unat (reverse_4bytes (u32_at ?b 4))"
  have l: "(off + 20 \<le> length b) = (\<not> length ?b < 20)" by auto
  have p: "download_packet os (data_req_of ?b) s = download_handle os (take ?n ?b) s"
    by (simp only: download_handle_def download_packet_take[OF refl])
  have n: "(?n > length b - off) = (length ?b < ?n)" by simp
  show ?thesis
    by (subst download_loop.simps) (simp only: l p n Let_def data_req_fields download_verdict_def split: if_split, simp)
qed

lemma download_verdict_laws:
  "download_verdict b = Skip \<Longrightarrow> b \<noteq> []" "download_verdict b = Packet n \<Longrightarrow> 0 < n \<and> n \<le> length b"
  "download_verdict b = Need \<Longrightarrow> length b < DOWNLOAD_MAX"
  by (auto simp: download_verdict_def split: if_splits)

lemma download_loop_shift:
  "download_loop os b (k + i) s = (case download_loop os (drop k b) i s of (off, t) \<Rightarrow> (k + off, t))"
proof (induction "length b - (k + i)" arbitrary: i s rule: less_induct)
  case less
  have d: "drop i (drop k b) = drop (k + i) b" by (simp add: add.commute)
  show ?case
  proof (cases "download_verdict (drop (k + i) b)")
    case Need
    then show ?thesis
      unfolding download_loop_verdict[of os b "k + i" s] download_loop_verdict[of os "drop k b" i s] d by simp
  next
    case Skip
    then have "length b - (k + (i + 1)) < length b - (k + i)" using download_verdict_laws(1)[OF Skip] by simp
    from less[OF this] Skip show ?thesis
      unfolding download_loop_verdict[of os b "k + i" s] download_loop_verdict[of os "drop k b" i s] d
      by (simp add: add.assoc)
  next
    case (Packet n)
    then have "length b - (k + (i + n)) < length b - (k + i)" using download_verdict_laws(2)[OF Packet] by auto
    from less[OF this] Packet show ?thesis
      unfolding download_loop_verdict[of os b "k + i" s] download_loop_verdict[of os "drop k b" i s] d
      by (simp add: add.assoc)
  qed
qed

lemma download_drain_step:
  "download_drain os b s =
    (case download_verdict b of Need \<Rightarrow> (b, s) | Skip \<Rightarrow> download_drain os (drop 1 b) s
     | Packet n \<Rightarrow> download_drain os (drop n b) (download_handle os (take n b) s))"
proof -
  have sh: "download_loop os b k t = (case download_loop os (drop k b) 0 t of (off, u) \<Rightarrow> (k + off, u))" for k t
    using download_loop_shift[of os b k 0 t] by simp
  show ?thesis
    unfolding download_drain_def
    by (subst (1) download_loop_verdict)
      (auto simp: sh[of 1, simplified] sh add.commute split: verdict.split prod.split)
qed

interpretation dl: framed_stream download_verdict "download_handle os" "download_drain os" DOWNLOAD_MAX
  for os
proof (unfold_locales, goal_cases)
  case (1 b c)
  then have l: "\<not> length b < 20" by (auto simp: download_verdict_def)
  then show ?case
    using 1 unfolding download_verdict_def by (simp add: at_append checksum_append split: if_splits)
qed (simp_all add: download_verdict_laws download_drain_step)

lemma batch_eq_drain:
  assumes "length bytes \<le> DOWNLOAD_MAX"
  shows "process_download_data_batch os bytes s = download_drain os bytes s"
  using assms by (auto simp: process_download_data_batch_def download_drain_def split: prod.split)

section \<open>Queues keep their shape\<close>

definition dl_ok :: "server \<Rightarrow> bool" where
  "dl_ok s \<longleftrightarrow> ctrl_ok s \<and> set_inv (g_data_buf_set s) \<and> elem_size (g_data_buf_set s) = 48 \<and>
     set_inv (g_simulator_buf_set s) \<and> elem_size (g_simulator_buf_set s) = 288 \<and>
     set_inv (g_pulse_buf_set s) \<and> elem_size (g_pulse_buf_set s) = 9"

lemma set_push_take:
  assumes "set_inv q" "ch_ok q ch limit"
  shows "set_push q ch x = set_push q ch (take (unat (elem_size q)) x)"
proof -
  obtain r where "channel_of q ch = Some r" "rb_esize r = elem_size q"
    using assms by (rule ch_ok_ring)
  then show ?thesis by (simp add: set_push_def rb_push_def memcpy_def)
qed

lemma put_long_laws:
  assumes "set_inv q" "unat (elem_size q) \<le> length x" "ringbuffer_32ch_put (Some q) ch (Some x) limit = (r, set')"
  shows "set_inv (the set') \<and> elem_size (the set') = elem_size q \<and> max_channel (the set') = max_channel q"
proof -
  have l: "length (take (unat (elem_size q)) x) = unat (elem_size q)" using assms(2) by simp
  show ?thesis
  proof (cases "ch_ok q ch limit \<and> length (ch_contents q ch) < ch_capacity q ch")
    case True
    then have "set' = Some (set_push q ch (take (unat (elem_size q)) x))"
      using assms(3) set_push_take[OF assms(1), of ch limit x] by (simp add: ch32_put_cases[OF assms(1)])
    then show ?thesis using set_push_laws(1,5,6)[OF assms(1) _ _ l] True by auto
  next
    case False
    then have "set' = Some q" using assms(3) by (auto simp: ch32_put_cases[OF assms(1)] split: if_splits)
    then show ?thesis using assms(1) by simp
  qed
qed

lemma ctrl_ok_cong:
  assumes "bcast_same s t" "channel_frame_count t = channel_frame_count s"
  shows "ctrl_ok t = ctrl_ok s"
  using assms bcast_same_inv[OF assms(1)] by (simp add: ctrl_ok_def bcast_same_def)

lemma send_event_dl_ok [simp]: "dl_ok (send_event os l e m s) = dl_ok s"
  using ctrl_ok_cong[of s "send_event os l e m s"] by (simp add: dl_ok_def)

lemma dl_ok_data: "dl_ok s \<Longrightarrow> set_inv q \<Longrightarrow> elem_size q = 48 \<Longrightarrow> dl_ok (s\<lparr>g_data_buf_set := q\<rparr>)"
  using ctrl_ok_cong[of s "s\<lparr>g_data_buf_set := q\<rparr>"] by (simp add: dl_ok_def bcast_same_def)

lemma dl_ok_sim: "dl_ok s \<Longrightarrow> set_inv q \<Longrightarrow> elem_size q = 288 \<Longrightarrow> dl_ok (s\<lparr>g_simulator_buf_set := q\<rparr>)"
  using ctrl_ok_cong[of s "s\<lparr>g_simulator_buf_set := q\<rparr>"] by (simp add: dl_ok_def bcast_same_def)

lemma dl_ok_pulse: "dl_ok s \<Longrightarrow> set_inv q \<Longrightarrow> elem_size q = 9 \<Longrightarrow> dl_ok (s\<lparr>g_pulse_buf_set := q\<rparr>)"
  using ctrl_ok_cong[of s "s\<lparr>g_pulse_buf_set := q\<rparr>"] by (simp add: dl_ok_def bcast_same_def)

lemma enqueue_normal_ok:
  assumes "dl_ok s" "length b = 48"
  shows "dl_ok (snd (enqueue_normal_can_payload os b s))"
proof -
  have q: "set_inv (g_data_buf_set s)" "elem_size (g_data_buf_set s) = 48" using assms(1) by (simp_all add: dl_ok_def)
  let ?ch = "pd_ch_id (pc_arm_data_of b)"
  obtain r set' where p: "ringbuffer_32ch_put (Some (g_data_buf_set s)) ?ch (Some b) 32 = (r, set')" by fastforce
  show ?thesis
    using put_long_laws[OF q(1) _ p] q(2) assms
    by (simp add: enqueue_normal_can_payload_def Let_def p dl_ok_data)
qed

lemma enqueue_bcast_frame:
  assumes "enqueue_broadcast_group os ch frames s = (r, t)"
  shows "g_data_buf_set t = g_data_buf_set s" "g_simulator_buf_set t = g_simulator_buf_set s"
    "g_pulse_buf_set t = g_pulse_buf_set s" "channel_frame_count t = channel_frame_count s"
    "can_configs t = can_configs s" "running t = running s" "data_download_socket t = data_download_socket s"
proof -
  have g: "is_broadcast_rx_gate_open os s = (b, u) \<Longrightarrow>
    g_data_buf_set u = g_data_buf_set s \<and> g_simulator_buf_set u = g_simulator_buf_set s \<and>
    g_pulse_buf_set u = g_pulse_buf_set s \<and> channel_frame_count u = channel_frame_count s \<and>
    can_configs u = can_configs s \<and> running u = running s \<and>
    data_download_socket u = data_download_socket s" for b u
    by (auto simp: is_broadcast_rx_gate_open_def split: if_splits prod.splits dest!: monotonic_ms_frame)
  show "g_data_buf_set t = g_data_buf_set s" "g_simulator_buf_set t = g_simulator_buf_set s"
    "g_pulse_buf_set t = g_pulse_buf_set s" "channel_frame_count t = channel_frame_count s"
    "can_configs t = can_configs s" "running t = running s" "data_download_socket t = data_download_socket s"
    using assms
    by (auto simp: enqueue_broadcast_group_def is_broadcast_pps_window_open_def Let_def
        next_broadcast_group_id_def split: if_splits prod.splits bool.splits dest!: g)
qed

lemma enqueue_bcast_ok:
  assumes "dl_ok s" shows "dl_ok (snd (enqueue_broadcast_group os ch frames s))"
proof -
  obtain r t where e: "enqueue_broadcast_group os ch frames s = (r, t)" by fastforce
  have "bcast_inv t" using enqueue_inv[OF _ e] assms by (simp add: dl_ok_def ctrl_ok_def)
  then show ?thesis
    using assms enqueue_bcast_frame[OF e] by (simp add: e dl_ok_def ctrl_ok_def)
qed

lemma process_frames_ok:
  assumes "dl_ok s" shows "dl_ok (snd (process_9012_can_payload_frames os p ch s))"
proof (cases p)
  case (Some b)
  have "length (payload_frame b 0) = 48" if "length b div 48 = 1"
  proof -
    have "48 \<le> length b" using that by (metis div_less not_less zero_neq_one)
    then show ?thesis by (simp add: payload_frame_def)
  qed
  then show ?thesis
    using assms enqueue_bcast_ok enqueue_normal_ok
    by (simp add: Some process_9012_can_payload_frames_def Let_def del: One_nat_def)
qed (use assms in \<open>simp add: process_9012_can_payload_frames_def\<close>)

lemma put_into_ok:
  assumes "dl_ok s" "set_inv (sel s)" "unat (elem_size (sel s)) \<le> length x"
    "\<And>q. set_inv q \<Longrightarrow> elem_size q = elem_size (sel s) \<Longrightarrow> dl_ok (upd q s)"
  shows "dl_ok (put_into os sel upd ch x s)"
  using assms put_long_laws[OF assms(2,3)] by (auto simp: put_into_def split: prod.split)

lemma classify_length:
  "classify_payload command x s = Some (DATA_TYPE_CAN, ch) \<Longrightarrow> 48 \<le> length x"
  "classify_payload command x s = Some (DATA_TYPE_SIMULATOR, ch) \<Longrightarrow> 288 \<le> length x"
  "classify_payload command x s = Some (DATA_TYPE_SECOND_PULSE, ch) \<Longrightarrow> 9 \<le> length x"
  by (auto simp: classify_payload_def Let_def split: if_splits)

lemma queue_payload_ok:
  assumes "dl_ok s" "classify_payload command x s = Some (ty, ch)"
  shows "dl_ok (queue_payload os ty ch x s)"
proof (cases ty)
  case DATA_TYPE_CAN
  then show ?thesis
    using assms classify_length(1)[of command x s ch]
    by (auto simp: queue_payload_def dl_ok_def[of s] intro!: put_into_ok dl_ok_data)
next
  case DATA_TYPE_SIMULATOR
  then show ?thesis
    using assms classify_length(2)[of command x s ch]
    by (auto simp: queue_payload_def dl_ok_def[of s] intro!: put_into_ok dl_ok_sim)
next
  case DATA_TYPE_SECOND_PULSE
  then show ?thesis
    using assms classify_length(3)[of command x s ch]
    by (auto simp: queue_payload_def dl_ok_def[of s] intro!: put_into_ok dl_ok_pulse)
qed (use assms in \<open>simp_all add: queue_payload_def\<close>)

lemma download_packet_ok: "dl_ok s \<Longrightarrow> dl_ok (download_packet os req s)"
  using process_frames_ok queue_payload_ok
  by (auto simp: download_packet_def Let_def split: option.split)

lemma download_drain_ok: "dl_ok s \<Longrightarrow> dl_ok (snd (download_drain os b s))"
proof (induction "length b" arbitrary: b s rule: less_induct)
  case less
  show ?case
  proof (cases "download_verdict b")
    case Need
    then show ?thesis using less.prems by (simp add: dl.drain_need)
  next
    case Skip
    then show ?thesis using less dl.skip_law[OF Skip] by (simp add: dl.drain_skip)
  next
    case (Packet n)
    then have "length (drop n b) < length b" using dl.packet_law[OF Packet] by auto
    then show ?thesis
      using less.hyps[of "drop n b"] less.prems download_packet_ok
      by (simp add: dl.drain_packet[OF Packet] download_handle_def)
  qed
qed

section \<open>The receive loop\<close>

fun download_client ::
    "os \<Rightarrow> int \<Rightarrow> recv_result list \<Rightarrow> byte list \<times> server \<Rightarrow> byte list \<times> server" where
  "download_client os sock [] st = st"
| "download_client os sock (r # rs) st =
     (case download_client_step os sock r st of
        (Continue, st') \<Rightarrow> download_client os sock rs st'
      | (Leave, st') \<Rightarrow> st')"

lemma put_into_frame:
  assumes "\<And>q. data_download_socket (upd q s) = data_download_socket s \<and> running (upd q s) = running s"
  shows "data_download_socket (put_into os sel upd ch x s) = data_download_socket s"
    "running (put_into os sel upd ch x s) = running s"
  using assms by (auto simp: put_into_def split: prod.split)

lemma download_packet_frame:
  "data_download_socket (download_packet os req s) = data_download_socket s \<and>
   running (download_packet os req s) = running s"
proof -
  have "data_download_socket (snd (enqueue_normal_can_payload os b s)) = data_download_socket s \<and>
    running (snd (enqueue_normal_can_payload os b s)) = running s" for b
    by (auto simp: enqueue_normal_can_payload_def Let_def split: prod.split)
  moreover have "data_download_socket (snd (enqueue_broadcast_group os ch fs s)) = data_download_socket s \<and>
    running (snd (enqueue_broadcast_group os ch fs s)) = running s" for ch fs
    using enqueue_bcast_frame(6,7)[of os ch fs s] by (cases "enqueue_broadcast_group os ch fs s") simp
  ultimately have "data_download_socket (snd (process_9012_can_payload_frames os p c s)) = data_download_socket s \<and>
    running (snd (process_9012_can_payload_frames os p c s)) = running s" for p c
    by (simp add: process_9012_can_payload_frames_def Let_def split: option.split)
  then show ?thesis
    by (auto simp: download_packet_def Let_def queue_payload_def put_into_frame split: option.split DataType.split)
qed

lemma download_drain_frame:
  "data_download_socket (snd (download_drain os b s)) = data_download_socket s \<and>
   running (snd (download_drain os b s)) = running s"
proof (induction "length b" arbitrary: b s rule: less_induct)
  case less
  show ?case
  proof (cases "download_verdict b")
    case Need
    then show ?thesis by (simp add: dl.drain_need)
  next
    case Skip
    then show ?thesis using less dl.skip_law[OF Skip] by (simp add: dl.drain_skip)
  next
    case (Packet n)
    then have "length (drop n b) < length b" using dl.packet_law[OF Packet] by auto
    then show ?thesis
      using less.hyps[of "drop n b"] download_packet_frame
      by (simp add: dl.drain_packet[OF Packet] download_handle_def)
  qed
qed

text \<open>Chunks that fit: \<^verbatim>\<open>recv\<close> never returns more bytes than the room it was given.\<close>

fun chunks_fit :: "os \<Rightarrow> byte list \<Rightarrow> byte list list \<Rightarrow> server \<Rightarrow> bool" where
  "chunks_fit os b [] s = True"
| "chunks_fit os b (c # cs) s =
     (length (b @ c) \<le> DOWNLOAD_MAX \<and> (case download_drain os (b @ c) s of (b', s') \<Rightarrow> chunks_fit os b' cs s'))"

lemma download_client_chunks:
  assumes "running s" "data_download_socket s = sock" "download_verdict b = Need" "chunks_fit os b chunks s"
  shows "download_client os sock (map Received chunks) (b, s) = download_drain os (b @ concat chunks) s"
  using assms
proof (induction chunks arbitrary: b s)
  case Nil
  then show ?case by (simp add: dl.drain_need)
next
  case (Cons c cs)
  obtain b1 s1 where d: "download_drain os (b @ c) s = (b1, s1)" "download_verdict b1 = Need"
    using dl.drain_stops by blast
  have f: "running s1" "data_download_socket s1 = sock" "chunks_fit os b1 cs s1" "length (b @ c) \<le> DOWNLOAD_MAX"
    using download_drain_frame[of os "b @ c" s] d Cons.prems by simp_all
  have room: "DOWNLOAD_MAX - length b \<noteq> 0" using dl.need_bound[OF Cons.prems(3)] by simp
  have "download_client os sock (map Received (c # cs)) (b, s) = download_client os sock (map Received cs) (b1, s1)"
    using Cons.prems(1,2) room batch_eq_drain[OF f(4)] d by (simp add: download_client_step_def)
  also have "\<dots> = download_drain os (b1 @ concat cs) s1" using Cons.IH f d(2) by blast
  also have "\<dots> = download_drain os ((b @ c) @ concat cs) s"
    using dl.drain_append[of os "b @ c" "concat cs" s] d(1) by simp
  finally show ?case by simp
qed

section \<open>Building packets\<close>

definition encode_data_packet :: "u16 \<Rightarrow> u16 \<Rightarrow> u32 \<Rightarrow> byte list \<Rightarrow> byte list" where
  "encode_data_packet counter command channel payload =
     (let w0 = reverse_4bytes PC_ARM_DATA_WORD; w1 = reverse_4bytes (of_nat (length payload));
          w2 = le_word (le_bytes 2 counter @ le_bytes 2 (reverse_2bytes command)) :: u32
      in le_bytes 4 w0 @ le_bytes 4 w1 @ le_bytes 4 w2 @ le_bytes 4 (w0 XOR w1 XOR w2) @
         le_bytes 4 (reverse_4bytes channel) @ payload)"

lemma xor_words_le3: "xor_words (le_bytes 4 a @ le_bytes 4 b @ le_bytes 4 c) = a XOR b XOR c"
  by (simp add: xor_words_append xor_words_short)

lemma encode_data_packet_verdict:
  assumes "length payload \<le> DOWNLOAD_MAX - 20"
  shows "download_verdict (encode_data_packet counter command channel payload @ c)
    = Packet (length (encode_data_packet counter command channel payload))"
proof -
  have u: "unat (of_nat (length payload) :: u32) = length payload"
    using assms by (simp add: unat_of_nat)
  have t: "take 12 (le_bytes 4 w0 @ le_bytes 4 w1 @ le_bytes 4 w2 @ le_bytes 4 w3 @ r)
     = le_bytes 4 w0 @ le_bytes 4 w1 @ le_bytes 4 w2" for w0 w1 w2 w3 :: u32 and r
    by simp
  show ?thesis
    using assms u
    by (simp add: download_verdict_def encode_data_packet_def Let_def u32_at_simps checksum_eq_words t xor_words_le3)
qed

text \<open>The normal frames that wait on a channel, oldest first.\<close>

definition normal_queue :: "server \<Rightarrow> u8 \<Rightarrow> byte list list" where
  "normal_queue s ch = ch_view ch 32 (g_data_buf_set s)"

lemma normal_space:
  assumes "set_inv q"
  shows "(ringbuffer_32ch_avail (Some q) ch 32 \<noteq> 0) = (ch_ok q ch 32 \<and> length (ch_contents q ch) < ch_capacity q ch)"
  using ch32_avail[OF assms, of ch 32] by (auto simp: unat_eq_0[symmetric])

lemma enqueue_normal_success:
  assumes "dl_ok s" "length b = 48" "channel_configured s ch" "ch = pd_ch_id (pc_arm_data_of b)"
    and "length (normal_queue s ch) < ch_room ch 32 (g_data_buf_set s)"
  defines "q \<equiv> set_push (g_data_buf_set s) ch b"
  shows "enqueue_normal_can_payload os b s = (Inr (), s\<lparr>g_data_buf_set := q\<rparr>)"
    and "normal_queue (s\<lparr>g_data_buf_set := q\<rparr>) c = normal_queue s c @ (if c = ch then [b] else [])"
    and "ch_room c 32 q = ch_room c 32 (g_data_buf_set s)" and "set_inv q" and "elem_size q = 48"
proof -
  let ?q = "g_data_buf_set s"
  have i: "set_inv ?q" "elem_size ?q = 48" using assms(1) by (simp_all add: dl_ok_def)
  have ok: "ch_ok ?q ch 32" "length (ch_contents ?q ch) < ch_capacity ?q ch"
    using assms(5) by (auto simp: normal_queue_def ch_view_def ch_room_def split: if_splits)
  show "enqueue_normal_can_payload os b s = (Inr (), s\<lparr>g_data_buf_set := q\<rparr>)"
    using assms(3,4) ok normal_space[OF i(1), of ch]
    by (simp add: enqueue_normal_can_payload_def Let_def ch32_put_cases[OF i(1)] ret_val_def q_def)
  note l = set_push_laws[OF i(1) ok, of b]
  show "normal_queue (s\<lparr>g_data_buf_set := q\<rparr>) c = normal_queue s c @ (if c = ch then [b] else [])"
    "ch_room c 32 q = ch_room c 32 (g_data_buf_set s)" "set_inv q" "elem_size q = 48"
    using l assms(2) i(2) ok by (auto simp: normal_queue_def ch_view_def ch_room_def q_def)
qed

section \<open>Properties\<close>

lemma demo_dl_ok:
  "dl_ok (demo_server\<lparr>g_data_buf_set := \<lparr>channels = Some [Some \<lparr>rb_data = replicate 96 0, rb_in = 0, rb_out = 0,
      rb_mask = 1, rb_esize = 48\<rparr>], max_channel = 1, elem_size = 48, buf_capacity = 2\<rparr>,
    g_simulator_buf_set := zero_set\<lparr>elem_size := 288\<rparr>, g_pulse_buf_set := zero_set\<lparr>elem_size := 9\<rparr>\<rparr>)"
    (is "dl_ok ?s")
proof -
  have "ctrl_ok demo_server"
    using demo_inv by (simp add: ctrl_ok_def) (simp add: demo_server_def boot_server_def zero_config_def)
  moreover have "bcast_same demo_server ?s" "channel_frame_count ?s = channel_frame_count demo_server"
    by (simp_all add: bcast_same_def)
  ultimately have "ctrl_ok ?s" using ctrl_ok_cong by blast
  then show ?thesis
    by (simp add: dl_ok_def set_inv_def zero_set_def rb_inv_def is_power_of_2_def rb_capacity_def rb_count_def)
qed

text \<open>
  The division of the download stream into network segments is irrelevant: the current client is
  served exactly as if its bytes had arrived at once, and the buffer is never full when the loop
  receives again, so that the defensive exit of the loop is unreachable.
\<close>

lemma download_chunking_irrelevant:
  assumes "running s" and "data_download_socket s = sock" and "chunks_fit os [] chunks s"
  shows "download_client os sock (map Received chunks) ([], s) = download_drain os (concat chunks) s \<and>
    length (fst (download_drain os (concat chunks) s)) < DOWNLOAD_MAX"
proof -
  have "download_verdict [] = Need" by (simp add: download_verdict_def)
  then show ?thesis
    using download_client_chunks[OF assms(1,2) _ assms(3)] dl.drain_bound[of os "concat chunks" s]
    by (metis append_Nil prod.collapse)
qed

text \<open>
  Data packets are handled completely, once and in order: a stream that consists of well-formed
  packets leads to the packets being handled one after the other and leaves the buffer empty.
\<close>

lemma data_packets_handled_in_order:
  assumes "\<forall>(n, c, ch, p) \<in> set pkts. length p \<le> DOWNLOAD_MAX - 20"
  defines "packets \<equiv> map (\<lambda>(n, c, ch, p). encode_data_packet n c ch p) pkts"
  shows "download_drain os (concat packets) s =
    ([], fold (\<lambda>p s. download_packet os (data_req_of p) s) packets s)"
proof -
  have ok: "download_verdict (p @ c) = Packet (length p)" if "p \<in> set packets" for p c
    using that assms(1) encode_data_packet_verdict by (fastforce simp: packets_def)
  have "download_drain os (concat packets) s = ([], fold (download_handle os) packets s)"
    using dl.packets_handled[of packets "[]" os s] ok by (simp add: download_verdict_def)
  then show ?thesis by (simp add: download_handle_def[abs_def])
qed

text \<open>
  A normal payload is queued unchanged on its own channel, or nothing is queued: on success the
  48 bytes are appended to the queue of the channel they name and every other queue is as
  before; on failure no queue changes; and it succeeds whenever the channel is configured and has room.
\<close>

lemma normal_payload_queued:
  assumes "dl_ok s" and "length b = 48" and "enqueue_normal_can_payload os b s = (r, t)"
  defines "ch \<equiv> pd_ch_id (pc_arm_data_of b)"
  shows "(r = Inr () \<longrightarrow> (\<forall>c. normal_queue t c = normal_queue s c @ (if c = ch then [b] else []))) \<and>
    (r \<noteq> Inr () \<longrightarrow> g_data_buf_set t = g_data_buf_set s) \<and>
    (channel_configured s ch \<and> length (normal_queue s ch) < ch_room ch 32 (g_data_buf_set s) \<longrightarrow> r = Inr ())"
proof (cases "channel_configured s ch \<and> length (normal_queue s ch) < ch_room ch 32 (g_data_buf_set s)")
  case True
  then have c: "channel_configured s ch" "ch = pd_ch_id (pc_arm_data_of b)"
    "length (normal_queue s ch) < ch_room ch 32 (g_data_buf_set s)" by (simp_all add: ch_def)
  from enqueue_normal_success[OF assms(1,2) c] assms(3) show ?thesis by simp
next
  case False
  have "set_inv (g_data_buf_set s)" using assms(1) by (simp add: dl_ok_def)
  from normal_space[OF this, of ch] False assms(3) show ?thesis
    unfolding ch_def
    by (auto simp: enqueue_normal_can_payload_def Let_def normal_queue_def ch_view_def ch_room_def split: if_splits)
qed

text \<open>
  No input on the download port can damage the server: whatever bytes arrive, all queues stay well
  formed with their element sizes, and the scheduler invariant and the channel tables are kept.
\<close>

lemma any_download_bytes_keep_state:
  assumes "dl_ok s"
  shows "dl_ok (snd (download_drain os bytes s))"
  using assms by (rule download_drain_ok)

text \<open>
  C39.  A replaced connection is inert: once another client holds the download port, bytes that still arrive
  on the old socket are not processed, its thread leaves the loop and its clean-up does not unregister the new
  client.
\<close>

theorem replaced_connection_is_inert:
  assumes "running s" and "data_download_socket s \<noteq> sock" and "length stream < DOWNLOAD_MAX"
  shows "download_client_step os sock (Received bytes) (stream, s) = (Leave, stream @ bytes, s) \<and>
    data_download_socket (download_disconnect sock s) = data_download_socket s \<and>
    data_download_socket (download_connect sock s) = sock"
  using assms by (simp add: download_client_step_def download_disconnect_def download_connect_def Let_def)

theorem replaced_connection_is_inert_witness:
  "fst (download_client_step demo_os 5 (Received [1]) ([], demo_server)) = Leave"
  using replaced_connection_is_inert[of demo_server 5 "[]" demo_os "[1]"]
  by (simp add: demo_server_def boot_server_def)

text \<open>
  In the older CAN format, whose payload declares its own length, the stored checksum has no effect when
  the declared length is above 48: the sum then runs over the checksum field itself, so that a payload is accepted
  or refused independently of the value in that field.
\<close>

lemma legacy_checksum_field_ineffective:
  assumes "length pre = 44" and "48 < unat (pre ! 6)"
  shows "legacy_can_ok (pre @ le_bytes 4 (c :: u32) @ post) = legacy_can_ok (pre @ le_bytes 4 (d :: u32) @ post)"
proof -
  let ?b = "\<lambda>c :: u32. pre @ le_bytes 4 c @ post"
  let ?n = "unat (pre ! 6) - 4"
  have f: "pd_length (pc_arm_data_of (?b c)) = pre ! 6" "pd_head (pc_arm_data_of (?b c)) = u32_at pre 0"
    "pd_xor_checksum (pc_arm_data_of (?b c)) = c" for c
    using assms(1) by (simp_all add: pc_arm_data_of_def u8_at_def u32_at_def nth_append)
  have sum: "calculate_xor_checksum (Some (?b c)) ?n = c XOR (xor_words pre XOR xor_words (take (?n - 48) post))"
    if "unat (pre ! 6) \<le> length (?b c)" "unat (pre ! 6) mod 4 = 0" for c
  proof -
    have "52 \<le> unat (pre ! 6)" using that(2) assms(2) by presburger
    then have t: "take ?n (?b c) = pre @ le_bytes 4 c @ take (?n - 48) post" using assms(1) by simp
    have "xor_words (pre @ le_bytes 4 c @ take (?n - 48) post)
      = xor_words pre XOR (c XOR xor_words (take (?n - 48) post))"
      using assms(1) by (simp add: xor_words_append xor_words_short)
    moreover have "calculate_xor_checksum (Some (?b c)) ?n = xor_words (take ?n (?b c))"
      using that(1) by (intro checksum_eq_words) linarith
    ultimately show ?thesis unfolding t by (simp add: xor.left_commute)
  qed
  have "legacy_can_ok (?b c) = (unat (pre ! 6) \<le> length (?b c) \<and> unat (pre ! 6) mod 4 = 0 \<and>
      u32_at pre 0 = PC_STATUS_HEAD \<and> xor_words pre XOR xor_words (take (?n - 48) post) = 0)" for c
  proof -
    have "(c = c XOR w) = (w = 0)" for w :: u32 using xor_cancel_left[of c 0 w] by auto
    then show ?thesis using assms(2) sum[of c] by (auto simp: legacy_can_ok_def Let_def f)
  qed
  then show ?thesis by simp
qed

end
