(* ===== verification/Packet_Send.thy ===== *)
theory Packet_Send
  imports Download_Stream "HOL-Library.Sublist"
begin

text \<open>
  The sending threads of the normal CAN data (\<^verbatim>\<open>src/main18.c\<close>, \<open>axican_data_send_thread\<close>): one thread per channel
  takes the payloads of its queue one by one, sends single packets at once and collects the packets of a
  longer message in a buffer until the message is complete.

  The part of an iteration that works on the packet buffer is \<open>packet_step\<close>; it returns the payloads that
  leave the buffer.  The waiting loop is the guard of \<open>axican_data_send_round\<close>: a round that finds the channel closed
  or its queue empty does nothing.
\<close>

section \<open>Sending one frame\<close>

definition single_frame :: "PC_ARM_DATA_DATA \<Rightarrow> u64 \<Rightarrow> axican_frame" where
  "single_frame p ts = \<lparr>af_can_id = pd_idr p, af_can_dlc = pd_drcr p, af_data0 = reverse_4bytes (pd_dw1r p),
     af_data1 = reverse_4bytes (pd_dw2r p), af_timestamp = ts\<rparr>"

definition send_single_frame :: "os \<Rightarrow> u8 \<Rightarrow> PC_ARM_DATA_DATA \<Rightarrow> server \<Rightarrow> server" where
  "send_single_frame os can_id curr_frame s =
     (case sys_clock os s of (clock, s1) \<Rightarrow>
        (let ts = (case clock of Some (sec, nsec) \<Rightarrow> sec * 1000 + nsec div 1000000 | None \<Rightarrow> 0);
             send_frame = single_frame curr_frame ts;
             info = axican_test s1 ! unat can_id;
             s2 = s1\<lparr>axican_test := (axican_test s1)[unat can_id := info\<lparr>ax_w_count := ax_w_count info + 1\<rparr>]\<rparr>
         in case sys_write os (ax_wr_fd info) (axican_frame_bytes send_frame) s2 of (rc, s3) \<Rightarrow>
              if rc \<noteq> 24
              then send_error os ''CAN data send failed''
                     (send_can_transmit_response os can_id 0x80 0 send_frame s3)
              else s3))"

section \<open>Readiness of the queue\<close>

definition ringbuffer_32ch_target_is_inited :: "RingBuffer32ChSet option \<Rightarrow> u8 \<Rightarrow> u32 \<Rightarrow> bool" where
  "ringbuffer_32ch_target_is_inited st target_ch expected_elem_size =
     (case st of
        None \<Rightarrow> False
      | Some q \<Rightarrow>
          if target_ch \<ge> 32 then False
          else if elem_size q \<noteq> expected_elem_size then False
          else case channel_of q target_ch of
                 None \<Rightarrow> False
               | Some r \<Rightarrow>
                   if rb_esize r \<noteq> expected_elem_size then False
                   else if rb_mask r + 1 = 0 then False
                   else True)"

section \<open>The packet buffer\<close>

abbreviation PACKET_TIMEOUT :: int where "PACKET_TIMEOUT \<equiv> 1000"

definition sys_time :: "os \<Rightarrow> server \<Rightarrow> int \<times> server" where
  "sys_time os s = (os_time os (sys_calls s), s\<lparr>sys_calls := Suc (sys_calls s)\<rparr>)"

definition packet_expire :: "int \<Rightarrow> PacketBuffer \<Rightarrow> PacketBuffer" where
  "packet_expire now b =
     (if pb_is_active b \<and> (now - pb_last_receive_time b) * 1000 > PACKET_TIMEOUT then zero_packet_buffer else b)"

definition packet_store :: "int \<Rightarrow> PC_ARM_DATA_DATA \<Rightarrow> PacketBuffer \<Rightarrow> PC_ARM_DATA_DATA list \<times> PacketBuffer" where
  "packet_store now f b =
     (let sequence = ucast (pd_packets_no f) :: u8 in
      if \<not> pb_is_active b \<or> sequence \<ge> pb_total_packets b then ([], b)
      else if sequence \<noteq> pb_received_packets b then ([], zero_packet_buffer)
      else let b1 = b\<lparr>pb_frames := (pb_frames b)[unat sequence := f],
                      pb_received_packets := pb_received_packets b + 1,
                      pb_last_receive_time := now\<rparr>
           in if pb_received_packets b1 = pb_total_packets b1
              then (map (\<lambda>j. pb_frames b1 ! j) [0..<unat (pb_total_packets b1)], zero_packet_buffer)
              else ([], b1))"

definition packet_step :: "int \<Rightarrow> PC_ARM_DATA_DATA \<Rightarrow> PacketBuffer \<Rightarrow> PC_ARM_DATA_DATA list \<times> PacketBuffer" where
  "packet_step now f b0 =
     (let sequence = ucast (pd_packets_no f) :: u8;
          total_packets = ucast (pd_packets_sum f) :: u8;
          b = packet_expire now b0
      in if sequence = 0
         then if total_packets \<le> 0 \<or> total_packets > 10 then ([], b)
              else packet_store now f (zero_packet_buffer\<lparr>pb_total_packets := total_packets, pb_is_active := True\<rparr>)
         else packet_store now f b)"

section \<open>One round of the thread\<close>

definition tx_ready :: "u8 \<Rightarrow> server \<Rightarrow> bool" where
  "tx_ready can_id s \<longleftrightarrow> dc_state (can_configs s ! unat can_id) = CAN_STATE_OPENED \<and>
     ringbuffer_32ch_len (Some (g_data_buf_set s)) can_id 32 \<noteq> 0"

definition send_multi :: "os \<Rightarrow> u8 \<Rightarrow> PC_ARM_DATA_DATA \<Rightarrow> server \<Rightarrow> server" where
  "send_multi os can_id curr_frame s =
     (case sys_time os s of (current_time, s1) \<Rightarrow>
        (case packet_step current_time curr_frame (packet_buffers s1 ! unat can_id) of (out, b) \<Rightarrow>
           (fold (send_single_frame os can_id) out s1)
             \<lparr>packet_buffers := (packet_buffers s1)[unat can_id := b]\<rparr>))"

definition axican_data_send_round :: "os \<Rightarrow> u8 \<Rightarrow> server \<Rightarrow> server" where
  "axican_data_send_round os can_id s =
     (if \<not> tx_ready can_id s then s
      else case ringbuffer_32ch_get (Some (g_data_buf_set s)) can_id (Some (replicate 48 0)) 32 of
        (r, set', buf) \<Rightarrow>
          (let s1 = s\<lparr>g_data_buf_set := the set'\<rparr>;
               curr_frame = pc_arm_data_of (the buf)
           in if ret_val r \<noteq> 1 then s1
              else if pd_head curr_frame \<noteq> PC_STATUS_HEAD then send_error os ''Invalid sync word'' s1
              else if pd_ch_id curr_frame \<noteq> can_id then send_error os ''Channel mismatch'' s1
              else if (ucast (pd_packets_sum curr_frame) :: u8) = 1 then send_single_frame os can_id curr_frame s1
              else send_multi os can_id curr_frame s1))"

text \<open>The thread leaves at once when its queue was not initialised, and when the program stops.\<close>

fun send_rounds :: "os \<Rightarrow> u8 \<Rightarrow> nat \<Rightarrow> server \<Rightarrow> server" where
  "send_rounds os can_id 0 s = s"
| "send_rounds os can_id (Suc n) s =
     (if \<not> running s then s else send_rounds os can_id n (axican_data_send_round os can_id s))"

definition axican_data_send_thread :: "os \<Rightarrow> u8 \<Rightarrow> nat \<Rightarrow> server \<Rightarrow> server" where
  "axican_data_send_thread os can_id rounds s =
     (if \<not> ringbuffer_32ch_target_is_inited (Some (g_data_buf_set s)) can_id 48 then s
      else send_rounds os can_id rounds s)"

section \<open>What a round leaves on the bus\<close>

text \<open>The frames written to a device, without their time stamps.\<close>

fun effect_frames :: "int \<Rightarrow> effect \<Rightarrow> axican_frame list" where
  "effect_frames fd (Written d bytes) = (if d = fd then [(axican_frame_of bytes)\<lparr>af_timestamp := 0\<rparr>] else [])"
| "effect_frames fd _ = []"

definition tx_log :: "int \<Rightarrow> server \<Rightarrow> axican_frame list" where
  "tx_log fd s = concat (map (effect_frames fd) (sys_trace s))"

lemma send_event_log [simp]: "tx_log fd (send_event os l e m s) = tx_log fd s"
  by (simp add: tx_log_def send_event_def send_defs split: option.split)

lemma upload_send_log [simp]: "tx_log fd (upload_send os bytes s) = tx_log fd s"
  by (simp add: tx_log_def upload_send_def send_defs)

lemma transmit_response_log [simp]: "tx_log fd (send_can_transmit_response os ch ty st f s) = tx_log fd s"
  by (simp add: send_can_transmit_response_def bump_channel_count_def send_defs split: option.split)
    (simp add: tx_log_def)

lemma tx_log_frame [simp]:
  "tx_log fd (s\<lparr>g_data_buf_set := q\<rparr>) = tx_log fd s" "tx_log fd (s\<lparr>packet_buffers := p\<rparr>) = tx_log fd s"
  "tx_log fd (s\<lparr>axican_test := a\<rparr>) = tx_log fd s" "tx_log fd (s\<lparr>sys_calls := n\<rparr>) = tx_log fd s"
  by (simp_all add: tx_log_def)

lemma send_single_frame_effect:
  fixes p os s
  assumes "unat ch < length (axican_test s)"
  defines "t \<equiv> send_single_frame os ch p s"
  shows "tx_log fd t = tx_log fd s @ (if fd = ax_wr_fd (axican_test s ! unat ch) then [single_frame p 0] else [])"
    and "ax_wr_fd (axican_test t ! i) = ax_wr_fd (axican_test s ! i)"
    and "length (axican_test t) = length (axican_test s)"
    and "packet_buffers t = packet_buffers s" and "g_data_buf_set t = g_data_buf_set s"
    and "can_configs t = can_configs s" and "running t = running s"
  using assms(1) unfolding t_def
  by (simp_all add: send_single_frame_def sys_clock_def sys_write_def Let_def single_frame_def nth_list_update)
    (simp_all add: tx_log_def)

section \<open>The packet buffer\<close>

abbreviation seq_no :: "PC_ARM_DATA_DATA \<Rightarrow> u8" where "seq_no f \<equiv> ucast (pd_packets_no f)"
abbreviation seq_sum :: "PC_ARM_DATA_DATA \<Rightarrow> u8" where "seq_sum f \<equiv> ucast (pd_packets_sum f)"

text \<open>The payloads collected so far, and the messages: numbered from 0, as many as the first one announces.\<close>

definition pending :: "PacketBuffer \<Rightarrow> PC_ARM_DATA_DATA list" where
  "pending b = (if pb_is_active b then take (unat (pb_received_packets b)) (pb_frames b) else [])"

definition numbered :: "PC_ARM_DATA_DATA list \<Rightarrow> bool" where
  "numbered fs \<longleftrightarrow> (\<forall>i < length fs. unat (seq_no (fs ! i)) = i)"

definition message :: "PC_ARM_DATA_DATA list \<Rightarrow> bool" where
  "message fs \<longleftrightarrow> fs \<noteq> [] \<and> length fs \<le> 10 \<and> numbered fs \<and> length fs = unat (seq_sum (fs ! 0))"

definition pb_ok :: "PacketBuffer \<Rightarrow> bool" where
  "pb_ok b \<longleftrightarrow> length (pb_frames b) = 10 \<and> unat (pb_total_packets b) \<le> 10 \<and>
     (pb_is_active b \<longrightarrow> pb_received_packets b < pb_total_packets b) \<and> numbered (pending b) \<and>
     (pending b \<noteq> [] \<longrightarrow> seq_sum (pending b ! 0) = pb_total_packets b)"

lemma zero_buffer_ok [simp]: "pb_ok zero_packet_buffer" "pending zero_packet_buffer = []"
  by (simp_all add: pb_ok_def pending_def zero_packet_buffer_def numbered_def)

lemma expire_cases: "packet_expire now b = b \<or> packet_expire now b = zero_packet_buffer"
  by (simp add: packet_expire_def)

lemma expire_in_time: "now - pb_last_receive_time b \<le> 1 \<Longrightarrow> packet_expire now b = b"
  by (simp add: packet_expire_def)

lemma numbered_snoc: "numbered fs \<Longrightarrow> unat (seq_no f) = length fs \<Longrightarrow> numbered (fs @ [f])"
  by (auto simp: numbered_def nth_append less_Suc_eq)

lemma map_nth_take: "n \<le> length xs \<Longrightarrow> map ((!) xs) [0..<n] = take n xs"
  by (rule nth_equalityI) simp_all

text \<open>
  A payload with the expected number extends the collected list; the buffer is emptied when the message
  is complete.  Any other payload is dropped, alone or with the list.
\<close>

lemma packet_store_next:
  assumes "length (pb_frames b) = 10" "unat (pb_total_packets b) \<le> 10" "pb_is_active b"
    and "pb_received_packets b < pb_total_packets b" "seq_no f = pb_received_packets b"
  defines "n \<equiv> Suc (length (pending b))"
  shows "packet_store now f b =
    (if n = unat (pb_total_packets b) then (pending b @ [f], zero_packet_buffer)
     else ([], b\<lparr>pb_frames := (pb_frames b)[length (pending b) := f], pb_received_packets := pb_received_packets b + 1,
                 pb_last_receive_time := now\<rparr>))"
    and "length (pending b) = unat (pb_received_packets b)"
    and "unat (pb_received_packets b + 1) = n"
    and "take n ((pb_frames b)[length (pending b) := f]) = pending b @ [f]"
proof -
  have lt: "unat (pb_received_packets b) < unat (pb_total_packets b)" using assms(4) by (simp add: word_less_nat_alt)
  show len: "length (pending b) = unat (pb_received_packets b)"
    using assms(1-3) lt by (simp add: pending_def)
  then show n: "unat (pb_received_packets b + 1) = n"
    using lt assms(2) by (simp add: n_def unat_word_ariths)
  show t: "take n ((pb_frames b)[length (pending b) := f]) = pending b @ [f]"
    using assms(1-3) lt len by (simp add: n_def take_Suc_conv_app_nth pending_def)
  have eq: "(pb_received_packets b + 1 = pb_total_packets b) = (n = unat (pb_total_packets b))"
    using n by (metis word_unat_eq_iff)
  have m: "map ((!) ((pb_frames b)[length (pending b) := f])) [0..<n] = pending b @ [f]"
    using t lt assms(1,2) len map_nth_take[of n "(pb_frames b)[length (pending b) := f]"] by (simp add: n_def)
  show "packet_store now f b =
    (if n = unat (pb_total_packets b) then (pending b @ [f], zero_packet_buffer)
     else ([], b\<lparr>pb_frames := (pb_frames b)[length (pending b) := f], pb_received_packets := pb_received_packets b + 1,
                 pb_last_receive_time := now\<rparr>))"
  proof (cases "n = unat (pb_total_packets b)")
    case True
    then show ?thesis using assms(3-5) len m eq by (simp add: packet_store_def not_le Let_def)
  next
    case False
    then show ?thesis using assms(3-5) len eq by (simp add: packet_store_def not_le Let_def)
  qed
qed

lemma packet_store_cases:
  assumes "pb_ok b" "packet_store now f b = (out, b')" "seq_no f = 0 \<Longrightarrow> seq_sum f = pb_total_packets b"
  shows "pb_ok b' \<and> (out = [] \<and> (pending b' = pending b @ [f] \<or> pending b' = pending b \<or> pending b' = []) \<or>
    out = pending b @ [f] \<and> pending b' = [] \<and> message out)"
proof (cases "pb_is_active b \<and> seq_no f = pb_received_packets b")
  case True
  then have r: "pb_is_active b" "pb_received_packets b < pb_total_packets b" "seq_no f = pb_received_packets b"
      "length (pb_frames b) = 10" "unat (pb_total_packets b) \<le> 10" "numbered (pending b)"
      "pending b \<noteq> [] \<Longrightarrow> seq_sum (pending b ! 0) = pb_total_packets b"
    using assms(1) by (simp_all add: pb_ok_def)
  note st = packet_store_next[OF r(4,5,1,2,3)]
  have num: "numbered (pending b @ [f])" using r(3,6) st(2) by (intro numbered_snoc) simp_all
  have tot: "seq_sum ((pending b @ [f]) ! 0) = pb_total_packets b"
  proof (cases "pending b")
    case Nil
    then have "seq_no f = 0" using st(2) r(3) by (simp add: unat_eq_zero)
    then show ?thesis using assms(3) Nil by simp
  qed (use r(7) in \<open>simp add: nth_append\<close>)
  show ?thesis
  proof (cases "Suc (length (pending b)) = unat (pb_total_packets b)")
    case full: True
    then have "out = pending b @ [f]" "b' = zero_packet_buffer" using assms(2) st(1) by simp_all
    then show ?thesis using num tot full r(5) by (simp add: message_def)
  next
    case False
    then have o: "out = []" and b': "b' = b\<lparr>pb_frames := (pb_frames b)[length (pending b) := f],
        pb_received_packets := pb_received_packets b + 1, pb_last_receive_time := now\<rparr>"
      using assms(2) st(1)[of now] by simp_all
    then have p: "pending b' = pending b @ [f]" using st(3,4) r(1) unfolding b' by (subst pending_def) simp
    have "pb_received_packets b' < pb_total_packets b'"
      using False r(2) st(2,3) b' by (simp add: word_less_nat_alt)
    then show ?thesis using o p num tot r(1,4,5) b' by (simp add: pb_ok_def)
  qed
next
  case False
  then have "out = [] \<and> (b' = b \<or> b' = zero_packet_buffer)"
    using assms(2) by (auto simp: packet_store_def Let_def split: if_splits)
  then show ?thesis using assms(1) by auto
qed

definition fresh_buffer :: "u8 \<Rightarrow> PacketBuffer" where
  "fresh_buffer n = zero_packet_buffer\<lparr>pb_total_packets := n, pb_is_active := True\<rparr>"

lemma fresh_buffer_ok: "0 < n \<Longrightarrow> n \<le> 10 \<Longrightarrow> pb_ok (fresh_buffer n)" "pending (fresh_buffer n) = []"
  by (simp_all add: pb_ok_def pending_def fresh_buffer_def zero_packet_buffer_def numbered_def word_le_nat_alt)

lemma fresh_total: "pb_total_packets (fresh_buffer n) = n"
  by (simp add: fresh_buffer_def)

lemma packet_step_cases:
  assumes "pb_ok b" "packet_step now f b = (out, b')"
  shows "pb_ok b' \<and> (out = [] \<and> subseq (pending b') (pending b @ [f]) \<or>
    subseq out (pending b @ [f]) \<and> pending b' = [] \<and> message out)"
proof -
  let ?e = "packet_expire now b"
  have e: "pb_ok ?e" "pending ?e = pending b \<or> pending ?e = []" using expire_cases[of now b] assms(1) by auto
  show ?thesis
  proof (cases "seq_no f = 0")
    case True
    show ?thesis
    proof (cases "seq_sum f \<le> 0 \<or> seq_sum f > 10")
      case bad: True
      then have "out = [] \<and> b' = ?e" using assms(2) True by (simp add: packet_step_def Let_def)
      then show ?thesis using e by auto
    next
      case False
      then have "packet_store now f (fresh_buffer (seq_sum f)) = (out, b')"
        using assms(2) True by (simp add: packet_step_def Let_def fresh_buffer_def)
      moreover have "pb_ok (fresh_buffer (seq_sum f))" using False by (intro fresh_buffer_ok) (auto simp: word_neq_0_conv[symmetric])
      ultimately show ?thesis
        using packet_store_cases[of "fresh_buffer (seq_sum f)" now f out b']
        by (auto simp: fresh_buffer_ok fresh_total)
    qed
  next
    case False
    then have "packet_store now f ?e = (out, b')" using assms(2) by (simp add: packet_step_def Let_def)
    from packet_store_cases[OF e(1) this] False e(2) show ?thesis by auto
  qed
qed

text \<open>A sequence of payloads with their arrival times: the messages sent, and the buffer at the end.\<close>

fun packet_run :: "(int \<times> PC_ARM_DATA_DATA) list \<Rightarrow> PacketBuffer \<Rightarrow> PC_ARM_DATA_DATA list list \<times> PacketBuffer" where
  "packet_run [] b = ([], b)"
| "packet_run ((now, f) # ins) b =
     (case packet_step now f b of (out, b1) \<Rightarrow>
        (case packet_run ins b1 of (outs, b2) \<Rightarrow> (if out = [] then outs else out # outs, b2)))"

lemma packet_run_inv:
  assumes "pb_ok b" "packet_run ins b = (outs, b')"
  shows "pb_ok b' \<and> (\<forall>fs \<in> set outs. message fs) \<and>
    subseq (concat outs @ pending b') (pending b @ map snd ins)"
  using assms
proof (induction ins arbitrary: b outs)
  case Nil
  then show ?case by simp
next
  case (Cons x ins)
  obtain now f where x: "x = (now, f)" by fastforce
  obtain out b1 where st: "packet_step now f b = (out, b1)" by fastforce
  obtain outs1 where r: "packet_run ins b1 = (outs1, b')" and o: "outs = (if out = [] then outs1 else out # outs1)"
    using Cons.prems(2) by (auto simp: x st split: prod.splits)
  note s = packet_step_cases[OF Cons.prems(1) st]
  note ih = Cons.IH[OF _ r]
  have "subseq (out @ pending b1) (pending b @ [f])" using s by auto
  then have "subseq (out @ pending b1 @ map snd ins) (pending b @ [f] @ map snd ins)"
    by (metis append.assoc subseq_append)
  moreover have "subseq (out @ concat outs1 @ pending b') (out @ pending b1 @ map snd ins)"
    using ih s by (simp add: subseq_append')
  ultimately have "subseq (out @ concat outs1 @ pending b') (pending b @ f # map snd ins)"
    using subseq_order.trans by fastforce
  then show ?case using s ih by (auto simp: o x)
qed

text \<open>The packets of a message, one after the other and in time.\<close>

definition collecting :: "PC_ARM_DATA_DATA list \<Rightarrow> nat \<Rightarrow> int \<Rightarrow> PacketBuffer \<Rightarrow> bool" where
  "collecting fs i since b \<longleftrightarrow> pb_ok b \<and> (0 < i \<longrightarrow> pb_is_active b \<and> pending b = take i fs \<and>
     unat (pb_total_packets b) = length fs \<and> pb_last_receive_time b = since)"

lemma collecting_store:
  assumes "message fs" "i < length fs" "pb_ok b" "pb_is_active b" "pending b = take i fs"
    "unat (pb_total_packets b) = length fs"
  shows "\<exists>b'. packet_store now (fs ! i) b = (if Suc i = length fs then fs else [], b') \<and>
    collecting fs (if Suc i = length fs then 0 else Suc i) now b'"
proof -
  have r: "pb_received_packets b < pb_total_packets b" "length (pb_frames b) = 10" "unat (pb_total_packets b) \<le> 10"
    using assms(3,4) by (simp_all add: pb_ok_def)
  then have "length (pending b) = unat (pb_received_packets b)"
    using assms(4) by (simp add: pending_def word_less_nat_alt)
  then have q: "seq_no (fs ! i) = pb_received_packets b"
    using assms(1,2,5) by (simp add: message_def numbered_def word_unat_eq_iff)
  note st = packet_store_next[OF r(2,3) assms(4) r(1) q]
  have i: "length (pending b) = i" "pending b @ [fs ! i] = take (Suc i) fs"
    using assms(2,5) by (simp_all add: take_Suc_conv_app_nth)
  have z: "seq_sum (fs ! i) = pb_total_packets b" if "seq_no (fs ! i) = 0"
  proof -
    have "i = 0" using that assms(1,2) by (auto simp: message_def numbered_def unat_eq_0)
    then show ?thesis using assms(1,6) by (simp add: message_def word_unat_eq_iff)
  qed
  obtain out b' where e: "packet_store now (fs ! i) b = (out, b')" by fastforce
  then have "pb_ok b'" using packet_store_cases[OF assms(3) e z] by simp
  then show ?thesis
    using e st(1)[of now] i st(3,4) assms(2,4,6)
    by (auto simp: collecting_def pending_def split: if_splits)
qed

lemma message_step:
  assumes "message fs" "i < length fs" "collecting fs i since b" "now - since \<le> 1"
  shows "\<exists>b'. packet_step now (fs ! i) b = (if Suc i = length fs then fs else [], b') \<and>
    collecting fs (if Suc i = length fs then 0 else Suc i) now b'"
proof (cases "i = 0")
  case True
  have sum: "unat (seq_sum (fs ! 0)) = length fs" "fs \<noteq> []" "length fs \<le> 10" "seq_no (fs ! 0) = 0"
    using assms(1) by (auto simp: message_def numbered_def unat_eq_0)
  then have n: "0 < seq_sum (fs ! 0)" "seq_sum (fs ! 0) \<le> 10" by (simp_all add: word_less_nat_alt word_le_nat_alt)
  have "packet_step now (fs ! 0) b = packet_store now (fs ! 0) (fresh_buffer (seq_sum (fs ! 0)))"
    using n sum(4) by (auto simp: packet_step_def Let_def fresh_buffer_def)
  moreover have "pb_is_active (fresh_buffer k)" for k by (simp add: fresh_buffer_def)
  ultimately show ?thesis
    using collecting_store[OF assms(1), of 0 "fresh_buffer (seq_sum (fs ! 0))" now] sum True
      fresh_buffer_ok(1)[OF n] fresh_buffer_ok(2)[of "seq_sum (fs ! 0)"] fresh_total[of "seq_sum (fs ! 0)"]
    by auto
next
  case False
  then have "seq_no (fs ! i) \<noteq> 0" using assms(1,2) by (auto simp: message_def numbered_def)
  moreover have "packet_expire now b = b" using assms(3,4) False by (intro expire_in_time) (simp add: collecting_def)
  ultimately have "packet_step now (fs ! i) b = packet_store now (fs ! i) b" by (simp add: packet_step_def Let_def)
  then show ?thesis using collecting_store[OF assms(1,2), of b now] assms(3) False by (simp add: collecting_def)
qed

section \<open>A round on the whole state\<close>

definition tx_ok :: "u8 \<Rightarrow> server \<Rightarrow> bool" where
  "tx_ok ch s \<longleftrightarrow> set_inv (g_data_buf_set s) \<and> elem_size (g_data_buf_set s) = 48 \<and> unat ch < AXICAN_MAX \<and>
     length (packet_buffers s) = AXICAN_MAX \<and> AXICAN_MAX \<le> length (axican_test s) \<and>
     dc_state (can_configs s ! unat ch) = CAN_STATE_OPENED"

abbreviation tx_fd :: "u8 \<Rightarrow> server \<Rightarrow> int" where "tx_fd ch s \<equiv> ax_wr_fd (axican_test s ! unat ch)"

definition tx_same :: "server \<Rightarrow> server \<Rightarrow> bool" where
  "tx_same s t \<longleftrightarrow> (\<forall>c. tx_fd c t = tx_fd c s) \<and> length (axican_test t) = length (axican_test s) \<and>
     can_configs t = can_configs s \<and> running t = running s"

lemma tx_same_refl [simp]: "tx_same s s"
  by (simp add: tx_same_def)

lemma tx_same_fd: "tx_same s t \<Longrightarrow> tx_fd c t = tx_fd c s" "tx_same s t \<Longrightarrow> running t = running s"
  by (simp_all add: tx_same_def)

lemma tx_same_event [simp]: "tx_same s (send_event os l e m t) = tx_same s t"
  by (simp add: tx_same_def)

lemma send_fold_effect:
  assumes "unat ch < length (axican_test s)"
  shows "tx_same s (fold (send_single_frame os ch) fs s) \<and>
    tx_log (tx_fd ch s) (fold (send_single_frame os ch) fs s) = tx_log (tx_fd ch s) s @ map (\<lambda>p. single_frame p 0) fs \<and>
    packet_buffers (fold (send_single_frame os ch) fs s) = packet_buffers s \<and>
    g_data_buf_set (fold (send_single_frame os ch) fs s) = g_data_buf_set s"
  using assms
proof (induction fs arbitrary: s)
  case Nil
  then show ?case by simp
next
  case (Cons f fs)
  note e = send_single_frame_effect[OF Cons.prems]
  show ?case
    using Cons.IH[of "send_single_frame os ch f s"] Cons.prems by (simp add: e tx_same_def)
qed

lemma round_takes_head:
  assumes "tx_ok ch s" "normal_queue s ch = b # rest"
  defines "s1 \<equiv> s\<lparr>g_data_buf_set := set_pop (g_data_buf_set s) ch\<rparr>"
  shows "ringbuffer_32ch_get (Some (g_data_buf_set s)) ch (Some (replicate 48 0)) 32 =
      (Inr 1, Some (set_pop (g_data_buf_set s) ch), Some b)"
    and "tx_ready ch s" and "tx_ok ch s1" and "normal_queue s1 c = (if c = ch then rest else normal_queue s c)"
proof -
  let ?q = "g_data_buf_set s"
  have q: "set_inv ?q" "elem_size ?q = 48" using assms(1) by (simp_all add: tx_ok_def)
  have c: "ch_ok ?q ch 32" "ch_contents ?q ch = b # rest"
    using assms(2) by (simp_all add: normal_queue_def ch_view_def split: if_splits)
  show "ringbuffer_32ch_get (Some ?q) ch (Some (replicate 48 0)) 32 = (Inr 1, Some (set_pop ?q ch), Some b)"
    using c q(2) by (simp add: ch32_get_cases[OF q(1)])
  have "unat (ringbuffer_32ch_len (Some ?q) ch 32) \<noteq> 0" using ch32_len[OF q(1), of ch 32] c by simp
  then show "tx_ready ch s" using assms(1) by (auto simp: tx_ready_def tx_ok_def)
  note l = set_pop_laws[OF q(1) c(1)]
  show "tx_ok ch s1" using assms(1) l(1,5) c(2) by (simp add: tx_ok_def s1_def)
  show "normal_queue s1 c = (if c = ch then rest else normal_queue s c)"
    using l(2,4) c by (simp add: s1_def normal_queue_def ch_view_def)
qed

text \<open>The payload at the head of the queue, and what the thread does with it.\<close>

definition sendable :: "u8 \<Rightarrow> PC_ARM_DATA_DATA \<Rightarrow> bool" where
  "sendable ch f \<longleftrightarrow> pd_head f = PC_STATUS_HEAD \<and> pd_ch_id f = ch"

lemma round_effect:
  fixes os
  assumes "tx_ok ch s" "normal_queue s ch = b # rest"
  defines "f \<equiv> pc_arm_data_of b"
  defines "out \<equiv> (if \<not> sendable ch f then ([], packet_buffers s ! unat ch)
    else if seq_sum f = 1 then ([f], packet_buffers s ! unat ch)
    else packet_step (os_time os (sys_calls s)) f (packet_buffers s ! unat ch))"
  defines "t \<equiv> axican_data_send_round os ch s"
  shows "tx_same s t \<and> tx_ok ch t \<and> (\<forall>c. normal_queue t c = (if c = ch then rest else normal_queue s c)) \<and>
    tx_log (tx_fd ch s) t = tx_log (tx_fd ch s) s @ map (\<lambda>p. single_frame p 0) (fst out) \<and>
    packet_buffers t = (packet_buffers s)[unat ch := snd out]"
proof -
  let ?s1 = "s\<lparr>g_data_buf_set := set_pop (g_data_buf_set s) ch\<rparr>"
  note h = round_takes_head[OF assms(1,2)]
  have len: "unat ch < length (axican_test s)" "unat ch < length (packet_buffers s)"
    using assms(1) by (simp_all add: tx_ok_def)
  have t: "t = (if pd_head f \<noteq> PC_STATUS_HEAD then send_error os ''Invalid sync word'' ?s1
      else if pd_ch_id f \<noteq> ch then send_error os ''Channel mismatch'' ?s1
      else if seq_sum f = 1 then send_single_frame os ch f ?s1 else send_multi os ch f ?s1)"
    using h(1,2) by (simp add: t_def axican_data_send_round_def ret_val_def f_def[symmetric])
  have q: "tx_ok ch u \<and> (\<forall>c. normal_queue u c = (if c = ch then rest else normal_queue s c))"
    if "tx_same s u" "g_data_buf_set u = g_data_buf_set ?s1" "length (packet_buffers u) = length (packet_buffers s)" for u
    using that h(3,4) by (simp add: tx_same_def tx_ok_def normal_queue_def)
  consider "\<not> sendable ch f" | "sendable ch f" "seq_sum f = 1" | "sendable ch f" "seq_sum f \<noteq> 1" by blast
  then show ?thesis
  proof cases
    case 1
    then have "\<exists>m. t = send_error os m ?s1"
      unfolding t sendable_def by (cases "pd_head f = PC_STATUS_HEAD") auto
    then obtain m where "t = send_error os m ?s1" ..
    moreover have "tx_same s ?s1" by (simp add: tx_same_def)
    ultimately show ?thesis using q[of t] 1 by (simp add: out_def)
  next
    case 2
    then have "t = send_single_frame os ch f ?s1" by (simp add: t sendable_def)
    then show ?thesis
      using send_single_frame_effect[where os = os and ch = ch and s = ?s1 and p = f] len q[of t] 2 by (simp add: out_def tx_same_def)
  next
    case 3
    obtain outs b' where p: "packet_step (os_time os (sys_calls s)) f (packet_buffers s ! unat ch) = (outs, b')" by fastforce
    let ?s2 = "?s1\<lparr>sys_calls := Suc (sys_calls s)\<rparr>"
    have "t = (fold (send_single_frame os ch) outs ?s2)\<lparr>packet_buffers := (packet_buffers s)[unat ch := b']\<rparr>"
      using 3 p by (simp add: t sendable_def send_multi_def sys_time_def)
    then show ?thesis
      using send_fold_effect[of ch ?s2 os outs] len q[of t] 3 p by (simp add: out_def tx_same_def)
  qed
qed

lemma message_rounds:
  assumes "message fs" "length fs \<noteq> 1" "i < length fs" "tx_ok ch s" "running s"
    and "\<forall>f \<in> set fs. sendable ch f \<and> unat (seq_sum f) = length fs" "normal_queue s ch = map pc_arm_data_bytes (drop i fs) @ rest"
    and "collecting fs i (os_time os k) (packet_buffers s ! unat ch)" "\<forall>j k. os_time os j - os_time os k \<le> 1"
  shows "let t = send_rounds os ch (length fs - i) s in normal_queue t ch = rest \<and>
    tx_log (tx_fd ch s) t = tx_log (tx_fd ch s) s @ map (\<lambda>p. single_frame p 0) fs"
  using assms
proof (induction "length fs - i" arbitrary: i s k)
  case 0
  then show ?case by simp
next
  case (Suc m)
  let ?f = "fs ! i" and ?t = "axican_data_send_round os ch s"
  have q: "normal_queue s ch = pc_arm_data_bytes ?f # (map pc_arm_data_bytes (drop (Suc i) fs) @ rest)"
    using Suc.prems(3,7) by (simp add: Cons_nth_drop_Suc[symmetric])
  obtain b' where st: "packet_step (os_time os (sys_calls s)) ?f (packet_buffers s ! unat ch) =
      (if Suc i = length fs then fs else [], b')"
    and co: "collecting fs (if Suc i = length fs then 0 else Suc i) (os_time os (sys_calls s)) b'"
    using message_step[OF Suc.prems(1,3,8)] Suc.prems(9) by blast
  have f: "sendable ch ?f" "seq_sum ?f \<noteq> 1"
    using nth_mem[OF Suc.prems(3)] Suc.prems(2,6) by auto
  have e: "tx_same s ?t" "tx_ok ch ?t" "normal_queue ?t ch = map pc_arm_data_bytes (drop (Suc i) fs) @ rest"
      "tx_log (tx_fd ch s) ?t = tx_log (tx_fd ch s) s @ map (\<lambda>p. single_frame p 0) (if Suc i = length fs then fs else [])"
      "packet_buffers ?t = (packet_buffers s)[unat ch := b']"
    using round_effect[OF Suc.prems(4) q, of os] f st by simp_all
  have fd: "tx_fd ch ?t = tx_fd ch s" "running ?t" using tx_same_fd[OF e(1)] Suc.prems(5) by simp_all
  have m: "length fs - i = Suc (length fs - Suc i)" using Suc.prems(3) by simp
  show ?case
  proof (cases "Suc i = length fs")
    case True
    then show ?thesis using e Suc.prems(5) unfolding m by simp
  next
    case False
    have b: "packet_buffers ?t ! unat ch = b'" using Suc.prems(4) by (simp add: e(5) tx_ok_def)
    have "let u = send_rounds os ch (length fs - Suc i) ?t in normal_queue u ch = rest \<and>
      tx_log (tx_fd ch ?t) u = tx_log (tx_fd ch ?t) ?t @ map (\<lambda>p. single_frame p 0) fs"
      using Suc.hyps(2) Suc.prems(3) False co b
      by (intro Suc.hyps(1)[OF _ Suc.prems(1,2) _ e(2) fd(2) Suc.prems(6) e(3) _ Suc.prems(9)]) simp_all
    then show ?thesis using e(4) False fd(1) Suc.prems(5) unfolding m by (simp add: Let_def)
  qed
qed

section \<open>Properties\<close>

definition demo_msg :: "PC_ARM_DATA_DATA list" where
  "demo_msg = map (\<lambda>i. zero_payload\<lparr>pd_head := PC_STATUS_HEAD, pd_packets_sum := 2, pd_packets_no := of_nat i,
     pd_idr := of_nat (7 + i)\<rparr>) [0..<2]"

definition demo_tx :: server where
  "demo_tx = demo_server\<lparr>g_data_buf_set := \<lparr>channels = Some [Some \<lparr>rb_data = concat (map pc_arm_data_bytes demo_msg),
     rb_in = 2, rb_out = 0, rb_mask = 1, rb_esize = 48\<rparr>], max_channel = 1, elem_size = 48, buf_capacity = 2\<rparr>\<rparr>"

lemma demo_msg_eq: "demo_msg = [zero_payload\<lparr>pd_head := PC_STATUS_HEAD, pd_packets_sum := 2, pd_packets_no := 0, pd_idr := 7\<rparr>,
    zero_payload\<lparr>pd_head := PC_STATUS_HEAD, pd_packets_sum := 2, pd_packets_no := 1, pd_idr := 8\<rparr>]"
  by (simp add: demo_msg_def upt_rec)

lemma demo_tx_queue: "normal_queue demo_tx 0 = map pc_arm_data_bytes demo_msg"
  by (simp add: normal_queue_def demo_tx_def ch_view_def ch_ok_def ringbuffer_channel_valid_def ch_contents_def
      channel_of_def rb_list_def rb_count_def rb_slot_def rb_capacity_def demo_msg_eq upt_rec)

lemma demo_tx_ok: "tx_ok 0 demo_tx" "running demo_tx"
  by (simp_all add: tx_ok_def demo_tx_def demo_server_def boot_server_def set_inv_def rb_inv_def is_power_of_2_def
      rb_capacity_def rb_count_def demo_msg_eq)

text \<open>
  C31.  One round of a sending thread, on every branch: the head of the queue of its channel is removed and no
  other queue changes; a payload with a wrong head or channel leaves the bus and the packet buffer alone; a single packet
  goes to the device at once; any other packet goes to the packet buffer, and what that releases goes to the device.
\<close>

theorem send_round_effect:
  assumes "tx_ok ch s" and "normal_queue s ch = b # rest"
  shows "let f = pc_arm_data_of b; t = axican_data_send_round os ch s;
      old = packet_buffers s ! unat ch;
      (out, new) = (if pd_head f \<noteq> PC_STATUS_HEAD \<or> pd_ch_id f \<noteq> ch then ([], old)
        else if seq_sum f = 1 then ([f], old) else packet_step (os_time os (sys_calls s)) f old)
    in (\<forall>c. normal_queue t c = (if c = ch then rest else normal_queue s c)) \<and>
       tx_log (tx_fd ch s) t = tx_log (tx_fd ch s) s @ map (\<lambda>p. single_frame p 0) out \<and>
       packet_buffers t = (packet_buffers s)[unat ch := new]"
  using round_effect[OF assms, of os] by (simp add: sendable_def Let_def split: prod.split)

theorem send_round_effect_witness:
  "normal_queue (axican_data_send_round demo_os 0 demo_tx) 0 = [pc_arm_data_bytes (demo_msg ! 1)]"
  using send_round_effect[OF demo_tx_ok(1), of _ _ demo_os] by (simp add: demo_tx_queue demo_msg_eq Let_def split: prod.splits)

text \<open>
  C12.  Whatever packets arrive, in whatever order and at whatever times, only complete messages are sent: every
  message sent has at most ten packets, numbered from 0, as many as its first packet announces; the packets sent
  are, in order and at most once each, packets that arrived; and the number of collected packets stays below the
  announced total, which never exceeds the ten places of the buffer.
\<close>

theorem only_complete_messages:
  assumes "packet_run ins zero_packet_buffer = (outs, b)"
  shows "(\<forall>fs \<in> set outs. message fs) \<and> subseq (concat outs) (map snd ins) \<and>
    length (pb_frames b) = 10 \<and> unat (pb_total_packets b) \<le> 10 \<and>
    (pb_is_active b \<longrightarrow> pb_received_packets b < pb_total_packets b)"
proof -
  note r = packet_run_inv[OF zero_buffer_ok(1) assms]
  then have "subseq (concat outs) (map snd ins)"
    by (metis append_Nil subseq_order.trans zero_buffer_ok(2) list_emb_append2 prefix_def prefix_imp_subseq)
  then show ?thesis using r by (simp add: pb_ok_def)
qed

theorem only_complete_messages_witness:
  "subseq (concat (fst (packet_run [(0, demo_msg ! 0), (1, demo_msg ! 1)] zero_packet_buffer))) demo_msg"
  using only_complete_messages[of "[(0, demo_msg ! 0), (1, demo_msg ! 1)]"]
  by (cases "packet_run [(0, demo_msg ! 0), (1, demo_msg ! 1)] zero_packet_buffer") (simp add: demo_msg_eq)

text \<open>
  C16.  A message whose packets arrive in order is delivered: when the queue of an open channel starts with the
  two to ten packets of a message and no second clock tick separates them, then as many rounds write exactly these
  frames to the device, in order, and leave the rest of the queue.
\<close>

theorem message_delivered:
  assumes "message fs" and "length fs \<noteq> 1" and "\<forall>f \<in> set fs. sendable ch f \<and> unat (seq_sum f) = length fs"
    and "tx_ok ch s" and "running s" and "pb_ok (packet_buffers s ! unat ch)"
    and "normal_queue s ch = map pc_arm_data_bytes fs @ rest" and "\<forall>j k. os_time os j - os_time os k \<le> 1"
  shows "let t = send_rounds os ch (length fs) s in normal_queue t ch = rest \<and>
    tx_log (tx_fd ch s) t = tx_log (tx_fd ch s) s @ map (\<lambda>p. single_frame p 0) fs"
  using message_rounds[OF assms(1,2) _ assms(4,5,3) _ _ assms(8), of 0 rest 0] assms(1,6,7)
  by (simp add: collecting_def message_def)

theorem message_delivered_witness:
  "tx_log 0 (send_rounds demo_os 0 2 demo_tx) = map (\<lambda>p. single_frame p 0) demo_msg"
proof -
  have "message demo_msg" by (simp add: message_def numbered_def demo_msg_eq less_Suc_eq)
  moreover have "\<forall>f \<in> set demo_msg. sendable 0 f \<and> unat (seq_sum f) = length demo_msg"
    by (simp add: demo_msg_eq sendable_def zero_payload_def)
  moreover have "pb_ok (packet_buffers demo_tx ! unat (0 :: u8))"
    by (simp add: demo_tx_def demo_server_def boot_server_def)
  moreover have "tx_fd 0 demo_tx = 0" "tx_log 0 demo_tx = []" "length demo_msg = 2"
    by (simp_all add: demo_tx_def demo_server_def boot_server_def zero_axican_def tx_log_def demo_msg_def)
  ultimately show ?thesis
    using message_delivered[OF _ _ _ demo_tx_ok _ _, of demo_msg "[]" demo_os]
    by (simp add: demo_tx_queue demo_os_def Let_def)
qed

end
