(* ===== verification/Receive.thy ===== *)
theory Receive
  imports Packet_Send
begin

text \<open>
  The receiving side: the driver wrappers of \<^verbatim>\<open>src/axican/axican.c\<close>, the threads of \<^verbatim>\<open>src/main18.c\<close> that
  read frames from the devices into the receive and monitor queues, and the threads that report the
  queued frames to the host.

  The driver is a parameter, the record \<open>can_driver\<close>: what the \<open>k\<close>-th system call returns, and the number or the
  bytes that it stores.  The frame buffers inside \<open>struct axican\<close> are only passed to these calls and have no
  counterpart.
\<close>

section \<open>Driver\<close>

record can_driver =
  drv_poll :: "nat \<Rightarrow> int"
  drv_count :: "nat \<Rightarrow> int \<times> u32"
  drv_read :: "nat \<Rightarrow> int \<times> byte list"
  drv_get :: "nat \<Rightarrow> int \<times> byte list"

definition tick :: "server \<Rightarrow> server" where
  "tick s = s\<lparr>sys_calls := Suc (sys_calls s)\<rparr>"

definition axican_poll :: "can_driver \<Rightarrow> int \<Rightarrow> int \<Rightarrow> server \<Rightarrow> int \<times> server" where
  "axican_poll drv fd flags s =
     (if flags \<noteq> 0 \<and> flags \<noteq> 1 then (-1, s)
      else let pollrc = drv_poll drv (sys_calls s)
           in if pollrc > 0 then (0, tick s) else if pollrc = 0 then (-1, tick s) else (-1, tick s))"

definition axican_poll2 :: "can_driver \<Rightarrow> int \<Rightarrow> int \<Rightarrow> server \<Rightarrow> int \<times> server" where
  "axican_poll2 drv fd flags s =
     (if flags \<noteq> 0 \<and> flags \<noteq> 1 then (-1, s)
      else let pollrc = drv_poll drv (sys_calls s) in if pollrc > 0 then (0, tick s) else (-1, tick s))"

definition axican_get_frame_count :: "can_driver \<Rightarrow> int \<Rightarrow> server \<Rightarrow> int \<times> server" where
  "axican_get_frame_count drv fd s =
     (case drv_count drv (sys_calls s) of (rc, frame_count) \<Rightarrow>
        if rc \<noteq> 0 then (0, tick s) else (sint frame_count, tick s))"

text \<open>The buffer was filled with zeros before the call; the call overwrites its front.\<close>

definition axican_read :: "can_driver \<Rightarrow> int \<Rightarrow> int \<Rightarrow> server \<Rightarrow> int \<times> byte list \<times> server" where
  "axican_read drv fd flags s =
     (case (if flags \<noteq> 0 then drv_read drv (sys_calls s) else drv_get drv (sys_calls s)) of
        (rc, bytes) \<Rightarrow> (rc, take 24 (bytes @ replicate 24 0), tick s))"

section \<open>Reading a device into a queue\<close>

text \<open>The channel is an unsigned number here, so the test for a negative one is void.\<close>

fun read_loop ::
    "can_driver \<Rightarrow> int \<Rightarrow> int \<Rightarrow> (byte list \<Rightarrow> server \<Rightarrow> server) \<Rightarrow> nat \<Rightarrow> nat \<Rightarrow> server \<Rightarrow> int \<times> server" where
  "read_loop drv fd flags store i 0 s = (int i, s)"
| "read_loop drv fd flags store i (Suc n) s =
     (case axican_read drv fd flags s of (rc, frame, s1) \<Rightarrow>
        if rc \<noteq> 24 then (int i, s1) else read_loop drv fd flags store (Suc i) n (store frame s1))"

definition put_poll :: "u8 \<Rightarrow> u8 \<Rightarrow> byte list \<Rightarrow> server \<Rightarrow> server" where
  "put_poll ch limit frame s =
     (case ringbuffer_32ch_put (Some (g_poll_buf_set s)) ch (Some frame) limit of (r, set') \<Rightarrow>
        s\<lparr>g_poll_buf_set := the set'\<rparr>)"

definition put_can :: "u8 \<Rightarrow> u8 \<Rightarrow> byte list \<Rightarrow> server \<Rightarrow> server" where
  "put_can ch limit frame s =
     (case ringbuffer_32ch_put (Some (g_can_buf_set s)) ch (Some frame) limit of (r, set') \<Rightarrow>
        s\<lparr>g_can_buf_set := the set'\<rparr>)"

definition axican_read_data_t :: "can_driver \<Rightarrow> int \<Rightarrow> int \<Rightarrow> u8 \<Rightarrow> u8 \<Rightarrow> server \<Rightarrow> int \<times> server" where
  "axican_read_data_t drv fd flags ch limit s =
     (if fd < 0 then (-1, s)
      else if ch \<ge> limit then (-1, s)
      else case axican_get_frame_count drv fd s of (frame_count, s1) \<Rightarrow>
        if frame_count \<le> 0 then (0, s1)
        else read_loop drv fd flags (put_poll ch limit) 0 (nat frame_count) s1)"

definition axican_read_data :: "can_driver \<Rightarrow> int \<Rightarrow> int \<Rightarrow> u8 \<Rightarrow> u8 \<Rightarrow> server \<Rightarrow> int \<times> server" where
  "axican_read_data drv fd flags ch limit s =
     (if fd < 0 then (-1, s)
      else if ch \<ge> limit then (-1, s)
      else case axican_get_frame_count drv fd s of (frame_count, s1) \<Rightarrow>
        if frame_count \<le> 0 then (0, s1)
        else read_loop drv fd flags (put_can ch limit) 0 (nat frame_count) s1)"

text \<open>One turn of the receiving thread and of the transmit monitor of a channel.\<close>

definition axican_data_recv_round :: "can_driver \<Rightarrow> u8 \<Rightarrow> server \<Rightarrow> server" where
  "axican_data_recv_round drv can_id s =
     (if dc_state (can_configs s ! unat can_id) \<noteq> CAN_STATE_OPENED then s
      else let info = axican_test s ! unat can_id
           in case axican_poll2 drv (ax_rd_fd info) (ax_rd_flags info) s of (poll_rc, s1) \<Rightarrow>
                if poll_rc = 0 then snd (axican_read_data drv (ax_rd_fd info) (ax_rd_flags info) can_id 6 s1) else s1)"

definition send_data_tid_round :: "can_driver \<Rightarrow> u8 \<Rightarrow> server \<Rightarrow> server" where
  "send_data_tid_round drv can_id s =
     (let info = axican_test s ! unat can_id
      in case axican_poll2 drv (ax_wr_fd info) (ax_wr_flags info) s of (rc, s1) \<Rightarrow>
           if rc = 0
           then case axican_read_data_t drv (ax_wr_fd info) (ax_wr_flags info) can_id 6 s1 of (read_count, s2) \<Rightarrow>
                  s2\<lparr>axican_test := (axican_test s2)[unat can_id :=
                      (axican_test s2 ! unat can_id)\<lparr>ax_count := ax_count (axican_test s2 ! unat can_id) + read_count\<rparr>]\<rparr>
           else s1)"

section \<open>Reporting to the host\<close>

record CAN_ARM_PC_DATA =
  cd_PC_ARM_DATE_HEAD :: u32
  cd_PC_ARM_DATE_LENGTH :: u32
  cd_PC_ARM_DATE_COUNTER :: u16
  cd_PC_ARM_DATE_COMMAND :: u16
  cd_PC_ARM_DATE_CHECKSUM :: u32
  cd_PC_ARM_CHIND :: u32
  cd_head :: u32
  cd_direction :: u8
  cd_type :: u8
  cd_length :: u8
  cd_ch_id :: u8
  cd_total_count :: u32
  cd_ch_count :: u32
  cd_idr :: u32
  cd_drcr :: u32
  cd_dw1r :: u32
  cd_dw2r :: u32
  cd_status :: u8
  cd_reserved1 :: u8
  cd_reserved2 :: u16
  cd_timestamp :: u64
  cd_xor_checksum :: u32

definition can_arm_bytes :: "CAN_ARM_PC_DATA \<Rightarrow> byte list" where
  "can_arm_bytes r = le_bytes 4 (cd_PC_ARM_DATE_HEAD r) @ le_bytes 4 (cd_PC_ARM_DATE_LENGTH r) @
     le_bytes 2 (cd_PC_ARM_DATE_COUNTER r) @ le_bytes 2 (cd_PC_ARM_DATE_COMMAND r) @
     le_bytes 4 (cd_PC_ARM_DATE_CHECKSUM r) @ le_bytes 4 (cd_PC_ARM_CHIND r) @ le_bytes 4 (cd_head r) @
     [cd_direction r, cd_type r, cd_length r, cd_ch_id r] @ le_bytes 4 (cd_total_count r) @
     le_bytes 4 (cd_ch_count r) @ le_bytes 4 (cd_idr r) @ le_bytes 4 (cd_drcr r) @ le_bytes 4 (cd_dw1r r) @
     le_bytes 4 (cd_dw2r r) @ [cd_status r, cd_reserved1 r] @ le_bytes 2 (cd_reserved2 r) @
     le_bytes 8 (cd_timestamp r) @ le_bytes 4 (cd_xor_checksum r)"

definition can_report :: "u8 \<Rightarrow> axican_frame \<Rightarrow> u32 \<Rightarrow> u32 \<Rightarrow> CAN_ARM_PC_DATA" where
  "can_report can_id frame total_count n =
     (let r = \<lparr>cd_PC_ARM_DATE_HEAD = PC_ARM_STATUS_WORD, cd_PC_ARM_DATE_LENGTH = reverse_4bytes (68 - 20),
               cd_PC_ARM_DATE_COUNTER = 0, cd_PC_ARM_DATE_COMMAND = 0, cd_PC_ARM_DATE_CHECKSUM = 0,
               cd_PC_ARM_CHIND = reverse_4bytes (ucast can_id), cd_head = PC_STATUS_HEAD, cd_direction = 1,
               cd_type = 0x81, cd_length = 0x30, cd_ch_id = can_id, cd_total_count = total_count, cd_ch_count = n,
               cd_idr = af_can_id frame, cd_drcr = drop_bit 28 (af_can_dlc frame), cd_dw1r = af_data0 frame,
               cd_dw2r = af_data1 frame, cd_status = 0, cd_reserved1 = 0, cd_reserved2 = 0,
               cd_timestamp = af_timestamp frame, cd_xor_checksum = 0\<rparr>
      in r\<lparr>cd_xor_checksum := calculate_xor_checksum (Some (can_arm_bytes r)) 64\<rparr>)"

text \<open>Both counters advance even when no client is connected.\<close>

definition handle_normal_mode :: "os \<Rightarrow> u8 \<Rightarrow> axican_frame \<Rightarrow> server \<Rightarrow> server" where
  "handle_normal_mode os can_id frame s =
     (let total_count = next_total_count (data_counter s);
          s1 = s\<lparr>data_counter := ucast total_count\<rparr>
      in case bump_channel_count can_id s1 of (n, s2) \<Rightarrow>
           if data_upload_socket s2 = -1 then s2
           else upload_send os (can_arm_bytes (can_report can_id frame total_count n)) s2)"

fun dequeue_frames ::
    "(server \<Rightarrow> RingBuffer32ChSet) \<Rightarrow> (RingBuffer32ChSet \<Rightarrow> server \<Rightarrow> server) \<Rightarrow> u8 \<Rightarrow> nat \<Rightarrow> server \<Rightarrow>
     axican_frame list \<times> server" where
  "dequeue_frames sel upd can_id 0 s = ([], s)"
| "dequeue_frames sel upd can_id (Suc n) s =
     (case ringbuffer_32ch_get (Some (sel s)) can_id (Some (replicate 24 0)) 6 of (r, set', buf) \<Rightarrow>
        (let s1 = upd (the set') s in
         if ret_val r = 1
         then case dequeue_frames sel upd can_id n s1 of (fs, s2) \<Rightarrow> (axican_frame_of (the buf) # fs, s2)
         else ([], s1)))"

definition axican_data_process_round :: "os \<Rightarrow> u8 \<Rightarrow> server \<Rightarrow> server" where
  "axican_data_process_round os can_id s =
     (if dc_can_type (can_configs s ! unat can_id) = 0 \<and> dc_state (can_configs s ! unat can_id) = CAN_STATE_OPENED
      then let queued_frames = unat (ringbuffer_32ch_len (Some (g_can_buf_set s)) can_id 6);
               read_count = (if queued_frames < 32 then queued_frames else 32)
           in case dequeue_frames g_can_buf_set (\<lambda>q s. s\<lparr>g_can_buf_set := q\<rparr>) can_id read_count s of (batch, s1) \<Rightarrow>
                fold (handle_normal_mode os can_id) batch s1
      else s)"

definition axican_data_process_round_1 :: "os \<Rightarrow> u8 \<Rightarrow> server \<Rightarrow> server" where
  "axican_data_process_round_1 os can_id s =
     (let queued_frames = unat (ringbuffer_32ch_len (Some (g_poll_buf_set s)) can_id 6);
          read_count = (if queued_frames < 32 then queued_frames else 32)
      in case dequeue_frames g_poll_buf_set (\<lambda>q s. s\<lparr>g_poll_buf_set := q\<rparr>) can_id read_count s of (batch, s1) \<Rightarrow>
           (let type = dc_can_type (can_configs s1 ! unat can_id);
                s2 = (if type = 1 then s1\<lparr>can_data_type := 0x82\<rparr>
                      else if type = 0 then s1\<lparr>can_data_type := 0x80\<rparr> else s1)
            in fold (\<lambda>f s. send_can_transmit_response os can_id (can_data_type s) 1 f s) batch s2))"

section \<open>The receive queue of a channel\<close>

definition rx_ok :: "server \<Rightarrow> bool" where
  "rx_ok s \<longleftrightarrow> set_inv (g_can_buf_set s) \<and> elem_size (g_can_buf_set s) = 24"

definition rx_queue :: "u8 \<Rightarrow> server \<Rightarrow> byte list list" where
  "rx_queue ch s = ch_view ch 6 (g_can_buf_set s)"

definition rx_room :: "u8 \<Rightarrow> server \<Rightarrow> nat" where
  "rx_room ch s = ch_room ch 6 (g_can_buf_set s)"

lemma rx_frame:
  "g_can_buf_set t = g_can_buf_set s \<Longrightarrow> rx_ok t = rx_ok s"
  "g_can_buf_set t = g_can_buf_set s \<Longrightarrow> rx_queue ch t = rx_queue ch s"
  "g_can_buf_set t = g_can_buf_set s \<Longrightarrow> rx_room ch t = rx_room ch s"
  by (simp_all add: rx_ok_def rx_queue_def rx_room_def)

lemma tick_frame [simp]:
  "sys_calls (tick s) = Suc (sys_calls s)" "g_can_buf_set (tick s) = g_can_buf_set s" "rx_ok (tick s) = rx_ok s"
  "rx_queue ch (tick s) = rx_queue ch s" "rx_room ch (tick s) = rx_room ch s"
  by (simp_all add: tick_def rx_ok_def rx_queue_def rx_room_def)

lemma put_can_effect:
  assumes "rx_ok s" "length f = 24"
  shows "rx_ok (put_can ch 6 f s) \<and> sys_calls (put_can ch 6 f s) = sys_calls s \<and>
    rx_room c (put_can ch 6 f s) = rx_room c s \<and>
    rx_queue c (put_can ch 6 f s) = (if c = ch \<and> length (rx_queue ch s) < rx_room ch s then rx_queue ch s @ [f] else rx_queue c s)"
proof -
  let ?q = "g_can_buf_set s"
  have q: "set_inv ?q" "elem_size ?q = 24" using assms(1) by (simp_all add: rx_ok_def)
  show ?thesis
  proof (cases "ch_ok ?q ch 6 \<and> length (ch_contents ?q ch) < ch_capacity ?q ch")
    case True
    then have l: "ch_ok ?q ch 6" "length (ch_contents ?q ch) < ch_capacity ?q ch" by simp_all
    have "put_can ch 6 f s = s\<lparr>g_can_buf_set := set_push ?q ch f\<rparr>"
      using l by (simp add: put_can_def ch32_put_cases[OF q(1)])
    then show ?thesis
      using set_push_laws[OF q(1) l, of f] assms(2) q(2) l
      by (auto simp: rx_ok_def rx_queue_def rx_room_def ch_view_def ch_room_def)
  next
    case False
    then have "put_can ch 6 f s = s" by (auto simp: put_can_def ch32_put_cases[OF q(1)])
    then show ?thesis using assms(1) False by (auto simp: rx_queue_def rx_room_def ch_view_def ch_room_def)
  qed
qed

text \<open>The frames that the driver delivers, from its \<open>k\<close>-th call on; the loop keeps as many as fit.\<close>

fun frames_read :: "can_driver \<Rightarrow> int \<Rightarrow> nat \<Rightarrow> nat \<Rightarrow> byte list list" where
  "frames_read drv flags k 0 = []"
| "frames_read drv flags k (Suc n) =
     (case (if flags \<noteq> 0 then drv_read drv k else drv_get drv k) of (rc, bytes) \<Rightarrow>
        if rc \<noteq> 24 then [] else take 24 (bytes @ replicate 24 0) # frames_read drv flags (Suc k) n)"

lemma read_loop_effect:
  assumes "rx_ok s"
  shows "rx_ok (snd (read_loop drv fd flags (put_can ch 6) i n s)) \<and>
    rx_room c (snd (read_loop drv fd flags (put_can ch 6) i n s)) = rx_room c s \<and>
    rx_queue c (snd (read_loop drv fd flags (put_can ch 6) i n s)) =
      rx_queue c s @ (if c = ch then take (rx_room ch s - length (rx_queue ch s)) (frames_read drv flags (sys_calls s) n) else [])"
  using assms
proof (induction n arbitrary: i s)
  case 0
  then show ?case by simp
next
  case (Suc n)
  obtain rc bytes where r: "(if flags \<noteq> 0 then drv_read drv (sys_calls s) else drv_get drv (sys_calls s)) = (rc, bytes)"
    by fastforce
  define f where "f = take 24 (bytes @ replicate 24 0)"
  show ?case
  proof (cases "rc = 24")
    case True
    let ?s2 = "put_can ch 6 f (tick s)"
    have p: "rx_ok ?s2" "sys_calls ?s2 = Suc (sys_calls s)" "rx_room c ?s2 = rx_room c s"
      "rx_queue c ?s2 = (if c = ch \<and> length (rx_queue ch s) < rx_room ch s then rx_queue ch s @ [f] else rx_queue c s)" for c
      using put_can_effect[of "tick s" f ch c] Suc.prems by (simp_all add: f_def)
    have loop: "read_loop drv fd flags (put_can ch 6) i (Suc n) s = read_loop drv fd flags (put_can ch 6) (Suc i) n ?s2"
      and fr: "frames_read drv flags (sys_calls s) (Suc n) = f # frames_read drv flags (Suc (sys_calls s)) n"
      using r True by (simp_all add: axican_read_def f_def)
    have cut: "(if c = ch \<and> k < m then q @ [f] else q) @ (if c = ch then take (m - (if k < m then Suc k else k)) xs else [])
      = q @ (if c = ch then take (m - k) (f # xs) else [])" for k m :: nat and q and xs
      by (cases "k < m") (auto simp: Suc_diff_Suc[symmetric])
    show ?thesis
      unfolding loop fr
      using Suc.IH[OF p(1), of "Suc i"] p cut[of "length (rx_queue ch s)" "rx_room ch s" "rx_queue c s"]
      by (auto split: if_splits)
  next
    case False
    then show ?thesis using Suc.prems r by (simp add: axican_read_def)
  qed
qed

lemma dequeue_can_effect:
  assumes "rx_ok s" "n \<le> length (rx_queue ch s)"
  shows "\<exists>q. dequeue_frames g_can_buf_set (\<lambda>q s. s\<lparr>g_can_buf_set := q\<rparr>) ch n s =
      (map axican_frame_of (take n (rx_queue ch s)), s\<lparr>g_can_buf_set := q\<rparr>) \<and>
    rx_ok (s\<lparr>g_can_buf_set := q\<rparr>) \<and> (\<forall>c. rx_room c (s\<lparr>g_can_buf_set := q\<rparr>) = rx_room c s) \<and>
    (\<forall>c. rx_queue c (s\<lparr>g_can_buf_set := q\<rparr>) = (if c = ch then drop n (rx_queue ch s) else rx_queue c s))"
  using assms
proof (induction n arbitrary: s)
  case 0
  then show ?case by (intro exI[of _ "g_can_buf_set s"]) simp
next
  case (Suc n)
  let ?q = "g_can_buf_set s" and ?s1 = "s\<lparr>g_can_buf_set := set_pop (g_can_buf_set s) ch\<rparr>"
  obtain x xs where x: "rx_queue ch s = x # xs" using Suc.prems(2) by (cases "rx_queue ch s") auto
  have q: "set_inv ?q" "elem_size ?q = 24" using Suc.prems(1) by (simp_all add: rx_ok_def)
  have c: "ch_ok ?q ch 6" "ch_contents ?q ch = x # xs"
    using x by (simp_all add: rx_queue_def ch_view_def split: if_splits)
  have g: "ringbuffer_32ch_get (Some ?q) ch (Some (replicate 24 0)) 6 = (Inr 1, Some (set_pop ?q ch), Some x)"
    using c q(2) by (simp add: ch32_get_cases[OF q(1)])
  note l = set_pop_laws[OF q(1) c(1)]
  have s1: "rx_ok ?s1" "rx_room d ?s1 = rx_room d s" "rx_queue d ?s1 = (if d = ch then xs else rx_queue d s)" for d
    using l c q(2) by (auto simp: rx_ok_def rx_room_def ch_room_def rx_queue_def ch_view_def)
  have "n \<le> length (rx_queue ch ?s1)" using Suc.prems(2) x s1(3)[of ch] by simp
  from Suc.IH[OF s1(1) this] show ?case
    using g x s1(2,3) by (auto simp: ret_val_def)
qed

text \<open>What the counters and the senders do leaves the receive queue alone.\<close>

lemma handle_normal_frame [simp]: "g_can_buf_set (handle_normal_mode os ch f s) = g_can_buf_set s"
  by (simp add: handle_normal_mode_def bump_channel_count_def Let_def)

lemma fold_normal_frame [simp]: "g_can_buf_set (fold (handle_normal_mode os ch) fs s) = g_can_buf_set s"
  by (induction fs arbitrary: s) simp_all

lemma rx_queue_len: "rx_ok s \<Longrightarrow> unat (ringbuffer_32ch_len (Some (g_can_buf_set s)) ch 6) = length (rx_queue ch s)"
  by (simp add: ch32_len rx_ok_def rx_queue_def ch_view_def)

text \<open>The frames that a turn of the receiving thread obtains, and those that a reporting turn hands on.\<close>

definition recv_frames :: "can_driver \<Rightarrow> u8 \<Rightarrow> server \<Rightarrow> byte list list" where
  "recv_frames drv ch s =
     (let info = axican_test s ! unat ch; k = sys_calls s in
      if dc_state (can_configs s ! unat ch) = CAN_STATE_OPENED \<and> (ax_rd_flags info = 0 \<or> ax_rd_flags info = 1) \<and>
         drv_poll drv k > 0 \<and> ax_rd_fd info \<ge> 0 \<and> ch < 6 \<and> fst (drv_count drv (Suc k)) = 0
      then frames_read drv (ax_rd_flags info) (Suc (Suc k)) (nat (sint (snd (drv_count drv (Suc k))))) else [])"

definition report_ready :: "u8 \<Rightarrow> server \<Rightarrow> bool" where
  "report_ready ch s \<longleftrightarrow> dc_can_type (can_configs s ! unat ch) = 0 \<and> dc_state (can_configs s ! unat ch) = CAN_STATE_OPENED"

definition report_frames :: "u8 \<Rightarrow> server \<Rightarrow> byte list list" where
  "report_frames ch s = (if report_ready ch s then take 32 (rx_queue ch s) else [])"

lemma recv_round_effect:
  fixes drv ch
  assumes "rx_ok s"
  defines "t \<equiv> axican_data_recv_round drv ch s"
  shows "rx_ok t \<and> rx_room c t = rx_room c s \<and> rx_queue c t =
    rx_queue c s @ (if c = ch then take (rx_room ch s - length (rx_queue ch s)) (recv_frames drv ch s) else [])"
proof -
  let ?info = "axican_test s ! unat ch"
  have tt: "rx_ok (tick (tick s))" using assms(1) by simp
  note e = read_loop_effect[OF tt, of drv "ax_rd_fd ?info" "ax_rd_flags ?info" ch 0]
  show ?thesis
    using assms(1) e[of "nat (sint (snd (drv_count drv (Suc (sys_calls s)))))" c]
    by (auto simp: t_def axican_data_recv_round_def axican_poll2_def axican_read_data_def axican_get_frame_count_def
        recv_frames_def Let_def not_le split: prod.split)
qed

lemma process_round_effect:
  assumes "rx_ok s"
  shows "\<exists>q. (if report_ready ch s then axican_data_process_round os ch s =
        fold (handle_normal_mode os ch) (map axican_frame_of (report_frames ch s)) (s\<lparr>g_can_buf_set := q\<rparr>)
      else axican_data_process_round os ch s = s \<and> q = g_can_buf_set s) \<and>
    rx_ok (s\<lparr>g_can_buf_set := q\<rparr>) \<and> (\<forall>c. rx_room c (s\<lparr>g_can_buf_set := q\<rparr>) = rx_room c s) \<and>
    (\<forall>c. rx_queue c (s\<lparr>g_can_buf_set := q\<rparr>) =
       (if c = ch \<and> report_ready ch s then drop 32 (rx_queue ch s) else rx_queue c s))"
proof (cases "report_ready ch s")
  case True
  let ?n = "min 32 (length (rx_queue ch s))"
  obtain q where q: "dequeue_frames g_can_buf_set (\<lambda>q s. s\<lparr>g_can_buf_set := q\<rparr>) ch ?n s =
      (map axican_frame_of (take ?n (rx_queue ch s)), s\<lparr>g_can_buf_set := q\<rparr>)"
    "rx_ok (s\<lparr>g_can_buf_set := q\<rparr>)" "\<forall>c. rx_room c (s\<lparr>g_can_buf_set := q\<rparr>) = rx_room c s"
    "\<forall>c. rx_queue c (s\<lparr>g_can_buf_set := q\<rparr>) = (if c = ch then drop ?n (rx_queue ch s) else rx_queue c s)"
    using dequeue_can_effect[OF assms, of ?n ch] by auto
  have n: "take ?n xs = take 32 xs" "drop ?n xs = drop 32 xs" if "xs = rx_queue ch s" for xs
    using that by (simp_all add: min_def)
  have m: "(if length (rx_queue ch s) < 32 then length (rx_queue ch s) else 32) = ?n" by simp
  have "axican_data_process_round os ch s =
      fold (handle_normal_mode os ch) (map axican_frame_of (report_frames ch s)) (s\<lparr>g_can_buf_set := q\<rparr>)"
    using True q(1) n(1)[OF refl] unfolding axican_data_process_round_def rx_queue_len[OF assms] m Let_def
    by (simp add: report_ready_def report_frames_def)
  then show ?thesis using True q(2-4) n(2)[OF refl] by (intro exI[of _ q]) simp
next
  case False
  then show ?thesis using assms
    by (intro exI[of _ "g_can_buf_set s"]) (auto simp: axican_data_process_round_def report_ready_def)
qed

section \<open>From the device to the host\<close>

text \<open>
  The receiving thread and the reporting thread of a channel, interleaved with each other and with steps that
  leave the receive queue of the channel alone.  The two lists collect the frames obtained from the device and the
  frames handed to the host side.
\<close>

inductive rx_steps ::
    "os \<Rightarrow> can_driver \<Rightarrow> u8 \<Rightarrow> server \<Rightarrow> byte list list \<Rightarrow> byte list list \<Rightarrow> server \<Rightarrow> bool"
  for os drv ch s where
  rx_start: "rx_steps os drv ch s [] [] s"
| rx_recv: "rx_steps os drv ch s obtained reported t \<Longrightarrow>
    rx_steps os drv ch s (obtained @ recv_frames drv ch t) reported (axican_data_recv_round drv ch t)"
| rx_report: "rx_steps os drv ch s obtained reported t \<Longrightarrow>
    rx_steps os drv ch s obtained (reported @ report_frames ch t) (axican_data_process_round os ch t)"
| rx_other: "rx_steps os drv ch s obtained reported t \<Longrightarrow> rx_ok u \<Longrightarrow> rx_room ch u = rx_room ch t \<Longrightarrow>
    rx_queue ch u = rx_queue ch t \<Longrightarrow> rx_steps os drv ch s obtained reported u"

lemma rx_queue_bound: "rx_ok s \<Longrightarrow> length (rx_queue ch s) \<le> rx_room ch s"
  using ch_contents_bound by (auto simp: rx_ok_def rx_queue_def rx_room_def ch_view_def ch_room_def)

lemma rx_steps_inv:
  assumes "rx_steps os drv ch s obtained reported t" "rx_ok s"
  shows "rx_ok t \<and> rx_room ch t = rx_room ch s \<and>
    subseq (reported @ rx_queue ch t) (rx_queue ch s @ obtained) \<and>
    (length (rx_queue ch s) + length obtained \<le> rx_room ch s \<longrightarrow> reported @ rx_queue ch t = rx_queue ch s @ obtained)"
  using assms
proof (induction)
  case rx_start
  then show ?case by simp
next
  case (rx_recv obtained reported t)
  let ?k = "rx_room ch t - length (rx_queue ch t)"
  have ih: "rx_ok t" "rx_room ch t = rx_room ch s" "subseq (reported @ rx_queue ch t) (rx_queue ch s @ obtained)"
    using rx_recv by simp_all
  note e = recv_round_effect[OF ih(1), of drv ch ch]
  have "subseq (take ?k (recv_frames drv ch t)) (recv_frames drv ch t)" by (intro prefix_imp_subseq take_is_prefix)
  then have "subseq ((reported @ rx_queue ch t) @ take ?k (recv_frames drv ch t))
      ((rx_queue ch s @ obtained) @ recv_frames drv ch t)"
    by (rule list_emb_append_mono[OF ih(3)])
  moreover have "take ?k (recv_frames drv ch t) = recv_frames drv ch t"
    if "length (rx_queue ch s) + length (obtained @ recv_frames drv ch t) \<le> rx_room ch s"
  proof -
    have "length (rx_queue ch t) \<le> length (rx_queue ch s @ obtained)" using list_emb_length[OF ih(3)] by simp
    then show ?thesis using that ih(2) by simp
  qed
  ultimately show ?case using e ih rx_recv by auto
next
  case (rx_report obtained reported t)
  then have ih: "rx_ok t" by simp
  have e: "rx_ok (axican_data_process_round os ch t)" "rx_room ch (axican_data_process_round os ch t) = rx_room ch t"
    "report_frames ch t @ rx_queue ch (axican_data_process_round os ch t) = rx_queue ch t"
    using process_round_effect[OF ih, of ch os]
    by (auto simp: rx_ok_def rx_room_def rx_queue_def report_frames_def split: if_splits)
  then show ?case using rx_report by (simp add: append_assoc[symmetric])
next
  case (rx_other obtained reported t u)
  then show ?case by simp
qed

section \<open>The packets of a report\<close>

lemma length_can_arm [simp]: "length (can_arm_bytes r) = 68"
  by (simp add: can_arm_bytes_def)

lemma can_arm_fields:
  "u8_at (can_arm_bytes r) 27 = cd_ch_id r" "u32_at (can_arm_bytes r) 32 = cd_ch_count r"
  "u32_at (can_arm_bytes r) 36 = cd_idr r" "u32_at (can_arm_bytes r) 40 = cd_drcr r"
  "u32_at (can_arm_bytes r) 44 = cd_dw1r r" "u32_at (can_arm_bytes r) 48 = cd_dw2r r"
  "u64_at (can_arm_bytes r) 56 = cd_timestamp r" "u32_at (can_arm_bytes r) 64 = cd_xor_checksum r"
  by (simp_all add: can_arm_bytes_def wire_simps)

lemma can_arm_body: "take 64 (can_arm_bytes (r\<lparr>cd_xor_checksum := x\<rparr>)) = take 64 (can_arm_bytes r)"
  by (simp add: can_arm_bytes_def)

text \<open>A packet that describes a frame of a channel with a given running number, and that passes the host's check.\<close>

definition describes :: "u8 \<Rightarrow> u32 \<Rightarrow> axican_frame \<Rightarrow> byte list \<Rightarrow> bool" where
  "describes ch n f p \<longleftrightarrow> length p = 68 \<and> u8_at p 27 = ch \<and> u32_at p 32 = n \<and> u32_at p 36 = af_can_id f \<and>
     u32_at p 40 = drop_bit 28 (af_can_dlc f) \<and> u32_at p 44 = af_data0 f \<and> u32_at p 48 = af_data1 f \<and>
     u64_at p 56 = af_timestamp f \<and> u32_at p 64 = calculate_xor_checksum (Some p) 64"

lemma report_describes: "describes ch n f (can_arm_bytes (can_report ch f t n))"
proof -
  define r where "r = can_report ch f t n"
  have "\<exists>r0. r = r0\<lparr>cd_xor_checksum := calculate_xor_checksum (Some (can_arm_bytes r0)) 64\<rparr>"
    unfolding r_def can_report_def Let_def by blast
  then obtain r0 where "r = r0\<lparr>cd_xor_checksum := calculate_xor_checksum (Some (can_arm_bytes r0)) 64\<rparr>" ..
  then have "cd_xor_checksum r = calculate_xor_checksum (Some (can_arm_bytes r)) 64"
    by (simp add: checksum_eq_words can_arm_body)
  then have "u32_at (can_arm_bytes r) 64 = calculate_xor_checksum (Some (can_arm_bytes r)) 64"
    by (simp add: can_arm_fields)
  moreover have "cd_ch_id r = ch" "cd_ch_count r = n" "cd_idr r = af_can_id f" "cd_drcr r = drop_bit 28 (af_can_dlc f)"
    "cd_dw1r r = af_data0 f" "cd_dw2r r = af_data1 f" "cd_timestamp r = af_timestamp f"
    by (simp_all add: r_def can_report_def Let_def)
  ultimately show ?thesis by (simp add: describes_def can_arm_fields flip: r_def)
qed

lemma wrap_guard: "(if n = 0xFFFFFFFF then 0 else n + 1) = n + (1 :: u32)"
  by (cases "n = 0xFFFFFFFF") simp_all

lemma normal_mode_sent:
  fixes f
  assumes "data_upload_socket s \<noteq> -1" "os_send os (sys_calls s) = 68" "unat ch < length (channel_frame_count s)"
  defines "t \<equiv> handle_normal_mode os ch f s"
  shows "\<exists>p. sys_trace t = sys_trace s @ [Sent (data_upload_socket s) p] \<and>
      describes ch (channel_frame_count s ! unat ch + 1) f p"
    and "data_upload_socket t = data_upload_socket s" "length (channel_frame_count t) = length (channel_frame_count s)"
    and "channel_frame_count t ! unat ch = channel_frame_count s ! unat ch + 1"
  using assms(1-3) report_describes
  by (auto simp: t_def handle_normal_mode_def bump_channel_count_def wrap_guard upload_send_def sys_send_def Let_def)

lemma fold_normal_sent:
  assumes "data_upload_socket s \<noteq> -1" "\<forall>k. os_send os k = 68" "unat ch < length (channel_frame_count s)"
  shows "\<exists>ps. sys_trace (fold (handle_normal_mode os ch) fs s) = sys_trace s @ map (Sent (data_upload_socket s)) ps \<and>
    length ps = length fs \<and>
    (\<forall>i < length fs. describes ch (channel_frame_count s ! unat ch + of_nat (Suc i)) (fs ! i) (ps ! i))"
  using assms
proof (induction fs arbitrary: s)
  case Nil
  then show ?case by (intro exI[of _ "[]"]) simp
next
  case (Cons f fs)
  let ?s1 = "handle_normal_mode os ch f s"
  note n = normal_mode_sent[OF Cons.prems(1) _ Cons.prems(3), of os f]
  obtain p where p: "sys_trace ?s1 = sys_trace s @ [Sent (data_upload_socket s) p]"
      "describes ch (channel_frame_count s ! unat ch + 1) f p"
    using n(1) Cons.prems(2) by blast
  obtain ps where ps: "sys_trace (fold (handle_normal_mode os ch) fs ?s1) =
      sys_trace ?s1 @ map (Sent (data_upload_socket s)) ps" "length ps = length fs"
      "\<forall>i < length fs. describes ch (channel_frame_count s ! unat ch + 1 + of_nat (Suc i)) (fs ! i) (ps ! i)"
    using Cons.IH[of ?s1] n(2-4) Cons.prems by auto
  have "describes ch (channel_frame_count s ! unat ch + of_nat (Suc i)) ((f # fs) ! i) ((p # ps) ! i)"
    if "i < length (f # fs)" for i
    using that p(2) ps(3) by (cases i) (auto simp: add.assoc)
  then show ?case using p(1) ps(1,2) by (intro exI[of _ "p # ps"]) simp
qed

section \<open>Properties\<close>


definition demo_rx :: server where
  "demo_rx = demo_server\<lparr>g_can_buf_set := \<lparr>channels = Some [Some \<lparr>rb_data = replicate 48 7,
     rb_in = 1, rb_out = 0, rb_mask = 1, rb_esize = 24\<rparr>], max_channel = 1, elem_size = 24, buf_capacity = 2\<rparr>,
     data_upload_socket := 9\<rparr>"

definition demo_drv :: can_driver where
  "demo_drv = \<lparr>drv_poll = (\<lambda>_. 1), drv_count = (\<lambda>_. (0, 1)), drv_read = (\<lambda>_. (24, [1])), drv_get = (\<lambda>_. (24, [1]))\<rparr>"

lemma demo_rx_ok: "rx_ok demo_rx" "rx_queue 0 demo_rx = [replicate 24 7]" "rx_room 0 demo_rx = 2"
  by (simp_all add: rx_ok_def rx_queue_def rx_room_def demo_rx_def set_inv_def rb_inv_def is_power_of_2_def
      rb_capacity_def rb_count_def ch_view_def ch_room_def ch_ok_def ringbuffer_channel_valid_def ch_contents_def
      ch_capacity_def channel_of_def rb_list_def rb_slot_def)


text \<open>
  C30.  A reporting turn with a connected client sends one packet per queued frame, at most 32, in the order of the queue:
  each packet names the channel, carries the identifier, the length, both data words and the time stamp of its frame and
  the next running number of the channel, and its checksum is right; the rest of the queue stays.
\<close>

theorem report_sends_queue:
  assumes "rx_ok s" and "report_ready ch s" and "data_upload_socket s \<noteq> -1" and "\<forall>k. os_send os k = 68"
    and "unat ch < length (channel_frame_count s)"
  shows "let t = axican_data_process_round os ch s; n = min 32 (length (rx_queue ch s)) in
    rx_queue ch t = drop n (rx_queue ch s) \<and>
    (\<exists>ps. sys_trace t = sys_trace s @ map (Sent (data_upload_socket s)) ps \<and> length ps = n \<and>
       (\<forall>i < n. describes ch (channel_frame_count s ! unat ch + of_nat (Suc i)) (axican_frame_of (rx_queue ch s ! i)) (ps ! i)))"
proof -
  obtain q where t: "axican_data_process_round os ch s =
      fold (handle_normal_mode os ch) (map axican_frame_of (report_frames ch s)) (s\<lparr>g_can_buf_set := q\<rparr>)"
    and q: "rx_queue ch (s\<lparr>g_can_buf_set := q\<rparr>) = drop 32 (rx_queue ch s)"
    using process_round_effect[OF assms(1), of ch os] assms(2) by auto
  have f: "report_frames ch s = take 32 (rx_queue ch s)" using assms(2) by (simp add: report_frames_def)
  have "rx_queue ch (axican_data_process_round os ch s) = drop 32 (rx_queue ch s)"
    using q rx_frame(2)[of "axican_data_process_round os ch s" "s\<lparr>g_can_buf_set := q\<rparr>" ch] by (simp add: t)
  then show ?thesis
    using fold_normal_sent[of "s\<lparr>g_can_buf_set := q\<rparr>" os ch "map axican_frame_of (report_frames ch s)"] assms(3-5)
    by (simp add: t f Let_def min.commute split: split_min)
qed

theorem report_sends_queue_witness:
  "rx_queue 0 (axican_data_process_round (demo_os\<lparr>os_send := \<lambda>_. 68\<rparr>) 0 demo_rx) = []"
  using report_sends_queue[of demo_rx 0 "demo_os\<lparr>os_send := \<lambda>_. 68\<rparr>"] demo_rx_ok
  by (simp add: Let_def report_ready_def demo_rx_def demo_server_def boot_server_def zero_config_def)

end
