(* ===== verification/Simulator.thy ===== *)
theory Simulator
  imports Receive
begin

text \<open>
  The device simulator (\<^verbatim>\<open>src/main18.c\<close>, \<open>along_data_tid_thread\<close>): a thread loads up to 32 configured replies,
  then compares every received frame with them, waits for the remaining frames of a longer command, reports the
  command to the host and writes the configured reply to the bus.

  The local variables of the thread are the record \<open>sim_state\<close>; \<open>matched_sim_frame\<close> points into the loaded replies,
  which do not change, and is the reply itself here.
\<close>

section \<open>The reply\<close>

definition determine_response_frames :: "PC_ARM_SIMULATOR_DATA option \<Rightarrow> int" where
  "determine_response_frames frame =
     (case frame of None \<Rightarrow> 0 | Some f \<Rightarrow> int (unat (sd_rcv_len f) div 8) - 1)"

fun respond_frames :: "os \<Rightarrow> int \<Rightarrow> byte list \<Rightarrow> nat \<Rightarrow> nat \<Rightarrow> server \<Rightarrow> server" where
  "respond_frames os fd data frame_idx 0 s = s"
| "respond_frames os fd data frame_idx (Suc n) s =
     (case sys_clock os s of (clock, s1) \<Rightarrow>
        (let ts = (case clock of Some (sec, nsec) \<Rightarrow> sec * 1000 + nsec div 1000000 | None \<Rightarrow> 0);
             bytes = take 16 (drop (frame_idx * 16) data) @ le_bytes 8 ts
         in case sys_write os fd bytes s1 of (rc, s2) \<Rightarrow>
              respond_frames os fd data (Suc frame_idx) n
                (if rc \<noteq> 24 then send_error os ''CAN along data send failed'' s2 else s2)))"

definition process_and_send_response :: "os \<Rightarrow> int \<Rightarrow> PC_ARM_SIMULATOR_DATA option \<Rightarrow> server \<Rightarrow> int \<times> server" where
  "process_and_send_response os fd match_frame s =
     (case match_frame of
        None \<Rightarrow> (-1, s)
      | Some f \<Rightarrow>
          if fd < 0 then (-1, s)
          else (0, respond_frames os fd (sd_send_data f) 0 (unat (sd_send_len f) div 16) s))"

section \<open>The state of the thread\<close>

abbreviation MAX_WAIT_FRAMES :: int where "MAX_WAIT_FRAMES \<equiv> 6"

record sim_state =
  buffer_frames :: "PC_ARM_SIMULATOR_DATA list"
  wait_cmd_frames :: "axican_frame list"
  wait_frame_count :: nat
  target_wait_frames :: int
  is_waiting :: bool
  matched_sim_frame :: "PC_ARM_SIMULATOR_DATA option"

definition no_frames :: "axican_frame list" where
  "no_frames = replicate 6 zero_frame"

definition sim_start :: sim_state where
  "sim_start = \<lparr>buffer_frames = [], wait_cmd_frames = no_frames, wait_frame_count = 0, target_wait_frames = 0,
     is_waiting = False, matched_sim_frame = None\<rparr>"

section \<open>Loading the replies\<close>

definition sim_loadable :: "u8 \<Rightarrow> server \<Rightarrow> bool" where
  "sim_loadable can_id s \<longleftrightarrow> dc_can_type (can_configs s ! unat can_id) = 1 \<and>
     unat (ringbuffer_32ch_len (Some (g_simulator_buf_set s)) can_id 32) \<ge> 7"

fun load_replies :: "u8 \<Rightarrow> nat \<Rightarrow> server \<Rightarrow> PC_ARM_SIMULATOR_DATA list \<times> server" where
  "load_replies can_id 0 s = ([], s)"
| "load_replies can_id (Suc n) s =
     (case ringbuffer_32ch_get (Some (g_simulator_buf_set s)) can_id (Some (replicate 288 0)) 32 of (r, set', buf) \<Rightarrow>
        (let s1 = s\<lparr>g_simulator_buf_set := the set'\<rparr> in
         if ret_val r = 1
         then case load_replies can_id n s1 of (fs, s2) \<Rightarrow> (pc_arm_sim_of (the buf) # fs, s2)
         else ([], s1)))"

definition sim_preload :: "u8 \<Rightarrow> sim_state \<times> server \<Rightarrow> sim_state \<times> server" where
  "sim_preload can_id st =
     (case st of (c, s) \<Rightarrow>
        (let counter = unat (ringbuffer_32ch_len (Some (g_simulator_buf_set s)) can_id 32) in
         case load_replies can_id (min counter 32) s of (fs, s1) \<Rightarrow> (c\<lparr>buffer_frames := fs\<rparr>, s1)))"

section \<open>One received frame\<close>

definition sim_matches :: "axican_frame \<Rightarrow> PC_ARM_SIMULATOR_DATA \<Rightarrow> bool" where
  "sim_matches f b \<longleftrightarrow> drop_bit 21 (af_can_id f) AND 0x7FF = sd_can_id b \<and> af_data0 f = sd_data_type b"

definition report_command :: "os \<Rightarrow> u8 \<Rightarrow> axican_frame \<Rightarrow> server \<Rightarrow> server" where
  "report_command os can_id f s = send_can_transmit_response os can_id 0x83 1 f s"

text \<open>The first component of the result says that the loop over the batch is left.\<close>

definition sim_waiting_frame ::
    "os \<Rightarrow> u8 \<Rightarrow> int \<Rightarrow> axican_frame \<Rightarrow> sim_state \<Rightarrow> server \<Rightarrow> bool \<times> sim_state \<times> server" where
  "sim_waiting_frame os can_id fd f c s =
     (let c1 = c\<lparr>wait_cmd_frames := (wait_cmd_frames c)[wait_frame_count c := f],
                 wait_frame_count := wait_frame_count c + 1\<rparr>
      in if int (wait_frame_count c1) \<ge> target_wait_frames c1
         then let s1 = (if matched_sim_frame c1 \<noteq> None
                        then snd (process_and_send_response os fd (matched_sim_frame c1) s) else s);
                  s2 = fold (report_command os can_id) (take (wait_frame_count c1) (wait_cmd_frames c1)) s1
              in (True, c1\<lparr>is_waiting := False, wait_frame_count := 0, target_wait_frames := 0,
                           matched_sim_frame := None, wait_cmd_frames := no_frames\<rparr>, s2)
         else (True, c1, s))"

definition sim_idle_frame ::
    "os \<Rightarrow> u8 \<Rightarrow> int \<Rightarrow> axican_frame \<Rightarrow> sim_state \<Rightarrow> server \<Rightarrow> bool \<times> sim_state \<times> server" where
  "sim_idle_frame os can_id fd f c s =
     (case find (sim_matches f) (buffer_frames c) of
        None \<Rightarrow> (False, c\<lparr>target_wait_frames := 0, matched_sim_frame := None\<rparr>, s)
      | Some b \<Rightarrow>
          (let n = determine_response_frames (Some b);
               c1 = c\<lparr>target_wait_frames := n, matched_sim_frame := Some b\<rparr>
           in if n = 0
              then (False, c1, snd (process_and_send_response os fd (Some b) (report_command os can_id f s)))
              else if n > 0 \<and> n \<le> MAX_WAIT_FRAMES
              then (False, c1\<lparr>is_waiting := True, wait_cmd_frames := (wait_cmd_frames c1)[wait_frame_count c1 := f],
                              wait_frame_count := wait_frame_count c1 + 1\<rparr>, s)
              else (False, c1, s)))"

definition sim_frame_step ::
    "os \<Rightarrow> u8 \<Rightarrow> int \<Rightarrow> axican_frame \<Rightarrow> sim_state \<Rightarrow> server \<Rightarrow> bool \<times> sim_state \<times> server" where
  "sim_frame_step os can_id fd f c s =
     (if is_waiting c then sim_waiting_frame os can_id fd f c s else sim_idle_frame os can_id fd f c s)"

fun sim_batch :: "os \<Rightarrow> u8 \<Rightarrow> int \<Rightarrow> axican_frame list \<Rightarrow> sim_state \<times> server \<Rightarrow> sim_state \<times> server" where
  "sim_batch os can_id fd [] st = st"
| "sim_batch os can_id fd (f # fs) st =
     (case sim_frame_step os can_id fd f (fst st) (snd st) of
        (leave, c, s) \<Rightarrow> if leave then (c, s) else sim_batch os can_id fd fs (c, s))"

section \<open>One round\<close>

definition along_data_round :: "os \<Rightarrow> u8 \<Rightarrow> int \<Rightarrow> sim_state \<times> server \<Rightarrow> sim_state \<times> server" where
  "along_data_round os can_id fd st =
     (case st of (c, s) \<Rightarrow>
        (let data_counter = unat (ringbuffer_32ch_len (Some (g_can_buf_set s)) can_id 6) in
         case dequeue_frames g_can_buf_set (\<lambda>q s. s\<lparr>g_can_buf_set := q\<rparr>) can_id (min data_counter 32) s of
           (batch, s1) \<Rightarrow> if batch = [] then (c, s1) else sim_batch os can_id fd batch (c, s1)))"

fun along_data_rounds :: "os \<Rightarrow> u8 \<Rightarrow> int \<Rightarrow> nat \<Rightarrow> sim_state \<times> server \<Rightarrow> sim_state \<times> server" where
  "along_data_rounds os can_id fd 0 st = st"
| "along_data_rounds os can_id fd (Suc n) st =
     (if \<not> running (snd st) then st else along_data_rounds os can_id fd n (along_data_round os can_id fd st))"

section \<open>The waiting array\<close>

definition sim_inv :: "sim_state \<Rightarrow> bool" where
  "sim_inv c \<longleftrightarrow> length (wait_cmd_frames c) = 6 \<and> (\<not> is_waiting c \<longrightarrow> wait_frame_count c = 0) \<and>
     (is_waiting c \<longrightarrow> 1 \<le> target_wait_frames c \<and> target_wait_frames c \<le> MAX_WAIT_FRAMES \<and>
        (wait_frame_count c = 1 \<or> 1 < wait_frame_count c \<and> int (wait_frame_count c) < target_wait_frames c))"

lemma sim_frame_inv:
  assumes "sim_inv c" "sim_frame_step os ch fd f c s = (leave, c', s')"
  shows "sim_inv c' \<and> leave = is_waiting c"
proof (cases "is_waiting c")
  case True
  then show ?thesis
    using assms by (auto simp: sim_frame_step_def sim_waiting_frame_def Let_def sim_inv_def no_frames_def split: if_splits)
next
  case False
  then show ?thesis
    using assms by (auto simp: sim_frame_step_def sim_idle_frame_def Let_def sim_inv_def split: if_splits option.splits)
qed

lemma sim_batch_inv: "sim_inv (fst st) \<Longrightarrow> sim_inv (fst (sim_batch os ch fd fs st))"
proof (induction fs arbitrary: st)
  case (Cons f fs)
  obtain leave c s where e: "sim_frame_step os ch fd f (fst st) (snd st) = (leave, c, s)" by (metis prod_cases3)
  then show ?case using Cons sim_frame_inv[OF Cons.prems e] by simp
qed simp

lemma along_round_inv: "sim_inv (fst st) \<Longrightarrow> sim_inv (fst (along_data_round os ch fd st))"
  using sim_batch_inv[of "(fst st, _)"] by (auto simp: along_data_round_def Let_def split: prod.splits)

lemma along_rounds_inv: "sim_inv (fst st) \<Longrightarrow> sim_inv (fst (along_data_rounds os ch fd n st))"
  by (induction n arbitrary: st) (simp_all add: along_round_inv)

lemma sim_preload_inv: "sim_inv (fst (sim_preload ch (sim_start, s)))"
  by (auto simp: sim_preload_def sim_start_def sim_inv_def no_frames_def Let_def split: prod.splits)

section \<open>The reply on the bus\<close>

text \<open>The reply cut into frames of sixteen bytes, without time stamps.\<close>

definition reply_frames :: "PC_ARM_SIMULATOR_DATA \<Rightarrow> axican_frame list" where
  "reply_frames b = map (\<lambda>i. axican_frame_of (take 16 (drop (i * 16) (sd_send_data b)) @ replicate 8 0))
     [0..<unat (sd_send_len b) div 16]"

lemma le_word_zeros: "le_word (replicate n 0) = 0"
  by (induction n) (simp_all add: le_word.simps)

lemma frame_of_image:
  "length xs = 16 \<Longrightarrow> (axican_frame_of (xs @ le_bytes 8 (t :: u64)))\<lparr>af_timestamp := 0\<rparr> = axican_frame_of (xs @ replicate 8 0)"
  by (simp add: axican_frame_of_def u32_at_def u64_at_def le_word_zeros)

lemma respond_log:
  assumes "16 * (i + n) \<le> length data"
  shows "tx_log fd (respond_frames os fd data i n s) = tx_log fd s @
    map (\<lambda>j. axican_frame_of (take 16 (drop (j * 16) data) @ replicate 8 0)) [i..<i + n]"
  using assms
proof (induction n arbitrary: i s)
  case (Suc n)
  have l: "length (take 16 (drop (i * 16) data)) = 16" using Suc.prems by simp
  have w: "tx_log fd (s1\<lparr>sys_calls := k, sys_trace := sys_trace s1 @ [Written fd (take 16 (drop (i * 16) data) @ le_bytes 8 t)]\<rparr>)
      = tx_log fd s1 @ [axican_frame_of (take 16 (drop (i * 16) data) @ replicate 8 0)]" for s1 k and t :: u64
    using frame_of_image[OF l] by (simp add: tx_log_def)
  have up: "[i..<i + Suc n] = i # [Suc i..<Suc i + n]" by (simp add: upt_conv_Cons del: upt_Suc)
  show ?case
    unfolding up using Suc.IH[of "Suc i"] Suc.prems by (simp add: sys_clock_def sys_write_def Let_def w del: upt_Suc)
qed simp

lemma report_log [simp]: "tx_log fd (fold (report_command os ch) fs s) = tx_log fd s"
  by (induction fs arbitrary: s) (simp_all add: report_command_def)

lemma response_log:
  assumes "fd \<ge> 0" "unat (sd_send_len b) \<le> length (sd_send_data b)"
  shows "tx_log fd (snd (process_and_send_response os fd (Some b) s)) = tx_log fd s @ reply_frames b"
proof -
  have "16 * (0 + unat (sd_send_len b) div 16) \<le> length (sd_send_data b)" using assms(2) by simp
  from respond_log[OF this] show ?thesis using assms(1) by (simp add: process_and_send_response_def reply_frames_def)
qed

section \<open>Waiting for a command\<close>

text \<open>The frames of a command that arrive one per batch.\<close>

abbreviation sim_feed :: "os \<Rightarrow> u8 \<Rightarrow> int \<Rightarrow> axican_frame list \<Rightarrow> sim_state \<times> server \<Rightarrow> sim_state \<times> server" where
  "sim_feed os ch fd \<equiv> fold (\<lambda>g. sim_batch os ch fd [g])"

definition reply_ok :: "PC_ARM_SIMULATOR_DATA \<Rightarrow> bool" where
  "reply_ok b \<longleftrightarrow> length (sd_send_data b) = 256 \<and> unat (sd_send_len b) \<le> 256"

lemma waiting_feed:
  fixes os ch s
  assumes "is_waiting c" "matched_sim_frame c = Some b" "fd \<ge> 0" "reply_ok b" "gs \<noteq> []"
    and "int (wait_frame_count c + length gs) \<le> max 2 (target_wait_frames c)" "1 \<le> wait_frame_count c"
  defines "st \<equiv> sim_feed os ch fd gs (c, s)"
  defines "full \<equiv> int (wait_frame_count c + length gs) = max 2 (target_wait_frames c)"
  shows "tx_log fd (snd st) = tx_log fd s @ (if full then reply_frames b else []) \<and> is_waiting (fst st) = (\<not> full)"
  using assms(1-7) unfolding full_def st_def
proof (induction gs arbitrary: c s)
  case (Cons g gs)
  let ?c1 = "c\<lparr>wait_cmd_frames := (wait_cmd_frames c)[wait_frame_count c := g], wait_frame_count := wait_frame_count c + 1\<rparr>"
  have reply: "tx_log fd (snd (process_and_send_response os fd (Some b) s)) = tx_log fd s @ reply_frames b"
    using Cons.prems(3,4) by (intro response_log) (simp_all add: reply_ok_def)
  show ?case
  proof (cases "int (wait_frame_count c + 1) \<ge> target_wait_frames c")
    case True
    then have "gs = []" "int (wait_frame_count c + 1) = max 2 (target_wait_frames c)"
      using Cons.prems(6,7) by (cases gs; simp)+
    then show ?thesis
      using Cons.prems(1,2) True reply by (simp add: sim_frame_step_def sim_waiting_frame_def Let_def)
  next
    case False
    then have "sim_batch os ch fd [g] (c, s) = (?c1, s)"
      using Cons.prems(1) by (simp add: sim_frame_step_def sim_waiting_frame_def Let_def)
    moreover have "int (wait_frame_count c + 1) \<noteq> max 2 (target_wait_frames c)" using False Cons.prems(7) by simp
    ultimately show ?thesis
      using Cons.IH[of ?c1 s] Cons.prems False by (cases "gs = []") simp_all
  qed
qed simp

lemma respond_queue [simp]: "g_can_buf_set (respond_frames os fd data i n s) = g_can_buf_set s"
  by (induction n arbitrary: i s) (simp_all add: sys_clock_def sys_write_def Let_def)

lemma report_queue [simp]: "g_can_buf_set (fold (report_command os ch) fs s) = g_can_buf_set s"
  by (induction fs arbitrary: s) (simp_all add: report_command_def)

lemma waiting_batch:
  assumes "is_waiting c"
  shows "sim_batch os ch fd (f # fs) (c, s) = sim_batch os ch fd [f] (c, s)"
    and "g_can_buf_set (snd (sim_batch os ch fd [f] (c, s))) = g_can_buf_set s"
  using assms
  by (auto simp: sim_frame_step_def sim_waiting_frame_def process_and_send_response_def Let_def split: option.split)

section \<open>Properties\<close>

text \<open>
  C26.  The array for waiting commands is never overrun: after any number of rounds and in the middle of any batch, the
  position where the next frame would be stored is below six, and a thread that is not waiting has stored nothing.
\<close>

theorem simulator_wait_in_bounds:
  "let c = fst (sim_batch os ch fd fs (along_data_rounds os ch fd n (sim_preload ch (sim_start, s)))) in
   wait_frame_count c < 6 \<and> length (wait_cmd_frames c) = 6 \<and> (wait_frame_count c \<noteq> 0) = is_waiting c"
proof -
  have "sim_inv (fst (sim_batch os ch fd fs (along_data_rounds os ch fd n (sim_preload ch (sim_start, s)))))"
    by (intro sim_batch_inv along_rounds_inv sim_preload_inv)
  then show ?thesis by (auto simp: sim_inv_def Let_def)
qed


definition demo_reply :: PC_ARM_SIMULATOR_DATA where
  "demo_reply = \<lparr>sd_head = PC_STATUS_HEAD, sd_direction = 0, sd_type = 0, sd_length = 0, sd_channel_id = 0,
     sd_total_count = 0, sd_channel_count = 0, sd_packet_type = 0, sd_can_id = 1, sd_data_type = 5, sd_rcv_len = 24,
     sd_send_len = 32, sd_reserved = 0, sd_send_data = replicate 256 3\<rparr>"


text \<open>
  Frames behind the one that a waiting thread takes are lost: a round removes up to 32 frames from the queue, but a
  thread that is waiting for the rest of a command handles only the first of them.
\<close>

lemma waiting_round_drops_batch:
  assumes "rx_ok s" and "rx_queue ch s = x # xs" and "is_waiting c"
  shows "let (c', t) = along_data_round os ch fd (c, s) in rx_queue ch t = drop 31 xs \<and>
    (\<exists>q. (c', t) = sim_batch os ch fd [axican_frame_of x] (c, s\<lparr>g_can_buf_set := q\<rparr>))"
proof -
  let ?n = "min (length (rx_queue ch s)) 32"
  obtain q where q: "dequeue_frames g_can_buf_set (\<lambda>q s. s\<lparr>g_can_buf_set := q\<rparr>) ch ?n s =
      (map axican_frame_of (take ?n (rx_queue ch s)), s\<lparr>g_can_buf_set := q\<rparr>)"
    "rx_queue ch (s\<lparr>g_can_buf_set := q\<rparr>) = drop ?n (rx_queue ch s)"
    using dequeue_can_effect[OF assms(1), of ?n ch] by auto
  obtain ys where ys: "map axican_frame_of (take ?n (rx_queue ch s)) = axican_frame_of x # ys"
    using assms(2) by (cases ?n) auto
  have r: "along_data_round os ch fd (c, s) = sim_batch os ch fd [axican_frame_of x] (c, s\<lparr>g_can_buf_set := q\<rparr>)"
    using waiting_batch(1)[OF assms(3)] q(1)
    by (simp add: along_data_round_def Let_def rx_queue_len[OF assms(1)] ys)
  have "rx_queue ch (snd (along_data_round os ch fd (c, s))) = drop ?n (rx_queue ch s)"
    unfolding r q(2)[symmetric] using waiting_batch(2)[OF assms(3)] by (rule rx_frame(2))
  moreover have "drop ?n (rx_queue ch s) = drop 31 xs" using assms(2) by (simp add: min_def)
  ultimately show ?thesis using r by (auto split: prod.split intro: exI[of _ q])
qed

end
