(* ===== verification/Startup.thy ===== *)
theory Startup
  imports Simulator
begin

text \<open>
  The start of the program (\<^verbatim>\<open>src/main18.c\<close>, \<open>main\<close>, up to the creation of the channel threads): the six sets of ring
  buffers with their roll-back, and the CAN devices.

  \<open>open\<close> and \<open>pthread_create\<close> are parameters, the record \<open>boot_os\<close>: the descriptor that the \<open>k\<close>-th open returns and whether the
  \<open>k\<close>-th thread could be created.  \<open>bo_msg\<close> stands for the text of an error message, which contains the system's
  description of \<open>errno\<close>.
\<close>

section \<open>Ring buffers\<close>

definition destroy_all_ring_buffers :: "server \<times> heap_state \<Rightarrow> server \<times> heap_state" where
  "destroy_all_ring_buffers st =
     (case st of (s, h) \<Rightarrow>
      case ringbuffer_32ch_destory h (Some (g_data_buf_set s)) 32 of (q1, h1) \<Rightarrow>
      case ringbuffer_32ch_destory h1 (Some (g_simulator_buf_set s)) 32 of (q2, h2) \<Rightarrow>
      case ringbuffer_32ch_destory h2 (Some (g_pulse_buf_set s)) 32 of (q3, h3) \<Rightarrow>
      case ringbuffer_32ch_destory h3 (Some (g_can_buf_set s)) 6 of (q4, h4) \<Rightarrow>
      case ringbuffer_32ch_destory h4 (Some (g_poll_buf_set s)) 6 of (q5, h5) \<Rightarrow>
      case ringbuffer_32ch_destory h5 (Some (g_bcast_group_buf_set s)) 6 of (q6, h6) \<Rightarrow>
        (s\<lparr>g_data_buf_set := the q1, g_simulator_buf_set := the q2, g_pulse_buf_set := the q3, g_can_buf_set := the q4,
           g_poll_buf_set := the q5, g_bcast_group_buf_set := the q6\<rparr>, h6))"

text \<open>One initialisation; after a failure everything is destroyed and the program ends.\<close>

definition init_one ::
    "(nat \<Rightarrow> bool) \<Rightarrow> (server \<Rightarrow> RingBuffer32ChSet) \<Rightarrow> (RingBuffer32ChSet \<Rightarrow> server \<Rightarrow> server) \<Rightarrow> u32 \<Rightarrow> u32 \<Rightarrow> u8 \<Rightarrow>
     (server \<times> heap_state \<Rightarrow> int \<times> server \<times> heap_state) \<Rightarrow> server \<times> heap_state \<Rightarrow> int \<times> server \<times> heap_state" where
  "init_one ok sel upd esize capacity n next st =
     (case st of (s, h) \<Rightarrow>
        case ringbuffer_32ch_init ok h (Some (sel s)) esize capacity n of (r, q, h1) \<Rightarrow>
          (case r of Inl _ \<Rightarrow> (-1, destroy_all_ring_buffers (upd (the q) s, h1)) | Inr _ \<Rightarrow> next (upd (the q) s, h1)))"

definition init_buffers :: "(nat \<Rightarrow> bool) \<Rightarrow> server \<times> heap_state \<Rightarrow> int \<times> server \<times> heap_state" where
  "init_buffers ok =
     init_one ok g_data_buf_set (\<lambda>q s. s\<lparr>g_data_buf_set := q\<rparr>) 48 131072 32
    (init_one ok g_simulator_buf_set (\<lambda>q s. s\<lparr>g_simulator_buf_set := q\<rparr>) 288 32 32
    (init_one ok g_pulse_buf_set (\<lambda>q s. s\<lparr>g_pulse_buf_set := q\<rparr>) 9 2048 32
    (init_one ok g_can_buf_set (\<lambda>q s. s\<lparr>g_can_buf_set := q\<rparr>) 24 32768 6
    (init_one ok g_poll_buf_set (\<lambda>q s. s\<lparr>g_poll_buf_set := q\<rparr>) 24 32768 6
    (init_one ok g_bcast_group_buf_set (\<lambda>q s. s\<lparr>g_bcast_group_buf_set := q\<rparr>) 3080 16 6 (\<lambda>st. (0, st)))))))"

section \<open>Devices\<close>

record boot_os =
  bo_open :: "nat \<Rightarrow> int"
  bo_thread :: "nat \<Rightarrow> bool"
  bo_msg :: "nat \<Rightarrow> string"

definition boot_config :: "nat \<Rightarrow> CanDeviceConfig \<Rightarrow> CanDeviceConfig" where
  "boot_config i c = c\<lparr>dc_can_id := of_nat i, dc_baud_rate := 500000, dc_mode := 4, dc_valid := 1,
     dc_state := CAN_STATE_CLOSED, dc_can_type := 2\<rparr>"

definition init_device :: "os \<Rightarrow> boot_os \<Rightarrow> nat \<Rightarrow> server \<Rightarrow> int \<times> server" where
  "init_device os bo i s =
     (let rd = bo_open bo (2 * i); wr = bo_open bo (2 * i + 1);
          s1 = s\<lparr>axican_test := (axican_test s)[i := zero_axican\<lparr>ax_id := of_nat i, ax_rd_fd := rd, ax_wr_fd := wr\<rparr>]\<rparr>
      in if rd < 0 then (-1, send_event os EVENT_LEVEL_ERROR EVENT_CAN_INIT_FAILED (bo_msg bo i) s1)
         else if wr < 0 then (-1, send_error os (bo_msg bo i) s1)
         else let s2 = s1\<lparr>axican_test := (axican_test s1)[i := (axican_test s1 ! i)\<lparr>ax_wr_flags := 0, ax_rd_flags := 1\<rparr>],
                          can_configs := (can_configs s1)[i := boot_config i (can_configs s1 ! i)]\<rparr>
              in case axican_set_baud os rd 500000 s2 of (ret, s3) \<Rightarrow>
                   if ret \<noteq> 0 then (-1, send_error os (bo_msg bo i) s3)
                   else case axican_set_mode os rd 4 s3 of (ret, s4) \<Rightarrow>
                     if ret \<noteq> 0 then (-1, send_error os (bo_msg bo i) s4)
                     else if \<not> bo_thread bo (5 * i) then (-1, send_error os (bo_msg bo i) s4)
                     else if \<not> bo_thread bo (5 * i + 1) then (-1, s4)
                     else if \<not> bo_thread bo (5 * i + 2) then (-1, s4)
                     else if \<not> bo_thread bo (5 * i + 3) then (-1, s4)
                     else if \<not> bo_thread bo (5 * i + 4) then (-1, s4)
                     else (0, s4))"

text \<open>The loop over the channels, from channel \<open>i\<close> for \<open>n\<close> channels.\<close>

fun init_devices :: "os \<Rightarrow> boot_os \<Rightarrow> nat \<Rightarrow> nat \<Rightarrow> server \<Rightarrow> int \<times> server" where
  "init_devices os bo i 0 s = (0, s)"
| "init_devices os bo i (Suc n) s =
     (case init_device os bo i s of (ret, s1) \<Rightarrow> if ret \<noteq> 0 then (ret, s1) else init_devices os bo (Suc i) n s1)"

definition main_start :: "os \<Rightarrow> boot_os \<Rightarrow> server \<times> heap_state \<Rightarrow> int \<times> server \<times> heap_state" where
  "main_start os bo st =
     (case st of (s, h) \<Rightarrow>
        case init_buffers (os_malloc os) (s\<lparr>g_bcast_wake_pending := replicate 6 0\<rparr>, h) of (ret, s1, h1) \<Rightarrow>
          if ret \<noteq> 0 then (-1, s1, h1)
          else case init_devices os bo 0 AXICAN_MAX s1 of (ret, s2) \<Rightarrow> (if ret \<noteq> 0 then -1 else 0, s2, h1))"

section \<open>Memory\<close>

text \<open>The blocks that a set owns, and the sets whose destruction returns exactly these.\<close>

definition set_blocks :: "RingBuffer32ChSet \<Rightarrow> int" where
  "set_blocks q = (case channels q of None \<Rightarrow> 0 | Some _ \<Rightarrow> 1 + 2 * int (unat (max_channel q)))"

definition set_full :: "RingBuffer32ChSet \<Rightarrow> bool" where
  "set_full q \<longleftrightarrow> set_inv q \<and> (\<forall>chs. channels q = Some chs \<longrightarrow> (\<forall>c \<in> set chs. c \<noteq> None))"

definition all_sets :: "server \<Rightarrow> RingBuffer32ChSet list" where
  "all_sets s = [g_data_buf_set s, g_simulator_buf_set s, g_pulse_buf_set s, g_can_buf_set s, g_poll_buf_set s,
     g_bcast_group_buf_set s]"

definition balanced :: "int \<Rightarrow> server \<times> heap_state \<Rightarrow> bool" where
  "balanced live st \<longleftrightarrow> h_live (snd st) = live + sum_list (map set_blocks (all_sets (fst st))) \<and>
     (\<forall>q \<in> set (all_sets (fst st)). set_full q)"

lemma zero_set_laws [simp]: "set_blocks zero_set = 0" "set_full zero_set"
  by (simp_all add: set_blocks_def set_full_def zero_set_def set_inv_def)

lemma destory_blocks:
  assumes "set_full q" "ringbuffer_32ch_destory h (Some q) n = (q', h')"
  shows "h_live h' = h_live h - set_blocks q \<and> q' = Some zero_set"
proof (cases "channels q")
  case None
  then show ?thesis using assms(2) by (auto simp: ringbuffer_32ch_destory_def set_blocks_def)
next
  case (Some chs)
  then show ?thesis
    using assms ringbuffer_32ch_destory_live[of q chs h n] by (simp add: set_full_def set_blocks_def)
qed

lemma destroy_all_balanced:
  assumes "balanced live st"
  shows "h_live (snd (destroy_all_ring_buffers st)) = live"
proof -
  obtain s h where st: "st = (s, h)" by fastforce
  have f: "set_full (g_data_buf_set s)" "set_full (g_simulator_buf_set s)" "set_full (g_pulse_buf_set s)"
    "set_full (g_can_buf_set s)" "set_full (g_poll_buf_set s)" "set_full (g_bcast_group_buf_set s)"
    using assms by (simp_all add: st balanced_def all_sets_def)
  show ?thesis
    using assms f[THEN destory_blocks]
    by (auto simp: st destroy_all_ring_buffers_def balanced_def all_sets_def split: prod.split)
qed

text \<open>What an initialised set looks like.\<close>

definition fresh_set :: "u32 \<Rightarrow> nat \<Rightarrow> u8 \<Rightarrow> RingBuffer32ChSet \<Rightarrow> bool" where
  "fresh_set esize cap n q \<longleftrightarrow> set_inv q \<and> max_channel q = n \<and> elem_size q = esize \<and>
     (\<forall>ch. ch < n \<longrightarrow> ch_ok q ch n \<and> ch_contents q ch = [] \<and> ch_capacity q ch = cap)"

lemma init_cases:
  assumes "ringbuffer_32ch_init ok h (Some q0) esize cap n = (r, q, h')" "esize \<noteq> 0" "cap \<noteq> 0" "n \<noteq> 0"
  obtains e where "r = Inl e" "q = Some zero_set" "h_live h' = h_live h"
  | q1 where "r = Inr ()" "q = Some q1" "fresh_set esize (unat (round_capacity cap)) n q1" "set_full q1"
      "h_live h' = h_live h + set_blocks q1"
proof (cases r)
  case (Inl e)
  have "e \<noteq> EINVAL"
    using assms Inl by (auto simp: ringbuffer_32ch_init_alt malloc_def Let_def split: if_splits prod.splits)
  then show thesis using that(1)[of e] Inl ringbuffer_32ch_init_rollback[OF assms(1)[unfolded Inl]] by simp
next
  case (Inr u)
  then have i: "ringbuffer_32ch_init ok h (Some q0) esize cap n = (Inr (), q, h')" using assms(1) by simp
  obtain q1 chs where q1: "q = Some q1" "channels q1 = Some chs" "max_channel q1 = n" "set_inv q1"
      "\<forall>c \<in> set chs. fresh_channel (round_capacity cap) esize c" "h_live h' = h_live h + 1 + 2 * int (unat n)"
    using ringbuffer_32ch_init_success[OF i] by metis
  have "set_full q1" using q1(2,4,5) fresh_channel_Some by (auto simp: set_full_def)
  moreover have "fresh_set esize (unat (round_capacity cap)) n q1"
    using init_success_laws[OF i[unfolded q1(1)]] by (simp add: fresh_set_def)
  ultimately show thesis using that(2)[of q1] q1 Inr by (simp add: set_blocks_def)
qed

text \<open>One initialisation fails with everything returned, or adds a fresh set and continues.\<close>

lemma init_one_cases:
  assumes "init_one ok sel upd esize cap n next (s, h) = (ret, t, h')" "balanced live (s, h)" "sel s = zero_set"
    and "esize \<noteq> 0" "cap \<noteq> 0" "n \<noteq> 0"
    and "\<And>q h1. set_full q \<Longrightarrow> h_live h1 = h_live h + set_blocks q \<Longrightarrow> balanced live (upd q s, h1)"
  obtains "ret = -1" "h_live h' = live"
  | q h1 where "fresh_set esize (unat (round_capacity cap)) n q" "balanced live (upd q s, h1)" "next (upd q s, h1) = (ret, t, h')"
proof -
  obtain r q h1 where i: "ringbuffer_32ch_init ok h (Some (sel s)) esize cap n = (r, q, h1)" by (metis prod_cases3)
  show thesis
  proof (rule init_cases[OF i assms(4-6)])
    fix e assume e: "r = Inl e" "q = Some zero_set" "h_live h1 = h_live h"
    then have "balanced live (upd zero_set s, h1)" using assms(7)[of zero_set h1] by simp
    then show thesis
      using that(1) destroy_all_balanced assms(1) i e by (auto simp: init_one_def) (metis snd_conv)
  next
    fix q1 assume "r = Inr ()" "q = Some q1" "fresh_set esize (unat (round_capacity cap)) n q1" "set_full q1"
      "h_live h1 = h_live h + set_blocks q1"
    then show thesis using that(2)[of q1 h1] assms(1,7) i by (simp add: init_one_def)
  qed
qed

lemma capacities:
  "round_capacity 131072 = 131072" "round_capacity 32 = 32" "round_capacity 2048 = 2048" "round_capacity 32768 = 32768"
  "round_capacity 16 = 16"
  by (simp_all add: round_capacity_def is_power_of_2_def)

text \<open>The state before the initialisation number \<open>k\<close>: earlier sets are fresh, later ones zero, the rest is unchanged.\<close>

definition sans_sets :: "server \<Rightarrow> server" where
  "sans_sets s = s\<lparr>g_data_buf_set := zero_set, g_simulator_buf_set := zero_set, g_pulse_buf_set := zero_set,
     g_can_buf_set := zero_set, g_poll_buf_set := zero_set, g_bcast_group_buf_set := zero_set\<rparr>"

definition stage :: "server \<Rightarrow> nat \<Rightarrow> server \<Rightarrow> bool" where
  "stage s0 k s \<longleftrightarrow> sans_sets s = sans_sets s0 \<and>
     (if 0 < k then fresh_set 48 131072 32 (g_data_buf_set s) else g_data_buf_set s = zero_set) \<and>
     (if 1 < k then fresh_set 288 32 32 (g_simulator_buf_set s) else g_simulator_buf_set s = zero_set) \<and>
     (if 2 < k then fresh_set 9 2048 32 (g_pulse_buf_set s) else g_pulse_buf_set s = zero_set) \<and>
     (if 3 < k then fresh_set 24 32768 6 (g_can_buf_set s) else g_can_buf_set s = zero_set) \<and>
     (if 4 < k then fresh_set 24 32768 6 (g_poll_buf_set s) else g_poll_buf_set s = zero_set) \<and>
     (if 5 < k then fresh_set 3080 16 6 (g_bcast_group_buf_set s) else g_bcast_group_buf_set s = zero_set)"

definition ends_well ::
    "int \<Rightarrow> server \<Rightarrow> nat \<Rightarrow> (server \<times> heap_state \<Rightarrow> int \<times> server \<times> heap_state) \<Rightarrow> bool" where
  "ends_well live s0 k next \<longleftrightarrow> (\<forall>s h ret t h'. stage s0 k s \<longrightarrow> balanced live (s, h) \<longrightarrow> next (s, h) = (ret, t, h') \<longrightarrow>
     ret = -1 \<and> h_live h' = live \<or> ret = 0 \<and> balanced live (t, h') \<and> stage s0 6 t)"

lemma ends_well_init:
  assumes "ends_well live s0 (Suc k) next" "esize \<noteq> 0" "cap \<noteq> 0" "n \<noteq> 0"
    and "\<And>s. stage s0 k s \<Longrightarrow> sel s = zero_set"
    and "\<And>s q. stage s0 k s \<Longrightarrow> fresh_set esize (unat (round_capacity cap)) n q \<Longrightarrow> stage s0 (Suc k) (upd q s)"
    and "\<And>s h q h1. stage s0 k s \<Longrightarrow> balanced live (s, h) \<Longrightarrow> set_full q \<Longrightarrow> h_live h1 = h_live h + set_blocks q \<Longrightarrow>
      balanced live (upd q s, h1)"
  shows "ends_well live s0 k (init_one ok sel upd esize cap n next)"
  unfolding ends_well_def
proof (intro allI impI)
  fix s h ret t h'
  assume s: "stage s0 k s" "balanced live (s, h)" and i: "init_one ok sel upd esize cap n next (s, h) = (ret, t, h')"
  show "ret = -1 \<and> h_live h' = live \<or> ret = 0 \<and> balanced live (t, h') \<and> stage s0 6 t"
    using init_one_cases[OF i s(2) assms(5)[OF s(1)] assms(2-4) assms(7)[OF s]] assms(1,6) s(1)
    unfolding ends_well_def by metis
qed

lemma init_buffers_cases:
  assumes "stage s 0 s" "init_buffers ok (s, h) = (ret, t, h')"
  shows "ret = -1 \<and> h_live h' = h_live h \<or> ret = 0 \<and> balanced (h_live h) (t, h') \<and> stage s 6 t"
proof -
  have "ends_well (h_live h) s (Suc (Suc (Suc (Suc (Suc (Suc 0)))))) (\<lambda>st. (0, st))"
    by (simp add: ends_well_def eval_nat_numeral)
  then have "ends_well (h_live h) s 0 (init_buffers ok)"
    unfolding init_buffers_def
    by (intro ends_well_init; (assumption | simp add: stage_def capacities sans_sets_def balanced_def all_sets_def))
  moreover have "balanced (h_live h) (s, h)" using assms(1) by (simp add: stage_def balanced_def all_sets_def)
  ultimately show ?thesis using assms unfolding ends_well_def by blast
qed

section \<open>After a successful start\<close>

definition device_ready :: "nat \<Rightarrow> server \<Rightarrow> bool" where
  "device_ready i s \<longleftrightarrow>
     (let c = can_configs s ! i; a = axican_test s ! i in
      dc_can_id c = of_nat i \<and> dc_valid c = 1 \<and> dc_state c = CAN_STATE_CLOSED \<and> dc_can_type c = 2 \<and> dc_baud_rate c = 500000 \<and>
      ax_id a = of_nat i \<and> 0 \<le> ax_rd_fd a \<and> 0 \<le> ax_wr_fd a \<and> ax_rd_flags a = 1 \<and> ax_wr_flags a = 0)"

definition sans_devices :: "server \<Rightarrow> server" where
  "sans_devices s = s\<lparr>axican_test := [], can_configs := [], sys_calls := 0, sys_trace := []\<rparr>"

lemma init_device_ready:
  assumes "init_device os bo i s = (0, t)" "i < length (axican_test s)" "i < length (can_configs s)"
  shows "device_ready i t \<and> sans_devices t = sans_devices s \<and> length (axican_test t) = length (axican_test s) \<and>
    length (can_configs t) = length (can_configs s) \<and> (\<forall>j. j \<noteq> i \<longrightarrow> device_ready j t = device_ready j s)"
  using assms
  by (auto simp: init_device_def axican_set_baud_def axican_set_mode_def sys_ioctl_def boot_config_def device_ready_def
      sans_devices_def Let_def split: if_splits)

lemma init_devices_ready:
  assumes "init_devices os bo i n s = (0, t)" "i + n \<le> length (axican_test s)" "i + n \<le> length (can_configs s)"
  shows "(\<forall>j. i \<le> j \<and> j < i + n \<longrightarrow> device_ready j t) \<and> (\<forall>j < i. device_ready j t = device_ready j s) \<and>
    sans_devices t = sans_devices s \<and> length (axican_test t) = length (axican_test s) \<and>
    length (can_configs t) = length (can_configs s)"
  using assms
proof (induction n arbitrary: i s)
  case (Suc n)
  obtain s1 where d: "init_device os bo i s = (0, s1)" and r: "init_devices os bo (Suc i) n s1 = (0, t)"
    using Suc.prems(1) by (auto split: prod.splits if_splits)
  note e = init_device_ready[OF d]
  have "j = i \<or> Suc i \<le> j" if "i \<le> j" for j using that by linarith
  then show ?case using Suc.IH[OF r] e Suc.prems(2,3) by auto
qed auto

lemma sans_devices_fields:
  assumes "sans_devices t = sans_devices s"
  shows "g_data_buf_set t = g_data_buf_set s" "g_simulator_buf_set t = g_simulator_buf_set s"
    "g_pulse_buf_set t = g_pulse_buf_set s" "g_can_buf_set t = g_can_buf_set s" "g_poll_buf_set t = g_poll_buf_set s"
    "g_bcast_group_buf_set t = g_bcast_group_buf_set s" "channel_frame_count t = channel_frame_count s"
    "g_bcast_wake_pending t = g_bcast_wake_pending s" "g_bcast_cfg t = g_bcast_cfg s" "packet_buffers t = packet_buffers s"
    "running t = running s"
  using assms by (cases s; cases t; simp add: sans_devices_def)+

lemma sans_sets_fields:
  assumes "sans_sets t = sans_sets s"
  shows "axican_test t = axican_test s" "can_configs t = can_configs s" "channel_frame_count t = channel_frame_count s"
    "g_bcast_wake_pending t = g_bcast_wake_pending s" "g_bcast_cfg t = g_bcast_cfg s" "packet_buffers t = packet_buffers s"
    "running t = running s"
  using assms by (cases s; cases t; simp add: sans_sets_def)+

text \<open>The starting state of every queue: no element, full capacity, and nothing beyond the last channel.\<close>

lemma fresh_set_views:
  assumes "fresh_set esize cap n q"
  shows "set_inv q" "elem_size q = esize" "n \<le> limit \<Longrightarrow> ch_view ch limit q = []"
    "n \<le> limit \<Longrightarrow> ch < n \<Longrightarrow> ch_room ch limit q = cap"
proof -
  have ok: "ch_ok q ch limit = (ch < n)" if "n \<le> limit"
    using assms that unfolding fresh_set_def ch_ok_def ringbuffer_channel_valid_def
    by (cases "ch < n") (auto split: option.splits)
  show "set_inv q" "elem_size q = esize" using assms by (simp_all add: fresh_set_def)
  show "ch_view ch limit q = []" if "n \<le> limit" using assms ok[OF that] by (simp add: fresh_set_def ch_view_def)
  show "ch_room ch limit q = cap" if "n \<le> limit" "ch < n"
    using assms ok[OF that(1)] that(2) by (simp add: fresh_set_def ch_room_def)
qed

definition channel_ready :: "u8 \<Rightarrow> server \<Rightarrow> bool" where
  "channel_ready ch s \<longleftrightarrow> channel_configured s ch \<and> device_ready (unat ch) s \<and>
     normal_queue s ch = [] \<and> rx_queue ch s = [] \<and> bcast_queue s ch = [] \<and>
     ch_room ch 32 (g_data_buf_set s) = 131072 \<and> rx_room ch s = 32768 \<and> ch_room ch 6 (g_bcast_group_buf_set s) = 16 \<and>
     pb_ok (packet_buffers s ! unat ch)"

text \<open>A successful start in its two parts: the queues, then the devices.\<close>

lemma main_start_parts:
  assumes "main_start os bo (boot_server, h) = (0, t, h')"
  obtains s1 where "stage (boot_server\<lparr>g_bcast_wake_pending := replicate 6 0\<rparr>) 6 s1" "balanced (h_live h) (s1, h')"
    "\<forall>j < 6. device_ready j t" "sans_devices t = sans_devices s1" "length (can_configs t) = 6" "length (axican_test t) = 32"
proof -
  let ?s = "boot_server\<lparr>g_bcast_wake_pending := replicate 6 0\<rparr>"
  obtain s1 where i: "init_buffers (os_malloc os) (?s, h) = (0, s1, h')" and d: "init_devices os bo 0 6 s1 = (0, t)"
    using assms by (auto simp: main_start_def split: prod.splits if_splits)
  have "stage ?s 0 ?s" by (simp add: stage_def boot_server_def)
  then have b: "balanced (h_live h) (s1, h')" and st: "stage ?s 6 s1" using init_buffers_cases[OF _ i] by auto
  note f = sans_sets_fields[OF st[unfolded stage_def, THEN conjunct1]]
  have "length (axican_test s1) = 32" "length (can_configs s1) = 6" by (simp_all add: f boot_server_def)
  then show thesis using that[OF st b] init_devices_ready[OF d] by auto
qed

lemma main_start_balanced:
  assumes "main_start os bo (boot_server, h) = (0, t, h')"
  shows "balanced (h_live h) (t, h')" and "length (axican_test t) = 32"
proof -
  obtain s1 where b: "balanced (h_live h) (s1, h')" and r: "sans_devices t = sans_devices s1" "length (axican_test t) = 32"
    by (rule main_start_parts[OF assms])
  show "balanced (h_live h) (t, h')" using b by (simp add: balanced_def all_sets_def sans_devices_fields[OF r(1)])
  show "length (axican_test t) = 32" by (rule r(2))
qed

lemma main_start_queues:
  assumes "main_start os bo (boot_server, h) = (0, t, h')"
  shows "fresh_set 48 131072 32 (g_data_buf_set t)" "fresh_set 288 32 32 (g_simulator_buf_set t)"
    "fresh_set 9 2048 32 (g_pulse_buf_set t)" "fresh_set 24 32768 6 (g_can_buf_set t)"
    "fresh_set 24 32768 6 (g_poll_buf_set t)" "fresh_set 3080 16 6 (g_bcast_group_buf_set t)"
proof -
  obtain s1 where st: "stage (boot_server\<lparr>g_bcast_wake_pending := replicate 6 0\<rparr>) 6 s1"
    and r: "sans_devices t = sans_devices s1"
    by (rule main_start_parts[OF assms])
  show "fresh_set 48 131072 32 (g_data_buf_set t)" "fresh_set 288 32 32 (g_simulator_buf_set t)"
    "fresh_set 9 2048 32 (g_pulse_buf_set t)" "fresh_set 24 32768 6 (g_can_buf_set t)"
    "fresh_set 24 32768 6 (g_poll_buf_set t)" "fresh_set 3080 16 6 (g_bcast_group_buf_set t)"
    using st by (simp_all add: stage_def sans_devices_fields[OF r])
qed

lemma main_start_ready:
  assumes "main_start os bo (boot_server, h) = (0, t, h')"
  shows "dl_ok t \<and> rx_ok t \<and> running t \<and> (\<forall>ch. unat ch < AXICAN_MAX \<longrightarrow> channel_ready ch t) \<and>
    packet_buffers t = replicate 6 zero_packet_buffer \<and> h_live (snd (destroy_all_ring_buffers (t, h'))) = h_live h"
proof -
  obtain s1 where st: "stage (boot_server\<lparr>g_bcast_wake_pending := replicate 6 0\<rparr>) 6 s1"
    and r: "\<forall>j < 6. device_ready j t" "sans_devices t = sans_devices s1" "length (can_configs t) = 6"
    by (rule main_start_parts[OF assms])
  note f = sans_sets_fields[OF st[unfolded stage_def, THEN conjunct1]]
  note g = sans_devices_fields[OF r(2)]
  note fr = main_start_queues(1,2,3,4,6)[OF assms]
  have bq: "bcast_queue t ch = []" for ch using fresh_set_views(3)[OF fr(5)] by (simp add: bcast_queue_def)
  have "bcast_inv t"
    using fresh_set_views(1,2)[OF fr(5)] r(3) bq
    by (simp add: bcast_inv_def g f) (simp add: boot_server_def cfg_ok_def zero_bcast_cfg_def)
  moreover have "unat (dc_can_id c) < 6" if m: "c \<in> set (can_configs t)" for c
  proof -
    obtain j where "j < 6" "c = can_configs t ! j" using m r(3) by (auto simp: in_set_conv_nth)
    then show ?thesis using r(1) by (auto simp: device_ready_def Let_def unat_of_nat)
  qed
  moreover have "length (channel_frame_count t) = 6" by (simp add: g f boot_server_def)
  ultimately have "ctrl_ok t" by (simp add: ctrl_ok_def)
  then have "dl_ok t" using fr(1-3)[THEN fresh_set_views(1)] fr(1-3)[THEN fresh_set_views(2)] by (simp add: dl_ok_def)
  moreover have "rx_ok t" using fresh_set_views(1,2)[OF fr(4)] by (simp add: rx_ok_def)
  moreover have "running t" by (simp add: g f) (simp add: boot_server_def)
  moreover have "channel_ready ch t" if "unat ch < 6" for ch
  proof -
    have c: "ch < 6" "ch < 32" using that by (simp_all add: word_less_nat_alt)
    have "packet_buffers t ! unat ch = zero_packet_buffer" using that by (simp add: g f boot_server_def)
    moreover have "device_ready (unat ch) t" using r(1) that by simp
    ultimately show ?thesis
      using c that bq[of ch] fresh_set_views(3,4)[OF fr(1), of 32 ch] fresh_set_views(3,4)[OF fr(4), of 6 ch]
        fresh_set_views(4)[OF fr(5), of 6 ch]
      by (simp add: channel_ready_def channel_configured_def device_ready_def Let_def normal_queue_def rx_queue_def rx_room_def)
  qed
  moreover have "packet_buffers t = replicate 6 zero_packet_buffer" by (simp add: g f) (simp add: boot_server_def)
  moreover have "h_live (snd (destroy_all_ring_buffers (t, h'))) = h_live h"
    by (rule destroy_all_balanced[OF main_start_balanced(1)[OF assms]])
  ultimately show ?thesis by simp
qed

section \<open>A start without failures\<close>

lemma init_one_all_ok:
  assumes "\<forall>k. ok k" "esize \<noteq> 0" "cap \<noteq> 0" "n \<noteq> 0" "round_capacity cap \<le> 0xFFFFFFFF div esize" "\<And>st. fst (next st) = 0"
  shows "fst (init_one ok sel upd esize cap n next st) = 0"
proof -
  obtain s h where st: "st = (s, h)" by fastforce
  obtain q h1 where "ringbuffer_32ch_init ok h (Some (sel s)) esize cap n = (Inr (), Some q, h1)"
    using init_all_allocs_ok[OF assms(1-5)] by blast
  then show ?thesis using assms(6) by (simp add: init_one_def st)
qed

lemma init_buffers_all_ok: "\<forall>k. ok k \<Longrightarrow> fst (init_buffers ok st) = 0"
  unfolding init_buffers_def
  by (intro init_one_all_ok; (assumption | simp add: capacities))

lemma init_devices_all_ok:
  assumes "\<forall>k. 0 \<le> bo_open bo k" "\<forall>k. bo_thread bo k" "\<forall>k. os_ioctl os k = 0"
  shows "fst (init_devices os bo i n s) = 0"
  using assms
  by (induction n arbitrary: i s)
    (auto simp: init_device_def axican_set_baud_def axican_set_mode_def sys_ioctl_def Let_def not_less split: prod.splits)

section \<open>Properties\<close>


definition demo_boot :: boot_os where
  "demo_boot = \<lparr>bo_open = (\<lambda>k. int k), bo_thread = (\<lambda>_. True), bo_msg = (\<lambda>_. [])\<rparr>"


text \<open>
  C19.  A start that fails for lack of memory leaks nothing: whichever of the allocations of the six sets
  fails, the program ends with -1 and as many live blocks as before.
\<close>

theorem startup_out_of_memory:
  assumes "init_buffers ok (boot_server, h) = (ret, t, h')" and "ret \<noteq> 0"
  shows "ret = -1 \<and> h_live h' = h_live h"
  using init_buffers_cases[OF _ assms(1)] assms(2) by (simp add: stage_def boot_server_def)

theorem startup_out_of_memory_witness:
  "h_live (snd (snd (init_buffers (\<lambda>_. False) (boot_server, \<lparr>h_calls = 0, h_live = 7\<rparr>)))) = 7"
proof -
  let ?i = "init_buffers (\<lambda>_. False) (boot_server, \<lparr>h_calls = 0, h_live = 7\<rparr>)"
  have "fst ?i = -1"
    by (simp add: init_buffers_def init_one_def ringbuffer_32ch_init_alt malloc_def capacities)
  then obtain t h' where e: "?i = (-1, t, h')" by (metis prod.collapse)
  from startup_out_of_memory[OF e] show ?thesis by (simp add: e)
qed

end
