(* ===== verification/End_To_End.thy ===== *)
theory End_To_End
  imports Startup
begin

text \<open>
  The way of a normal CAN payload through the program: from the bytes on the download connection through the queue of its
  channel to the frame on the bus.
\<close>

definition host_payload :: "u8 \<Rightarrow> PC_ARM_DATA_DATA \<Rightarrow> bool" where
  "host_payload ch f \<longleftrightarrow> validate_48byte_can_payload (pc_arm_data_bytes f) \<and> pd_type f = 1 \<and> pd_ch_id f = ch \<and> seq_sum f = 1"

lemma host_payload_sendable: "host_payload ch f \<Longrightarrow> sendable ch f"
  by (auto simp: host_payload_def sendable_def validate_48byte_can_payload_def Let_def split: if_splits)

section \<open>From the connection to the queue\<close>

lemma encoded_request:
  fixes counter command channel payload
  defines "req \<equiv> data_req_of (encode_data_packet counter command channel payload)"
  shows "dq_cmd_type req = reverse_2bytes command" "dq_data_len req = reverse_4bytes (of_nat (length payload))"
    "dq_channel req = reverse_4bytes channel" "dq_data req = payload"
proof -
  have w: "le_bytes 4 (le_word (le_bytes 2 counter @ le_bytes 2 (reverse_2bytes command)) :: u32)
      = le_bytes 2 counter @ le_bytes 2 (reverse_2bytes command)"
    using le_bytes_le_word[of "le_bytes 2 counter @ le_bytes 2 (reverse_2bytes command)", where 'a = 32] by simp
  show "dq_cmd_type req = reverse_2bytes command" "dq_data_len req = reverse_4bytes (of_nat (length payload))"
    "dq_channel req = reverse_4bytes channel" "dq_data req = payload"
    by (simp_all add: req_def data_req_of_def encode_data_packet_def Let_def w u16_at_def u32_at_def)
qed

lemma host_packet_queued:
  assumes "host_payload ch f"
  shows "download_packet os (data_req_of (encode_data_packet counter 1 channel (pc_arm_data_bytes f))) s =
    snd (enqueue_normal_can_payload os (pc_arm_data_bytes f) s)"
proof -
  let ?b = "pc_arm_data_bytes f"
  note r = encoded_request[of counter 1 channel ?b]
  have p: "process_9012_can_payload_frames os (Some ?b) channel s = enqueue_normal_can_payload os ?b s"
    using assms by (simp add: process_9012_can_payload_frames_def Let_def payload_frame_def host_payload_def)
  then show ?thesis by (simp add: download_packet_def r Let_def)
qed

lemma host_stream_queued:
  assumes "dl_ok s" "channel_configured s ch" "\<forall>f \<in> set fs. host_payload ch f"
    and "length (normal_queue s ch) + length fs \<le> ch_room ch 32 (g_data_buf_set s)"
  shows "\<exists>q. fold (\<lambda>f. download_packet os (data_req_of (encode_data_packet counter 1 channel (pc_arm_data_bytes f)))) fs s
      = s\<lparr>g_data_buf_set := q\<rparr> \<and> set_inv q \<and> elem_size q = 48 \<and>
    normal_queue (s\<lparr>g_data_buf_set := q\<rparr>) ch = normal_queue s ch @ map pc_arm_data_bytes fs"
  using assms
proof (induction fs arbitrary: s)
  case Nil
  then show ?case by (intro exI[of _ "g_data_buf_set s"]) (simp add: dl_ok_def)
next
  case (Cons f fs)
  let ?b = "pc_arm_data_bytes f"
  have h: "host_payload ch f" "ch = pd_ch_id (pc_arm_data_of ?b)" using Cons.prems(3) by (simp_all add: host_payload_def)
  have room: "length (normal_queue s ch) < ch_room ch 32 (g_data_buf_set s)" using Cons.prems(4) by simp
  note e = enqueue_normal_success[OF Cons.prems(1) _ Cons.prems(2) h(2) room]
  let ?s1 = "s\<lparr>g_data_buf_set := set_push (g_data_buf_set s) ch ?b\<rparr>"
  have "dl_ok ?s1" using Cons.prems(1) e(4,5) by (intro dl_ok_data) simp_all
  moreover have "channel_configured ?s1 ch" using Cons.prems(2) by (simp add: channel_configured_def)
  moreover have "length (normal_queue ?s1 ch) + length fs \<le> ch_room ch 32 (g_data_buf_set ?s1)"
    using e(2)[of ch] e(3)[of ch] Cons.prems(4) by simp
  ultimately obtain q where "fold (\<lambda>f. download_packet os (data_req_of (encode_data_packet counter 1 channel (pc_arm_data_bytes f)))) fs ?s1
      = ?s1\<lparr>g_data_buf_set := q\<rparr>" "set_inv q" "elem_size q = 48"
      "normal_queue (?s1\<lparr>g_data_buf_set := q\<rparr>) ch = normal_queue ?s1 ch @ map pc_arm_data_bytes fs"
    using Cons.IH[of ?s1] Cons.prems(3) by auto
  then show ?case using host_packet_queued[OF h(1)] e(1,2) by (intro exI[of _ q]) simp
qed

lemma host_stream_drained:
  assumes "dl_ok s" "channel_configured s ch" "\<forall>f \<in> set fs. host_payload ch f"
    and "length (normal_queue s ch) + length fs \<le> ch_room ch 32 (g_data_buf_set s)"
  shows "\<exists>q. download_drain os (concat (map (\<lambda>f. encode_data_packet counter 1 channel (pc_arm_data_bytes f)) fs)) s
      = ([], s\<lparr>g_data_buf_set := q\<rparr>) \<and> set_inv q \<and> elem_size q = 48 \<and>
    normal_queue (s\<lparr>g_data_buf_set := q\<rparr>) ch = normal_queue s ch @ map pc_arm_data_bytes fs"
proof -
  let ?ps = "map (\<lambda>f. encode_data_packet counter 1 channel (pc_arm_data_bytes f)) fs"
  have "download_verdict (p @ c) = Packet (length p)" if "p \<in> set ?ps" for p c
    using that by (auto simp: encode_data_packet_verdict)
  then have "download_drain os (concat ?ps) s = ([], fold (download_handle os) ?ps s)"
    using dl.packets_handled[of ?ps "[]" os s] by (simp add: download_verdict_def)
  moreover have "fold (download_handle os) ?ps s =
      fold (\<lambda>f. download_packet os (data_req_of (encode_data_packet counter 1 channel (pc_arm_data_bytes f)))) fs s"
    by (simp add: fold_map download_handle_def[abs_def] comp_def)
  ultimately show ?thesis using host_stream_queued[OF assms] by fastforce
qed

section \<open>From the queue to the bus\<close>

lemma singles_sent:
  assumes "tx_ok ch s" "running s" "\<forall>f \<in> set fs. sendable ch f \<and> seq_sum f = 1"
    and "normal_queue s ch = map pc_arm_data_bytes fs @ rest"
  shows "normal_queue (send_rounds os ch (length fs) s) ch = rest \<and>
    tx_log (tx_fd ch s) (send_rounds os ch (length fs) s) = tx_log (tx_fd ch s) s @ map (\<lambda>p. single_frame p 0) fs"
  using assms
proof (induction fs arbitrary: s)
  case Nil
  then show ?case by simp
next
  case (Cons f fs)
  let ?t = "axican_data_send_round os ch s"
  have "normal_queue s ch = pc_arm_data_bytes f # (map pc_arm_data_bytes fs @ rest)" using Cons.prems(4) by simp
  note e = round_effect[OF Cons.prems(1) this, of os]
  have t: "tx_same s ?t" "tx_ok ch ?t" "normal_queue ?t ch = map pc_arm_data_bytes fs @ rest"
    "tx_log (tx_fd ch s) ?t = tx_log (tx_fd ch s) s @ [single_frame f 0]"
    using e Cons.prems(3) by simp_all
  then show ?case using Cons.IH[OF t(2) _ _ t(3)] tx_same_fd[OF t(1)] Cons.prems(2,3) by simp
qed

text \<open>A server whose queue for channel 0 holds two elements, on which the properties are exercised.\<close>

definition demo_gateway :: server where
  "demo_gateway = demo_server\<lparr>g_data_buf_set := \<lparr>channels = Some [Some \<lparr>rb_data = replicate 96 0, rb_in = 0, rb_out = 0,
      rb_mask = 1, rb_esize = 48\<rparr>], max_channel = 1, elem_size = 48, buf_capacity = 2\<rparr>,
    g_simulator_buf_set := zero_set\<lparr>elem_size := 288\<rparr>, g_pulse_buf_set := zero_set\<lparr>elem_size := 9\<rparr>\<rparr>"

lemma demo_gateway_dl: "dl_ok demo_gateway"
  unfolding demo_gateway_def by (rule demo_dl_ok)

end
