(* ===== verification/Broadcast_Path.thy ===== *)
theory Broadcast_Path
  imports End_To_End
begin

text \<open>
  The way of a broadcast group through the program (\<^verbatim>\<open>src/main18.c\<close>): from the bytes on the download connection through the receive
  window and the queue of its channel to the frames on the bus, one group for every pulse that selects the channel.
\<close>

section \<open>From the connection to the queue\<close>

text \<open>What the host sends as one group: at most 128 valid payloads of type 2, one after the other in one data packet.\<close>

definition group_payload :: "PC_ARM_DATA_DATA list \<Rightarrow> bool" where
  "group_payload fs \<longleftrightarrow> fs \<noteq> [] \<and> length fs \<le> 128 \<and>
     (\<forall>f \<in> set fs. validate_48byte_can_payload (pc_arm_data_bytes f) \<and> pd_type f = 2)"

definition group_packet :: "u16 \<Rightarrow> u32 \<Rightarrow> PC_ARM_DATA_DATA list \<Rightarrow> byte list" where
  "group_packet counter channel fs = encode_data_packet counter 2 channel (concat (map pc_arm_data_bytes fs))"

lemma payloads_length [simp]: "length (concat (map pc_arm_data_bytes fs)) = 48 * length fs"
  by (induction fs) simp_all

lemma payload_frame_concat:
  "i < length fs \<Longrightarrow> payload_frame (concat (map pc_arm_data_bytes fs)) i = pc_arm_data_bytes (fs ! i)"
proof (induction fs arbitrary: i)
  case (Cons f fs)
  then show ?case by (cases i) (simp_all add: payload_frame_def)
qed simp

lemma payload_frames_concat:
  "map (payload_frame (concat (map pc_arm_data_bytes fs))) [0..<length fs] = map pc_arm_data_bytes fs"
  by (rule nth_equalityI) (simp_all add: payload_frame_concat)

lemma group_packet_handled:
  assumes "group_payload fs" "unat channel < AXICAN_MAX"
  shows "download_packet os (data_req_of (group_packet counter channel fs)) s =
    snd (enqueue_broadcast_group os (ucast channel) fs s)"
proof -
  let ?p = "concat (map pc_arm_data_bytes fs)"
  have n: "fs \<noteq> []" "length fs \<le> 128" "0 < length fs" using assms(1) by (auto simp: group_payload_def)
  have v: "\<forall>f \<in> set (map pc_arm_data_bytes fs). validate_48byte_can_payload f"
    "\<forall>f \<in> set (map pc_arm_data_bytes fs). pd_type (pc_arm_data_of f) = 2"
    using assms(1) by (auto simp: group_payload_def)
  have m: "map pc_arm_data_of (map pc_arm_data_bytes fs) = fs" by (simp add: comp_def)
  have "process_9012_can_payload_frames os (Some ?p) channel s = enqueue_broadcast_group os (ucast channel) fs s"
  proof (cases "length fs = 1")
    case True
    then obtain f where "fs = [f]" by (metis length_0_conv length_Suc_conv One_nat_def)
    then show ?thesis
      using v assms(2) payload_frames_concat[of fs] by (simp add: process_9012_can_payload_frames_def Let_def)
  next
    case False
    then show ?thesis
      using n v m assms(2) by (simp add: process_9012_can_payload_frames_def Let_def payload_frames_concat del: set_map map_map One_nat_def)
  qed
  moreover have "unat (of_nat k :: u32) = k" if "k < 2 ^ 32" for k using that by (simp add: unat_of_nat)
  from this[of "length ?p"] have "unat (of_nat (length ?p) :: u32) = length ?p" using n(2) by simp
  ultimately show ?thesis
    using n(3) by (simp add: download_packet_def group_packet_def encoded_request Let_def Suc_le_eq)
qed

section \<open>Accepted groups\<close>

text \<open>The window is open as long as the clock has not passed its end.\<close>

definition clock_within :: "os \<Rightarrow> u64 \<Rightarrow> bool" where
  "clock_within os until \<longleftrightarrow> (\<forall>k ts. os_clock os k = Some ts \<longrightarrow> ms_of ts \<le> until)"

definition window_open :: "os \<Rightarrow> server \<Rightarrow> bool" where
  "window_open os s \<longleftrightarrow> g_bcast_rx_gate_open s \<noteq> 0 \<and> clock_within os (g_bcast_rx_gate_until_ms s)"

lemma window_query:
  assumes "window_open os s"
  shows "is_broadcast_rx_gate_open os s = (True, s\<lparr>sys_calls := Suc (sys_calls s)\<rparr>)"
proof (cases "os_clock os (sys_calls s)")
  case None
  then show ?thesis using assms by (simp add: window_open_def is_broadcast_rx_gate_open_def monotonic_ms_def sys_clock_def)
next
  case (Some ts)
  then show ?thesis
    using assms by (cases ts) (simp add: window_open_def clock_within_def is_broadcast_rx_gate_open_def monotonic_ms_clock)
qed

lemma enqueue_accepted:
  assumes "bcast_inv s" "channel_configured s ch" "window_open os s" "group_payload fs"
    "length (bcast_queue s ch) < ch_room ch 6 (g_bcast_group_buf_set s)"
  obtains gid q where "enqueue_broadcast_group os ch fs s =
      (Inr (), s\<lparr>sys_calls := Suc (sys_calls s), g_bcast_group_id := gid, g_bcast_group_buf_set := q\<rparr>)"
    "bcast_queue (s\<lparr>g_bcast_group_buf_set := q\<rparr>) ch = bcast_queue s ch @ [broadcast_group gid fs]"
    "ch_room ch 6 q = ch_room ch 6 (g_bcast_group_buf_set s)"
proof -
  let ?G = "g_bcast_group_buf_set s" and ?s1 = "s\<lparr>sys_calls := Suc (sys_calls s)\<rparr>"
  note i = bcast_invD[OF assms(1)]
  have ok: "ch_ok ?G ch 6" "length (ch_contents ?G ch) < ch_capacity ?G ch"
    using assms(5) by (auto simp: bcast_queue_def ch_view_def ch_room_def split: if_splits)
  then have room: "ringbuffer_32ch_avail (Some ?G) ch 6 \<noteq> 0" using ch32_avail[OF i(1), of ch 6] by auto
  obtain gid s2 where g: "next_broadcast_group_id ?s1 = (gid, s2)" by fastforce
  let ?g = "broadcast_group gid fs" and ?q = "set_push ?G ch (bcast_group_bytes (broadcast_group gid fs))"
  have fs: "fs \<noteq> []" "length fs \<le> 128" using assms(4) by (simp_all add: group_payload_def)
  then have l: "length (bg_frames ?g) = 128" by (simp add: broadcast_group_def)
  have "enqueue_broadcast_group os ch fs s =
      (Inr (), s\<lparr>sys_calls := Suc (sys_calls s), g_bcast_group_id := gid, g_bcast_group_buf_set := ?q\<rparr>)"
    using fs assms(2) room ok window_query[OF assms(3)] next_group_id_nonzero[OF g]
    by (simp add: enqueue_broadcast_group_def is_broadcast_pps_window_open_def channel_configured_def g ch32_put_cases[OF i(1)]
        ret_val_def Let_def)
  moreover have "bcast_queue (s\<lparr>g_bcast_group_buf_set := ?q\<rparr>) ch = bcast_queue s ch @ [?g]"
    using bcast_queue_push[OF assms(1) ok l, of ch] by simp
  moreover have "ch_room ch 6 ?q = ch_room ch 6 ?G"
    using set_push_laws(3,4)[OF i(1) ok, of "bcast_group_bytes ?g"] l i(2) by (simp add: ch_room_def)
  ultimately show thesis by (rule that)
qed

text \<open>The frames that a queued group puts on the bus.\<close>

definition group_frames :: "BroadcastFrameGroup \<Rightarrow> axican_frame list" where
  "group_frames g = take (unat (bg_frame_count g)) (bg_frames g)"

lemma group_frames_broadcast: "length fs \<le> 128 \<Longrightarrow> group_frames (broadcast_group gid fs) = map pc_can_payload_to_axican_frame fs"
  by (simp add: group_frames_def broadcast_group_def unat_of_nat)

definition bus_frames :: "PC_ARM_DATA_DATA list \<Rightarrow> axican_frame list" where
  "bus_frames fs = map pc_can_payload_to_axican_frame fs"

text \<open>Incoming groups change nothing but the queues, the group number and the number of system calls.\<close>

definition queued_only :: "server \<Rightarrow> server \<Rightarrow> bool" where
  "queued_only s t \<longleftrightarrow> t = s\<lparr>sys_calls := sys_calls t, g_bcast_group_id := g_bcast_group_id t,
     g_bcast_group_buf_set := g_bcast_group_buf_set t\<rparr>"

lemma queued_only_trans: "queued_only s t \<Longrightarrow> queued_only t u \<Longrightarrow> queued_only s u"
  by (cases s; cases t; cases u; simp add: queued_only_def)

lemma queued_only_fields:
  assumes "queued_only s t"
  shows "sys_trace t = sys_trace s" "can_configs t = can_configs s" "axican_test t = axican_test s" "g_bcast_cfg t = g_bcast_cfg s"
    "g_bcast_wake_pending t = g_bcast_wake_pending s" "window_open os t = window_open os s"
    "channel_configured t ch = channel_configured s ch"
  using assms by (cases s; cases t; simp add: queued_only_def window_open_def channel_configured_def)+

lemma groups_queued:
  assumes "dl_ok s" "channel_configured s ch" "window_open os s" "\<forall>fs \<in> set gs. group_payload fs"
    "length (bcast_queue s ch) + length gs \<le> ch_room ch 6 (g_bcast_group_buf_set s)"
  defines "t \<equiv> fold (\<lambda>fs s. snd (enqueue_broadcast_group os ch fs s)) gs s"
  shows "dl_ok t \<and> queued_only s t \<and>
    map group_frames (bcast_queue t ch) = map group_frames (bcast_queue s ch) @ map bus_frames gs"
  using assms(1-5) unfolding t_def
proof (induction gs arbitrary: s)
  case Nil
  then show ?case by (simp add: queued_only_def)
next
  case (Cons fs gs)
  have i: "bcast_inv s" using Cons.prems(1) by (simp add: dl_ok_def ctrl_ok_def)
  have g: "group_payload fs" "length fs \<le> 128" using Cons.prems(4) by (simp_all add: group_payload_def)
  have room: "length (bcast_queue s ch) < ch_room ch 6 (g_bcast_group_buf_set s)" using Cons.prems(5) by simp
  obtain gid q where e: "enqueue_broadcast_group os ch fs s =
      (Inr (), s\<lparr>sys_calls := Suc (sys_calls s), g_bcast_group_id := gid, g_bcast_group_buf_set := q\<rparr>)"
    and q: "bcast_queue (s\<lparr>g_bcast_group_buf_set := q\<rparr>) ch = bcast_queue s ch @ [broadcast_group gid fs]"
      "ch_room ch 6 q = ch_room ch 6 (g_bcast_group_buf_set s)"
    by (rule enqueue_accepted[OF i Cons.prems(2,3) g(1) room])
  define s1 where "s1 = s\<lparr>sys_calls := Suc (sys_calls s), g_bcast_group_id := gid, g_bcast_group_buf_set := q\<rparr>"
  have o: "queued_only s s1" by (simp add: queued_only_def s1_def)
  note f = queued_only_fields[OF o]
  have q1: "bcast_queue s1 ch = bcast_queue s ch @ [broadcast_group gid fs]" "g_bcast_group_buf_set s1 = q"
    using q(1) by (simp_all add: bcast_queue_def s1_def)
  have d: "dl_ok s1" using enqueue_bcast_ok[OF Cons.prems(1), of os ch fs] e by (simp add: s1_def)
  let ?t = "fold (\<lambda>fs s. snd (enqueue_broadcast_group os ch fs s)) gs s1"
  have "dl_ok ?t \<and> queued_only s1 ?t \<and> map group_frames (bcast_queue ?t ch) = map group_frames (bcast_queue s1 ch) @ map bus_frames gs"
    using Cons.prems(2-5) q(2) q1 f(6,7) by (intro Cons.IH[OF d]) simp_all
  moreover have "fold (\<lambda>fs s. snd (enqueue_broadcast_group os ch fs s)) (fs # gs) s = ?t" using e by (simp add: s1_def)
  ultimately show ?case using queued_only_trans[OF o] q1(1) g(2) by (simp add: group_frames_broadcast bus_frames_def)
qed

section \<open>One group per pulse\<close>

text \<open>A pulse, and the turn of the sending thread that it wakes.\<close>

definition pulse_and_send :: "os \<Rightarrow> u8 \<Rightarrow> server \<Rightarrow> server" where
  "pulse_and_send os ch s = broadcast_can_send_round os ch (process_broadcast_pps os s)"

text \<open>How many of the next \<open>n\<close> pulses select the channel.\<close>

fun selected :: "nat \<Rightarrow> u8 \<Rightarrow> BroadcastSchedulerConfig \<Rightarrow> nat" where
  "selected 0 ch c = 0"
| "selected (Suc n) ch c = (case select_mask c of (m, c') \<Rightarrow> (if bit m (unat ch) then 1 else 0) + selected n ch c')"

lemma write_frames_all:
  assumes "\<forall>k. os_write os k = 24"
  shows "write_frames os fd fs s = (Inr (), s\<lparr>sys_calls := sys_calls s + length fs,
    sys_trace := sys_trace s @ map (\<lambda>f. Written fd (axican_frame_bytes f)) fs\<rparr>)"
  using assms by (induction fs arbitrary: s) (simp_all add: sys_write_def)

text \<open>The channel is ready to send: it is open, nothing is pending, and its device is the one given.\<close>

definition bcast_ready :: "u8 \<Rightarrow> int \<Rightarrow> server \<Rightarrow> bool" where
  "bcast_ready ch fd s \<longleftrightarrow> bcast_inv s \<and> unat ch < AXICAN_MAX \<and> dc_state (can_configs s ! unat ch) = CAN_STATE_OPENED \<and>
     g_bcast_wake_pending s ! unat ch = 0 \<and> ax_wr_fd (axican_test s ! unat ch) = fd"

lemma pulse_trace:
  "sys_trace (process_broadcast_pps os s) = sys_trace s" "axican_test (process_broadcast_pps os s) = axican_test s"
  by (simp_all add: process_broadcast_pps_def gate_set_frame select_broadcast_mask_on_pps_def notify_broadcast_channels_def notify_fold
      split_beta)

lemma take_trace:
  "take_broadcast_group ch s = (n, g, t) \<Longrightarrow> sys_trace t = sys_trace s \<and> axican_test t = axican_test s"
  by (auto simp: take_broadcast_group_def Let_def split: if_splits prod.splits)

lemma pulse_and_send_step:
  assumes "bcast_ready ch fd s" "\<forall>k. os_write os k = 24" "select_mask (g_bcast_cfg s) = (m, c')"
  defines "t \<equiv> pulse_and_send os ch s"
  defines "k \<equiv> (if bit m (unat ch) then 1 else 0)"
  shows "bcast_ready ch fd t \<and> g_bcast_cfg t = c' \<and> bcast_queue t ch = drop k (bcast_queue s ch) \<and>
    sys_trace t = sys_trace s @ map (\<lambda>f. Written fd (axican_frame_bytes f)) (concat (map group_frames (take k (bcast_queue s ch))))"
proof -
  have r: "bcast_inv s" "unat ch < 6" "dc_state (can_configs s ! unat ch) = CAN_STATE_OPENED"
    "g_bcast_wake_pending s ! unat ch = 0" "ax_wr_fd (axican_test s ! unat ch) = fd"
    using assms(1) by (simp_all add: bcast_ready_def)
  let ?p = "process_broadcast_pps os s"
  note p = pps_laws[OF r(1) refl assms(3), where os = os]
  have w: "g_bcast_wake_pending ?p ! unat ch = (if bit m (unat ch) then 1 else 0)" using p(7)[OF r(2)] r(4) by simp
  have wl: "length (g_bcast_wake_pending ?p) = 6" using bcast_invD(3)[OF p(1)] .
  obtain n g u where e: "take_broadcast_group ch ?p = (n, g, u)" by (metis prod_cases3)
  note l = take_laws[OF p(1) e]
  have tr: "sys_trace u = sys_trace s" "axican_test u = axican_test s" using take_trace[OF e] pulse_trace[of os s] by simp_all
  have u: "bcast_ready ch fd u \<and> g_bcast_cfg u = c'"
    using l p(3,4) w wl r(2,3,5) tr(2) by (simp add: bcast_ready_def split: if_splits)
  show ?thesis
  proof (cases "bit m (unat ch) \<and> bcast_queue s ch \<noteq> []")
    case False
    then have "n = 0" "bcast_queue u = bcast_queue s" using l p(2,3) w by (auto split: if_splits)
    then show ?thesis using u tr False by (auto simp: t_def pulse_and_send_def broadcast_can_send_round_def e k_def)
  next
    case True
    then obtain g0 gs where q: "bcast_queue s ch = g0 # gs" by (cases "bcast_queue s ch") auto
    then have n: "n = 1" "g = Some g0" "bcast_queue u ch = gs" using l p(2,3) w r(2,3) True by simp_all
    have "t = u\<lparr>sys_calls := sys_calls u + length (group_frames g0),
        sys_trace := sys_trace u @ map (\<lambda>f. Written fd (axican_frame_bytes f)) (group_frames g0)\<rparr>"
      using n u r(2) write_frames_all[OF assms(2)]
      by (simp add: t_def pulse_and_send_def broadcast_can_send_round_def e send_broadcast_group_for_channel_def bcast_ready_def
          group_frames_def)
    then show ?thesis
      using u tr n(3) True q by (auto simp: bcast_ready_def k_def bcast_inv_def bcast_queue_def)
  qed
qed

lemma pulses_send_groups:
  assumes "bcast_ready ch fd s" "\<forall>k. os_write os k = 24"
  defines "t \<equiv> \<lambda>n. (pulse_and_send os ch ^^ n) s"
  defines "k \<equiv> \<lambda>n. selected n ch (g_bcast_cfg s)"
  shows "bcast_queue (t n) ch = drop (k n) (bcast_queue s ch) \<and>
    sys_trace (t n) = sys_trace s @ map (\<lambda>f. Written fd (axican_frame_bytes f)) (concat (map group_frames (take (k n) (bcast_queue s ch))))"
  using assms(1) unfolding t_def k_def
proof (induction n arbitrary: s)
  case (Suc n)
  obtain m c' where m: "select_mask (g_bcast_cfg s) = (m, c')" by fastforce
  let ?k = "if bit m (unat ch) then 1 else 0 :: nat"
  note st = pulse_and_send_step[OF Suc.prems assms(2) m]
  have "take (?k + j) xs = take ?k xs @ take j (drop ?k xs)" for j and xs :: "BroadcastFrameGroup list" by (rule take_add)
  then show ?case
    using Suc.IH[of "pulse_and_send os ch s"] st m by (simp add: funpow_swap1 add.commute)
qed simp

section \<open>Properties\<close>

lemma group_stream_drained:
  assumes "\<forall>fs \<in> set gs. group_payload fs" "unat channel < AXICAN_MAX"
  shows "download_drain os (concat (map (group_packet counter channel) gs)) s =
    ([], fold (\<lambda>fs s. snd (enqueue_broadcast_group os (ucast channel) fs s)) gs s)"
proof -
  let ?ps = "map (group_packet counter channel) gs"
  have "length fs \<le> 128" if "fs \<in> set gs" for fs using assms(1) that by (simp add: group_payload_def)
  then have "download_verdict (p @ c) = Packet (length p)" if "p \<in> set ?ps" for p c
    using that by (fastforce simp: group_packet_def intro!: encode_data_packet_verdict)
  then have "download_drain os (concat ?ps) s = ([], fold (download_handle os) ?ps s)"
    using dl.packets_handled[of ?ps "[]" os s] by (simp add: download_verdict_def)
  moreover have "fold (download_handle os) ?ps s = fold (\<lambda>fs s. snd (enqueue_broadcast_group os (ucast channel) fs s)) gs s"
    using assms(1) by (induction gs arbitrary: s) (simp_all add: download_handle_def group_packet_handled[OF _ assms(2)])
  ultimately show ?thesis by simp
qed

text \<open>
  C4.  A broadcast group reaches the bus, one for each pulse: when the current download client sends valid groups for an open
  channel with an empty queue, in whatever segments, while the receive window is open and the queue has room for them, then the
  receive buffer is empty afterwards, and after \<open>n\<close> pulses, each followed by a turn of the sending thread, exactly the groups of the
  first \<open>k\<close> packets have been written to the device of the channel, complete, in order and once each, where \<open>k\<close> is the number of
  those pulses for which the configured schedule selects the channel.
\<close>

theorem broadcast_reaches_bus:
  assumes "dl_ok s" and "bcast_ready ch fd s" and "channel_configured s ch" and "running s" and "data_download_socket s = sock"
    and "ch = ucast (channel :: u32)" and "unat channel < AXICAN_MAX"
    and "window_open os s" and "\<forall>k. os_write os k = 24"
    and "\<forall>fs \<in> set gs. group_payload fs" and "bcast_queue s ch = []"
    and "length gs \<le> ch_room ch 6 (g_bcast_group_buf_set s)"
    and "concat chunks = concat (map (group_packet counter channel) gs)" and "chunks_fit os [] chunks s"
  shows "let (rest, s1) = download_client os sock (map Received chunks) ([], s);
             k = selected n ch (g_bcast_cfg s); t = (pulse_and_send os ch ^^ n) s1
    in rest = [] \<and> map group_frames (bcast_queue t ch) = map bus_frames (drop k gs) \<and>
       sys_trace t = sys_trace s @ map (\<lambda>f. Written fd (axican_frame_bytes f)) (concat (map bus_frames (take k gs)))"
proof -
  define s1 where "s1 = fold (\<lambda>fs s. snd (enqueue_broadcast_group os ch fs s)) gs s"
  have "download_verdict [] = Need" by (simp add: download_verdict_def)
  from download_client_chunks[OF assms(4,5) this assms(14)]
  have c: "download_client os sock (map Received chunks) ([], s) = ([], s1)"
    using group_stream_drained[OF assms(10,7), of os counter s] by (simp add: s1_def assms(6,13))
  have l: "length (bcast_queue s ch) + length gs \<le> ch_room ch 6 (g_bcast_group_buf_set s)" using assms(11,12) by simp
  have s1: "dl_ok s1" "queued_only s s1" "map group_frames (bcast_queue s1 ch) = map bus_frames gs"
    using groups_queued[OF assms(1,3,8,10) l] assms(11) by (simp_all add: s1_def)
  note f = queued_only_fields[OF s1(2)]
  have "bcast_ready ch fd s1" using assms(2) s1(1) f(2,3,5) by (simp add: bcast_ready_def dl_ok_def ctrl_ok_def)
  from pulses_send_groups[OF this assms(9), of n] show ?thesis
    by (simp add: c f(1,4) s1(3) take_map drop_map flip: take_map drop_map)
qed

text \<open>Channel 0 with a valid configuration, always scheduled, in an endless window.\<close>

definition demo_bcast_payload :: PC_ARM_DATA_DATA where
  "demo_bcast_payload = zero_payload\<lparr>pd_head := PC_STATUS_HEAD, pd_type := 2, pd_length := 48, pd_idr := 0x123,
     pd_xor_checksum := 0x49A601F1\<rparr>"

definition demo_scheduled :: server where
  "demo_scheduled = demo_gateway\<lparr>g_bcast_rx_gate_open := 1, g_bcast_rx_gate_until_ms := -1,
     g_bcast_cfg := zero_bcast_cfg\<lparr>bc_enable := 1, bc_mode := 1, bc_active_mask := 1\<rparr>\<rparr>"

lemma demo_group_payload: "group_payload [demo_bcast_payload]"
  by code_simp

lemma demo_scheduled_queue: "bcast_queue demo_scheduled ch = []" "ch_room 0 6 (g_bcast_group_buf_set demo_scheduled) = 2"
proof -
  have q: "g_bcast_group_buf_set demo_scheduled = g_bcast_group_buf_set demo_server"
    by (simp add: demo_scheduled_def demo_gateway_def)
  then show "bcast_queue demo_scheduled ch = []" using demo_queue_empty[of ch] by (simp add: bcast_queue_def)
  show "ch_room 0 6 (g_bcast_group_buf_set demo_scheduled) = 2"
    unfolding q by (simp add: demo_server_def ch_room_def ch_ok_def ringbuffer_channel_valid_def ch_capacity_def channel_of_def
        rb_capacity_def)
qed

lemma demo_scheduled_ok:
  "dl_ok demo_scheduled" "bcast_ready 0 0 demo_scheduled" "channel_configured demo_scheduled 0" "running demo_scheduled"
  "data_download_socket demo_scheduled = -1" "sys_trace demo_scheduled = []" "window_open os demo_scheduled"
  "selected 1 0 (g_bcast_cfg demo_scheduled) = 1"
proof -
  have "bcast_inv demo_gateway" using demo_gateway_dl by (simp add: dl_ok_def ctrl_ok_def)
  then have i: "bcast_inv demo_scheduled" by (simp add: bcast_inv_def bcast_queue_def demo_scheduled_def cfg_ok_def zero_bcast_cfg_def)
  then show "dl_ok demo_scheduled" using demo_gateway_dl by (simp add: dl_ok_def ctrl_ok_def demo_scheduled_def)
  show "bcast_ready 0 0 demo_scheduled" "channel_configured demo_scheduled 0" "running demo_scheduled"
    "data_download_socket demo_scheduled = -1" "sys_trace demo_scheduled = []" "window_open os demo_scheduled"
    using i by (simp_all add: bcast_ready_def channel_configured_def window_open_def clock_within_def)
      (simp_all add: demo_scheduled_def demo_gateway_def demo_server_def boot_server_def zero_axican_def)
  show "selected 1 0 (g_bcast_cfg demo_scheduled) = 1"
    by (simp add: demo_scheduled_def select_mask_def zero_bcast_cfg_def split: prod.split)
qed

theorem broadcast_reaches_bus_witness:
  "sys_trace (pulse_and_send demo_os 0 (snd (download_client demo_os (-1)
      [Received (group_packet 1 0 [demo_bcast_payload])] ([], demo_scheduled)))) =
   [Written 0 (axican_frame_bytes (pc_can_payload_to_axican_frame demo_bcast_payload))]"
proof -
  let ?p = "group_packet 1 0 [demo_bcast_payload]"
  have "length ?p = 68" by (simp add: group_packet_def encode_data_packet_def Let_def)
  then have "chunks_fit demo_os [] [?p] demo_scheduled" by (simp split: prod.split)
  moreover have "\<forall>k. os_write demo_os k = 24" by (simp add: demo_os_def)
  moreover obtain r s1 where "download_client demo_os (-1) [Received ?p] ([], demo_scheduled) = (r, s1)" by fastforce
  ultimately show ?thesis
    using broadcast_reaches_bus[of demo_scheduled 0 0 "-1" 0 demo_os "[[demo_bcast_payload]]" "[?p]" 1 1]
      demo_scheduled_ok demo_scheduled_queue demo_group_payload
    by (simp add: Let_def bus_frames_def del: download_client.simps chunks_fit.simps selected.simps)
qed

end
