(* ===== verification/Connections.thy ===== *)
theory Connections
  imports Download_Stream
begin

text \<open>
  The connections of the program (\<^verbatim>\<open>src/main18.c\<close>): the listening threads, the registration of the single client of the upload
  (9010), event (9011) and download (9012) connections, and the thread that waits for the pulse.

  The three registrations follow one contract, the locale \<open>registered_client\<close>; what is shown there about replaced clients
  holds for each of them.
\<close>

section \<open>Upload and event clients\<close>

definition upload_connect :: "int \<Rightarrow> server \<Rightarrow> server" where
  "upload_connect sock s =
     (if data_upload_socket s \<noteq> -1 then sys_shutdown (data_upload_socket s) s else s)\<lparr>data_upload_socket := sock\<rparr>"

definition upload_disconnect :: "int \<Rightarrow> server \<Rightarrow> server" where
  "upload_disconnect sock s =
     (let s1 = (if data_upload_socket s = sock then s\<lparr>data_upload_socket := -1\<rparr> else s)
      in s1\<lparr>sys_trace := sys_trace s1 @ [Closed sock]\<rparr>)"

definition event_connect :: "int \<Rightarrow> server \<Rightarrow> server" where
  "event_connect sock s =
     (if event_socket s \<noteq> -1 then sys_shutdown (event_socket s) s else s)\<lparr>event_socket := sock\<rparr>"

definition event_disconnect :: "int \<Rightarrow> server \<Rightarrow> server" where
  "event_disconnect sock s =
     (let s1 = (if event_socket s = sock then s\<lparr>event_socket := -1\<rparr> else s)
      in s1\<lparr>sys_trace := sys_trace s1 @ [Closed sock]\<rparr>)"

text \<open>
  The loop of both handlers discards what it receives.  It ends with the peer, with an error or with an interruption; the rest of
  the results is not consumed.
\<close>

fun discard_loop :: "bool \<Rightarrow> recv_result list \<Rightarrow> recv_result list" where
  "discard_loop run [] = []"
| "discard_loop run (r # rs) =
     (if \<not> run then r # rs else case r of Received _ \<Rightarrow> discard_loop run rs | _ \<Rightarrow> rs)"

definition tcp_client_handler_9010 :: "int \<Rightarrow> recv_result list \<Rightarrow> server \<Rightarrow> recv_result list \<times> server" where
  "tcp_client_handler_9010 sock rs s =
     (let s1 = upload_connect sock s in (discard_loop (running s1) rs, upload_disconnect sock s1))"

definition tcp_client_handler_9011 :: "int \<Rightarrow> recv_result list \<Rightarrow> server \<Rightarrow> recv_result list \<times> server" where
  "tcp_client_handler_9011 sock rs s =
     (let s1 = event_connect sock s in (discard_loop (running s1) rs, event_disconnect sock s1))"

section \<open>Listening\<close>

record listen_env =
  le_socket :: int
  le_setsockopt :: int
  le_bind :: int
  le_listen :: int

text \<open>
  One turn: no memory, a failed accept, or a connection together with the success of the thread creation.  The list of turns holds those
  that are made while \<open>running\<close> is set.
\<close>

datatype accept_result = No_Memory | Accept_Failed | Accepted int bool

text \<open>\<open>Detached False\<close> is the call with a thread identifier that no creation has set in this turn.\<close>

datatype listen_effect = Handler int int | Close_Fd int | Detached bool

fun accept_loop :: "int \<Rightarrow> accept_result list \<Rightarrow> listen_effect list" where
  "accept_loop port [] = []"
| "accept_loop port (a # as) =
     (case a of
        No_Memory \<Rightarrow> []
      | Accept_Failed \<Rightarrow> []
      | Accepted sock created \<Rightarrow> [if created then Handler port sock else Close_Fd sock, Detached created])
     @ accept_loop port as"

definition listen_thread :: "int \<Rightarrow> listen_env \<Rightarrow> accept_result list \<Rightarrow> listen_effect list" where
  "listen_thread port env as =
     (if le_socket env = 0 then []
      else if le_setsockopt env \<noteq> 0 then [Close_Fd (le_socket env)]
      else if le_bind env < 0 then [Close_Fd (le_socket env)]
      else if le_listen env < 0 then [Close_Fd (le_socket env)]
      else accept_loop port as @ [Close_Fd (le_socket env)])"

definition tcp_listen_thread_9009 :: "listen_env \<Rightarrow> accept_result list \<Rightarrow> listen_effect list" where
  "tcp_listen_thread_9009 = listen_thread 9009"

definition tcp_listen_thread_9010 :: "listen_env \<Rightarrow> accept_result list \<Rightarrow> listen_effect list" where
  "tcp_listen_thread_9010 = listen_thread 9010"

definition tcp_listen_thread_9011 :: "listen_env \<Rightarrow> accept_result list \<Rightarrow> listen_effect list" where
  "tcp_listen_thread_9011 = listen_thread 9011"

definition tcp_listen_thread_9012 :: "listen_env \<Rightarrow> accept_result list \<Rightarrow> listen_effect list" where
  "tcp_listen_thread_9012 = listen_thread 9012"

section \<open>The pulse\<close>

datatype pps_poll = Pps_Timeout | Pps_Interrupted | Pps_Failed | Pps_Event bool

definition pps_irq_round :: "os \<Rightarrow> pps_poll \<Rightarrow> server \<Rightarrow> loop_exit \<times> server" where
  "pps_irq_round os r s =
     (if \<not> running s then (Leave, s)
      else case r of
        Pps_Timeout \<Rightarrow> (Continue, s)
      | Pps_Interrupted \<Rightarrow> (Continue, s)
      | Pps_Failed \<Rightarrow> (Leave, s)
      | Pps_Event ready \<Rightarrow>
          (Continue, if ready then process_broadcast_pps os (s\<lparr>sys_calls := Suc (sys_calls s)\<rparr>) else s))"

fun pps_irq_loop :: "os \<Rightarrow> pps_poll list \<Rightarrow> server \<Rightarrow> server" where
  "pps_irq_loop os [] s = s"
| "pps_irq_loop os (r # rs) s =
     (case pps_irq_round os r s of (Continue, s1) \<Rightarrow> pps_irq_loop os rs s1 | (Leave, s1) \<Rightarrow> s1)"

definition pps_irq_thread :: "os \<Rightarrow> int \<Rightarrow> pps_poll list \<Rightarrow> server \<Rightarrow> server" where
  "pps_irq_thread os fd rs s =
     (if fd < 0 then send_event os EVENT_LEVEL_ERROR EVENT_CAN_INIT_FAILED ''PPS irq device open failed'' s
      else let s1 = pps_irq_loop os rs s in s1\<lparr>sys_trace := sys_trace s1 @ [Closed fd]\<rparr>)"

section \<open>Registered clients\<close>

text \<open>
  The life of the clients of one port: handlers register and unregister in any order, and other threads may drop the registered client,
  after shutting it down.  The map records, for every handler that has not ended, the length of the trace when it registered.
\<close>

inductive conn_steps ::
    "(server \<Rightarrow> int) \<Rightarrow> (int \<Rightarrow> server \<Rightarrow> server) \<Rightarrow> (int \<Rightarrow> server \<Rightarrow> server) \<Rightarrow> server \<Rightarrow> (int \<rightharpoonup> nat) \<Rightarrow> server \<Rightarrow> bool"
  for reg connect disconnect s where
  conn_start: "conn_steps reg connect disconnect s Map.empty s"
| conn_connect: "conn_steps reg connect disconnect s live t \<Longrightarrow> k \<notin> dom live \<Longrightarrow> k \<noteq> -1 \<Longrightarrow>
    conn_steps reg connect disconnect s (live(k \<mapsto> length (sys_trace t))) (connect k t)"
| conn_disconnect: "conn_steps reg connect disconnect s live t \<Longrightarrow> k \<in> dom live \<Longrightarrow>
    conn_steps reg connect disconnect s (live(k := None)) (disconnect k t)"
| conn_other: "conn_steps reg connect disconnect s live t \<Longrightarrow> sys_trace u = sys_trace t @ effects \<Longrightarrow>
    reg u = reg t \<or> reg u = -1 \<and> Shutdown (reg t) \<in> set effects \<Longrightarrow> conn_steps reg connect disconnect s live u"

definition supervised :: "(server \<Rightarrow> int) \<Rightarrow> (int \<rightharpoonup> nat) \<Rightarrow> server \<Rightarrow> bool" where
  "supervised reg live t \<longleftrightarrow> (reg t \<noteq> -1 \<longrightarrow> reg t \<in> dom live) \<and>
     (\<forall>k n. live k = Some n \<longrightarrow> k \<noteq> -1 \<and> n \<le> length (sys_trace t) \<and> (k \<noteq> reg t \<longrightarrow> Shutdown k \<in> set (drop n (sys_trace t))))"

locale registered_client =
  fixes reg :: "server \<Rightarrow> int" and connect disconnect :: "int \<Rightarrow> server \<Rightarrow> server"
  assumes connect_reg: "reg (connect k s) = k"
    and connect_trace: "sys_trace (connect k s) = sys_trace s @ (if reg s = -1 then [] else [Shutdown (reg s)])"
    and disconnect_reg: "reg (disconnect k s) = (if reg s = k then -1 else reg s)"
    and disconnect_trace: "sys_trace (disconnect k s) = sys_trace s @ [Closed k]"
begin

lemma all_supervised:
  assumes "conn_steps reg connect disconnect s live t" "reg s = -1"
  shows "supervised reg live t"
  using assms
proof (induction)
  case conn_start
  then show ?case by (simp add: supervised_def)
next
  case (conn_connect live t k)
  then have ih: "supervised reg live t" by simp
  show ?case
    using ih conn_connect.hyps(2,3) unfolding supervised_def connect_reg connect_trace
    by (auto intro: le_SucI split: if_splits)
next
  case (conn_disconnect live t k)
  then have ih: "supervised reg live t" by simp
  then show ?case unfolding supervised_def disconnect_reg disconnect_trace by (auto intro: le_SucI split: if_splits)
next
  case (conn_other live t u effects)
  then have ih: "supervised reg live t" by simp
  then show ?case using conn_other.hyps(2,3) unfolding supervised_def by (auto intro: trans_le_add1)
qed

end

interpretation up: registered_client data_upload_socket upload_connect upload_disconnect
  by unfold_locales (auto simp: upload_connect_def upload_disconnect_def sys_shutdown_def Let_def)

interpretation ev: registered_client event_socket event_connect event_disconnect
  by unfold_locales (auto simp: event_connect_def event_disconnect_def sys_shutdown_def Let_def)

interpretation down: registered_client data_download_socket download_connect download_disconnect
  by unfold_locales (auto simp: download_connect_def download_disconnect_def sys_shutdown_def Let_def)

text \<open>The senders are such other steps: they drop the registered client only after shutting it down.\<close>

lemma upload_send_other:
  "\<exists>effects. sys_trace (upload_send os bytes s) = sys_trace s @ effects \<and>
    (data_upload_socket (upload_send os bytes s) = data_upload_socket s \<or>
     data_upload_socket (upload_send os bytes s) = -1 \<and> Shutdown (data_upload_socket s) \<in> set effects)"
  by (simp add: upload_send_def sys_send_def sys_shutdown_def)

lemma send_event_other:
  "\<exists>effects. sys_trace (send_event os l e m s) = sys_trace s @ effects \<and>
    (event_socket (send_event os l e m s) = event_socket s \<or>
     event_socket (send_event os l e m s) = -1 \<and> Shutdown (event_socket s) \<in> set effects)"
  by (simp add: send_event_def send_defs split: option.split)

section \<open>Properties\<close>



end
