(* ===== verification/Main_Run.thy ===== *)
theory Main_Run
  imports Startup
begin

text \<open>
  The rest of \<open>main\<close> (\<^verbatim>\<open>src/main18.c\<close>) after the devices are open: the creation of the listening, reporting and pulse
  threads, and what is done when the program stops.  Also the two functions that prepare threads and connections.

  Joining a thread changes nothing here.  The result of the \<open>k\<close>-th \<^verbatim>\<open>pthread_create\<close> is a parameter.  A store through a null pointer ends the
  program; it is \<open>None\<close>.
\<close>

section \<open>Preparing threads and connections\<close>

datatype sched_call = Set_Other | Set_Nice int

definition can_use_normal_sched :: "int \<Rightarrow> int \<Rightarrow> sched_call list" where
  "can_use_normal_sched nice_value ret_sched =
     (if ret_sched \<noteq> 0 then [Set_Other] else [Set_Other, Set_Nice nice_value])"

datatype socket_option = SO_KEEPALIVE | TCP_KEEPIDLE | TCP_KEEPINTVL | TCP_KEEPCNT

definition configure_tcp_keepalive :: "int \<Rightarrow> (socket_option \<Rightarrow> int) \<Rightarrow> (int \<times> socket_option \<times> int) list" where
  "configure_tcp_keepalive sock ret =
     (if ret SO_KEEPALIVE < 0 then [(sock, SO_KEEPALIVE, 1)]
      else [(sock, SO_KEEPALIVE, 1), (sock, TCP_KEEPIDLE, 60), (sock, TCP_KEEPINTVL, 10), (sock, TCP_KEEPCNT, 3)])"

text \<open>The processor that the transmit monitor of a channel is bound to; \<open>cpu_count\<close> is the answer of \<^verbatim>\<open>sysconf\<close>, which may be an error.\<close>

definition monitor_cpu :: "nat \<Rightarrow> int \<Rightarrow> int" where
  "monitor_cpu can_id cpu_count = int can_id mod (if cpu_count < 1 then 1 else cpu_count)"

lemma monitor_cpu_exists: "0 \<le> monitor_cpu can_id n \<and> (1 \<le> n \<longrightarrow> monitor_cpu can_id n < n)"
  by (simp add: monitor_cpu_def)

lemma monitor_cpu_spread: "6 \<le> n \<Longrightarrow> inj_on (\<lambda>can_id. monitor_cpu can_id n) {..<AXICAN_MAX}"
  by (auto simp: inj_on_def monitor_cpu_def mod_pos_pos_trivial)

section \<open>Starting the threads\<close>

datatype task = Listen int | Buffer_Report | Pps_Irq | Tx_Report nat | Rx_Report nat

text \<open>A listening thread is not started when there is no memory for its argument; the argument of a thread that could not be created is freed.\<close>

fun start_listeners :: "(nat \<Rightarrow> bool) \<Rightarrow> (nat \<Rightarrow> bool) \<Rightarrow> int list \<Rightarrow> nat \<times> heap_state \<Rightarrow> task list \<times> nat \<times> heap_state" where
  "start_listeners ok create [] (k, h) = ([], k, h)"
| "start_listeners ok create (port # ports) (k, h) =
     (case malloc ok h of
        (False, h1) \<Rightarrow> start_listeners ok create ports (k, h1)
      | (True, h1) \<Rightarrow>
          if create k
          then (case start_listeners ok create ports (Suc k, h1) of (ts, st) \<Rightarrow> (Listen port # ts, st))
          else start_listeners ok create ports (Suc k, free_block h1))"

text \<open>The two loops for the reporting threads neither look at the allocation nor at the creation.\<close>

fun start_reporters ::
    "(nat \<Rightarrow> bool) \<Rightarrow> (nat \<Rightarrow> bool) \<Rightarrow> (nat \<Rightarrow> task) \<Rightarrow> nat list \<Rightarrow> nat \<times> heap_state \<Rightarrow> (task list \<times> nat \<times> heap_state) option" where
  "start_reporters ok create task [] (k, h) = Some ([], k, h)"
| "start_reporters ok create task (i # is) (k, h) =
     (case malloc ok h of
        (False, h1) \<Rightarrow> None
      | (True, h1) \<Rightarrow>
          (case start_reporters ok create task is (Suc k, h1) of
             None \<Rightarrow> None
           | Some (ts, st) \<Rightarrow> Some ((if create k then [task i] else []) @ ts, st)))"

definition main_threads :: "(nat \<Rightarrow> bool) \<Rightarrow> (nat \<Rightarrow> bool) \<Rightarrow> nat \<times> heap_state \<Rightarrow> (task list \<times> bool \<times> heap_state) option" where
  "main_threads ok create st =
     (case start_listeners ok create [9009, 9010, 9011, 9012] st of (listen, k, h) \<Rightarrow>
      let report = (if create k then [Buffer_Report] else []);
          pps_thread_started = create (Suc k);
          pps = (if pps_thread_started then [Pps_Irq] else [])
      in case start_reporters ok create Tx_Report [0..<6] (Suc (Suc k), h) of
           None \<Rightarrow> None
         | Some (tx, st1) \<Rightarrow>
             (case start_reporters ok create Rx_Report [0..<6] st1 of
                None \<Rightarrow> None
              | Some (rx, _, h1) \<Rightarrow> Some (listen @ report @ pps @ tx @ rx, pps_thread_started, h1)))"

section \<open>Stopping\<close>

definition sigint_handler :: "server \<Rightarrow> server" where
  "sigint_handler s = s\<lparr>running := False\<rparr>"

text \<open>\<open>bufs ! id ! type\<close>: whether the older buffer of the channel has a block.\<close>

definition close_device :: "nat \<Rightarrow> server \<Rightarrow> server" where
  "close_device i s = s\<lparr>sys_trace := sys_trace s @ [Closed (ax_rd_fd (axican_test s ! i)), Closed (ax_wr_fd (axican_test s ! i))]\<rparr>"

definition free_can_buffers :: "bool list \<Rightarrow> heap_state \<Rightarrow> bool list \<times> heap_state" where
  "free_can_buffers row h =
     fold (\<lambda>type (row, h). if row ! type then (row[type := False], free_block h) else (row, h)) [0..<3] (row, h)"

fun stop_devices :: "nat list \<Rightarrow> bool list list \<Rightarrow> server \<times> heap_state \<Rightarrow> bool list list \<times> server \<times> heap_state" where
  "stop_devices [] bufs st = (bufs, st)"
| "stop_devices (i # is) bufs (s, h) =
     (case free_can_buffers (bufs ! i) h of (row, h1) \<Rightarrow> stop_devices is (bufs[i := row]) (close_device i s, h1))"

definition main_stop :: "bool list list \<Rightarrow> server \<times> heap_state \<Rightarrow> int \<times> server \<times> heap_state" where
  "main_stop bufs st =
     (case stop_devices [0..<AXICAN_MAX] bufs st of (_, st1) \<Rightarrow> (0, destroy_all_ring_buffers st1))"

section \<open>Laws\<close>

lemma free_live [simp]: "h_live (free_block h) = h_live h - 1"
  by (simp add: free_block_def)

lemma start_listeners_live:
  "start_listeners ok create ports (k, h) = (ts, k', h') \<Longrightarrow> h_live h' = h_live h + int (length ts)"
proof (induction ports arbitrary: k h ts)
  case (Cons port ports)
  show ?case
  proof (cases "ok (h_calls h) \<and> create k")
    case True
    then show ?thesis using Cons.prems by (auto simp: malloc_def dest!: Cons.IH split: prod.splits)
  next
    case False
    then show ?thesis using Cons.prems by (auto simp: malloc_def dest!: Cons.IH split: if_splits)
  qed
qed simp

lemma start_reporters_live:
  "start_reporters ok create task is (k, h) = Some (ts, k', h') \<Longrightarrow> h_live h' = h_live h + int (length is)"
proof (induction "is" arbitrary: k h ts)
  case (Cons i "is")
  then show ?case by (auto simp: malloc_def dest!: Cons.IH split: if_splits option.splits prod.splits)
qed simp

lemma malloc_all: "\<forall>k. ok k \<Longrightarrow> \<exists>h1. malloc ok h = (True, h1)"
  by (simp add: malloc_def)

lemma start_listeners_all:
  assumes "\<forall>k. ok k" "\<forall>k. create k"
  shows "\<exists>k' h'. start_listeners ok create ports (k, h) = (map Listen ports, k', h')"
proof (induction ports arbitrary: k h)
  case (Cons port ports)
  obtain h1 where "malloc ok h = (True, h1)" using malloc_all[OF assms(1)] by blast
  then show ?case using Cons.IH[of "Suc k" h1] assms(2) by auto
qed simp

lemma start_reporters_all:
  assumes "\<forall>k. ok k" "\<forall>k. create k"
  shows "\<exists>k' h'. start_reporters ok create task is (k, h) = Some (map task is, k', h')"
proof (induction "is" arbitrary: k h)
  case (Cons i "is")
  obtain h1 where "malloc ok h = (True, h1)" using malloc_all[OF assms(1)] by blast
  then show ?case using Cons.IH[of "Suc k" h1] assms(2) by auto
qed simp

text \<open>With memory and threads available every thread is started once, and each listening and reporting thread owns its argument.\<close>

lemma main_threads_all:
  assumes "\<forall>k. ok k" and "\<forall>k. create k"
  obtains h' where "main_threads ok create (k, h) =
      Some (map Listen [9009, 9010, 9011, 9012] @ [Buffer_Report, Pps_Irq] @ map Tx_Report [0..<6] @ map Rx_Report [0..<6], True, h')"
    and "h_live h' = h_live h + 16"
proof -
  let ?ports = "[9009, 9010, 9011, 9012]"
  obtain k1 h1 where l: "start_listeners ok create ?ports (k, h) = (map Listen ?ports, k1, h1)"
    using start_listeners_all[OF assms] by blast
  obtain k2 h2 where t: "start_reporters ok create Tx_Report [0..<6] (Suc (Suc k1), h1) = Some (map Tx_Report [0..<6], k2, h2)"
    using start_reporters_all[OF assms] by blast
  obtain k3 h3 where r: "start_reporters ok create Rx_Report [0..<6] (k2, h2) = Some (map Rx_Report [0..<6], k3, h3)"
    using start_reporters_all[OF assms] by blast
  show thesis
    using that[of h3] assms(2) start_listeners_live[OF l] start_reporters_live[OF t] start_reporters_live[OF r]
    by (simp add: main_threads_def l t r del: upt_rec_numeral start_listeners.simps)
qed

text \<open>The descriptors that are closed.\<close>

definition device_closings :: "server \<Rightarrow> nat list \<Rightarrow> effect list" where
  "device_closings s is =
     concat (map (\<lambda>i. [Closed (ax_rd_fd (axican_test s ! i)), Closed (ax_wr_fd (axican_test s ! i))]) is)"

lemma free_can_buffers_none: "row = [False, False, False] \<Longrightarrow> free_can_buffers row h = (row, h)"
  by (simp add: free_can_buffers_def upt_rec)

lemma stop_devices_none:
  assumes "\<forall>i \<in> set is. bufs ! i = [False, False, False]" "distinct is"
  shows "stop_devices is bufs (s, h) = (bufs, s\<lparr>sys_trace := sys_trace s @ device_closings s is\<rparr>, h)"
  using assms
proof (induction "is" arbitrary: s)
  case (Cons i "is")
  have "bufs[i := bufs ! i] = bufs" by (rule list_update_id)
  then show ?case using Cons by (simp add: free_can_buffers_none close_device_def device_closings_def)
qed (simp add: device_closings_def)

text \<open>The threads change what the sets contain and not their blocks.\<close>

definition same_blocks :: "server \<Rightarrow> server \<Rightarrow> bool" where
  "same_blocks t u \<longleftrightarrow> list_all2 (\<lambda>q q'. set_full q' \<and> set_blocks q' = set_blocks q) (all_sets t) (all_sets u) \<and>
     map ax_rd_fd (axican_test u) = map ax_rd_fd (axican_test t) \<and> map ax_wr_fd (axican_test u) = map ax_wr_fd (axican_test t)"

lemma same_blocks_balanced: "same_blocks t u \<Longrightarrow> balanced live (t, h) \<Longrightarrow> balanced live (u, h)"
  by (auto simp: same_blocks_def balanced_def all_sets_def)

lemma destroy_all_trace [simp]: "sys_trace (fst (destroy_all_ring_buffers (s, h))) = sys_trace s"
  by (simp add: destroy_all_ring_buffers_def split: prod.split)

section \<open>Starting and stopping\<close>

text \<open>
  Stopping undoes starting: whatever the threads did to the contents of the queues after a successful start, the end of
  the program closes both descriptors of each of the six devices, once each, and returns all memory of the queues.
\<close>

lemma stop_releases:
  assumes "main_start os bo (boot_server, h) = (0, t, h1)" and "same_blocks t u" and "h_live h2 = h_live h1"
  shows "case main_stop (replicate 6 [False, False, False]) (u, h2) of (ret, v, h3) \<Rightarrow>
    ret = 0 \<and> h_live h3 = h_live h \<and>
    sys_trace v = sys_trace u @ device_closings t [0..<6]"
proof -
  have "balanced (h_live h) (u, h2)"
    using same_blocks_balanced[OF assms(2) main_start_balanced(1)[OF assms(1)]] assms(3) by (simp add: balanced_def)
  then have b: "balanced (h_live h) (u\<lparr>sys_trace := tr\<rparr>, h2)" for tr by (simp add: balanced_def all_sets_def)
  have l: "length (axican_test t) = 32" by (rule main_start_balanced(2)[OF assms(1)])
  have m: "map ax_rd_fd (axican_test u) = map ax_rd_fd (axican_test t)" "map ax_wr_fd (axican_test u) = map ax_wr_fd (axican_test t)"
    using assms(2) by (simp_all add: same_blocks_def)
  have lu: "length (axican_test u) = 32" using arg_cong[OF m(1), of length] l by simp
  have fd: "ax_rd_fd (axican_test u ! i) = ax_rd_fd (axican_test t ! i)" "ax_wr_fd (axican_test u ! i) = ax_wr_fd (axican_test t ! i)"
    if "i < 6" for i
    using m[THEN arg_cong[of _ _ "\<lambda>xs. xs ! i"]] that l lu by simp_all
  have "device_closings u [0..<6] = device_closings t [0..<6]"
    unfolding device_closings_def using fd by (intro arg_cong[of _ _ concat] map_cong) auto
  moreover define u1 where "u1 = u\<lparr>sys_trace := sys_trace u @ device_closings u [0..<6]\<rparr>"
  moreover have "main_stop (replicate 6 [False, False, False]) (u, h2) = (0, destroy_all_ring_buffers (u1, h2))"
    unfolding main_stop_def u1_def by (subst stop_devices_none) auto
  moreover obtain v h3 where "destroy_all_ring_buffers (u1, h2) = (v, h3)" by fastforce
  ultimately show ?thesis using destroy_all_balanced[OF b, of "sys_trace u1"] destroy_all_trace[of u1 h2] by simp
qed

end
