(* ===== verification/Server_Inv.thy ===== *)
theory Server_Inv
  imports Connections Main_Run
begin

text \<open>
  What every thread of the program keeps (\<^verbatim>\<open>src/main18.c\<close>): the invariant of the whole server, relative to the state \<open>t\<close> in which the
  start of the program left it, and the lemmas that each turn of each thread preserves it.

  The invariant joins those of the components: the scheduler and the channel tables (\<open>ctrl_ok\<close>), the shape, element size and
  capacity of all six queues, the packet buffers of the sending threads and the descriptors of the devices.
  \<open>footprint\<close> is the part of the state that it reads; a function that leaves the footprint alone keeps it.  What the commands
  of a client do to the state is stated once, for every relation that composes (locale \<open>command_relation\<close>).
\<close>

section \<open>A queue keeps its shape\<close>

definition set_kept :: "RingBuffer32ChSet \<Rightarrow> RingBuffer32ChSet \<Rightarrow> bool" where
  "set_kept q q' \<longleftrightarrow> set_full q' \<and> elem_size q' = elem_size q \<and> max_channel q' = max_channel q \<and>
     (channels q' = None \<longleftrightarrow> channels q = None) \<and> (\<forall>ch. ch_capacity q' ch = ch_capacity q ch)"

lemma set_kept_refl: "set_full q \<Longrightarrow> set_kept q q"
  by (simp add: set_kept_def)

lemma set_kept_trans: "set_kept q q1 \<Longrightarrow> set_kept q1 q2 \<Longrightarrow> set_kept q q2"
  by (simp add: set_kept_def)

lemma set_kept_full: "set_kept q q' \<Longrightarrow> set_full q'" "set_kept q q' \<Longrightarrow> set_inv q'"
  by (simp_all add: set_kept_def set_full_def)

lemma set_kept_elem: "set_kept q q' \<Longrightarrow> elem_size q' = elem_size q"
  by (simp add: set_kept_def)

lemma set_kept_blocks: "set_kept q q' \<Longrightarrow> set_blocks q' = set_blocks q"
  by (auto simp: set_kept_def set_blocks_def split: option.splits)

lemma store_kept:
  assumes "set_full q" "set_inv (store_channel q ch (Some r))" "\<And>c. ch_capacity (store_channel q ch (Some r)) c = ch_capacity q c"
  shows "set_kept q (store_channel q ch (Some r))"
proof -
  have "c \<noteq> None" if c: "channels (store_channel q ch (Some r)) = Some chs" "c \<in> set chs" for chs c
  proof -
    obtain chs0 where "channels q = Some chs0" "chs = chs0[unat ch := Some r]"
      by (cases "channels q") (use c(1) in \<open>auto simp: store_channel_def\<close>)
    then show ?thesis
      using c(2) assms(1) set_update_subset_insert[of chs0 "unat ch" "Some r"] by (auto simp: set_full_def)
  qed
  then have "set_full (store_channel q ch (Some r))" using assms(2) by (simp add: set_full_def)
  moreover have "(channels (store_channel q ch (Some r)) = None) = (channels q = None)" by (simp add: store_channel_def)
  ultimately show ?thesis using assms(3) by (simp add: set_kept_def)
qed

lemma put_kept:
  assumes "set_full q" "unat (elem_size q) \<le> length x" "ringbuffer_32ch_put (Some q) ch (Some x) limit = (r, q')"
  shows "set_kept q (the q')"
proof -
  have i: "set_inv q" using assms(1) by (simp add: set_full_def)
  show ?thesis
  proof (cases "ch_ok q ch limit \<and> length (ch_contents q ch) < ch_capacity q ch")
    case False
    then show ?thesis
      using assms(1,3) by (auto simp: ch32_put_cases[OF i] set_kept_refl split: if_splits)
  next
    case True
    let ?x = "take (unat (elem_size q)) x"
    obtain rb where rb: "channel_of q ch = Some rb" using ch_ok_ring[OF i] True by metis
    have l: "length ?x = unat (elem_size q)" using assms(2) by simp
    have "q' = Some (set_push q ch x)" using assms(3) True by (simp add: ch32_put_cases[OF i])
    then have e: "the q' = set_push q ch ?x" using True set_push_take[OF i, of ch limit x] by simp
    note p = set_push_laws(1,3)[OF i _ _ l, of ch limit]
    show ?thesis
      using p True unfolding e by (simp add: set_push_def rb store_kept[OF assms(1)])
  qed
qed

lemma get_kept:
  assumes "set_full q" "length d = unat (elem_size q)" "ringbuffer_32ch_get (Some q) ch (Some d) limit = (r, q', out)"
  shows "set_kept q (the q')"
proof -
  have i: "set_inv q" using assms(1) by (simp add: set_full_def)
  show ?thesis
  proof (cases "ch_ok q ch limit \<and> ch_contents q ch \<noteq> []")
    case False
    then show ?thesis
      using assms(1,3) by (auto simp: ch32_get_cases[OF i assms(2)] set_kept_refl split: if_splits)
  next
    case True
    obtain rb where rb: "channel_of q ch = Some rb" using ch_ok_ring[OF i] True by metis
    have "q' = Some (set_pop q ch)" using assms(3) True by (simp add: ch32_get_cases[OF i assms(2)])
    then have e: "the q' = set_pop q ch" by simp
    note p = set_pop_laws(1,3)[OF i, of ch limit]
    show ?thesis
      using p True unfolding e by (simp add: set_pop_def rb store_kept[OF assms(1)])
  qed
qed

lemma reset_kept:
  assumes "set_full q" "ringbuffer_32ch_reset (Some q) ch limit = Some q'"
  shows "set_kept q q'"
proof -
  have i: "set_inv q" using assms(1) by (simp add: set_full_def)
  note l = ch32_reset_laws[OF i assms(2)]
  show ?thesis
  proof (cases "ch_ok q ch limit")
    case True
    then obtain rb where rb: "channel_of q ch = Some rb" using ch_ok_ring[OF i] by metis
    then have e: "q' = store_channel q ch (Some (rb\<lparr>rb_in := 0, rb_out := 0\<rparr>))"
      using assms(2) True by (simp add: ringbuffer_32ch_reset_def ch_ok_def ringbuffer_reset_def)
    show ?thesis using l unfolding e by (intro store_kept[OF assms(1)]) simp_all
  next
    case False
    then show ?thesis using assms by (simp add: ringbuffer_32ch_reset_def ch_ok_def set_kept_refl)
  qed
qed

section \<open>The invariant\<close>

definition rest :: "server \<Rightarrow> RingBuffer32ChSet list \<times> int list \<times> int list \<times> PacketBuffer list" where
  "rest s = ([g_data_buf_set s, g_simulator_buf_set s, g_pulse_buf_set s, g_can_buf_set s, g_poll_buf_set s],
     map ax_rd_fd (axican_test s), map ax_wr_fd (axican_test s), packet_buffers s)"

text \<open>What the scheduler owns or reads.\<close>

definition sched where
  "sched s = (g_bcast_group_buf_set s, g_bcast_wake_pending s, can_configs s, g_bcast_cfg s, g_bcast_group_id s,
     g_bcast_rx_gate_open s, g_bcast_rx_gate_until_ms s)"

definition footprint where
  "footprint s = (rest s, sched s, length (channel_frame_count s))"

definition server_ok :: "server \<Rightarrow> server \<Rightarrow> bool" where
  "server_ok t s \<longleftrightarrow> dl_ok s \<and> rx_ok s \<and> elem_size (g_poll_buf_set s) = 24 \<and>
     list_all2 set_kept (all_sets t) (all_sets s) \<and>
     map ax_rd_fd (axican_test s) = map ax_rd_fd (axican_test t) \<and> map ax_wr_fd (axican_test s) = map ax_wr_fd (axican_test t) \<and>
     length (axican_test s) = 32 \<and> length (packet_buffers s) = AXICAN_MAX \<and> (\<forall>b \<in> set (packet_buffers s). pb_ok b)"

lemma map_fd_length: "map f xs = map f ys \<Longrightarrow> length xs = length ys"
  by (rule map_eq_imp_length_eq)

lemma footprint_ctrl:
  assumes "footprint s' = footprint s"
  shows "ctrl_ok s' = ctrl_ok s"
  using assms by (simp add: footprint_def sched_def ctrl_ok_def bcast_inv_def bcast_queue_def)

lemma rest_fields:
  assumes "rest s' = rest s"
  shows "g_data_buf_set s' = g_data_buf_set s" "g_simulator_buf_set s' = g_simulator_buf_set s"
    "g_pulse_buf_set s' = g_pulse_buf_set s" "g_can_buf_set s' = g_can_buf_set s" "g_poll_buf_set s' = g_poll_buf_set s"
    "map ax_rd_fd (axican_test s') = map ax_rd_fd (axican_test s)" "map ax_wr_fd (axican_test s') = map ax_wr_fd (axican_test s)"
    "packet_buffers s' = packet_buffers s" "length (axican_test s') = length (axican_test s)"
  using assms by (auto simp: rest_def intro: map_fd_length)

text \<open>The scheduler and the tables may change as long as they stay well formed; the other parts are as before.\<close>

lemma server_ok_ctrl:
  assumes "server_ok t s" "ctrl_ok s'" "rest s' = rest s" "set_kept (g_bcast_group_buf_set s) (g_bcast_group_buf_set s')"
  shows "server_ok t s'"
proof -
  have "set_kept (g_bcast_group_buf_set t) (g_bcast_group_buf_set s')"
    using assms(1,4) set_kept_trans by (auto simp: server_ok_def all_sets_def)
  then show ?thesis
    using assms(1,2) rest_fields[OF assms(3)] by (simp add: server_ok_def dl_ok_def rx_ok_def all_sets_def)
qed

lemma server_ok_sets:
  assumes "server_ok t s"
  shows "set_full (g_data_buf_set s)" "set_full (g_simulator_buf_set s)" "set_full (g_pulse_buf_set s)"
    "set_full (g_can_buf_set s)" "set_full (g_poll_buf_set s)" "set_full (g_bcast_group_buf_set s)"
    "elem_size (g_data_buf_set s) = 48" "elem_size (g_simulator_buf_set s) = 288" "elem_size (g_pulse_buf_set s) = 9"
    "elem_size (g_can_buf_set s) = 24" "elem_size (g_poll_buf_set s) = 24" "elem_size (g_bcast_group_buf_set s) = 3080"
    "ctrl_ok s" "bcast_inv s"
  using assms by (auto simp: server_ok_def all_sets_def dl_ok_def rx_ok_def ctrl_ok_def bcast_inv_def dest: set_kept_full)

lemma server_ok_footprint: "server_ok t s \<Longrightarrow> footprint s' = footprint s \<Longrightarrow> server_ok t s'"
  using footprint_ctrl[of s' s] server_ok_sets(6,13)
  by (intro server_ok_ctrl[of t s s']) (auto simp: footprint_def sched_def intro: set_kept_refl)

text \<open>One of the other queues is replaced.\<close>

lemma ctrl_ok_queues [simp]:
  "ctrl_ok (s\<lparr>g_data_buf_set := q\<rparr>) = ctrl_ok s" "ctrl_ok (s\<lparr>g_simulator_buf_set := q\<rparr>) = ctrl_ok s"
  "ctrl_ok (s\<lparr>g_pulse_buf_set := q\<rparr>) = ctrl_ok s" "ctrl_ok (s\<lparr>g_can_buf_set := q\<rparr>) = ctrl_ok s"
  "ctrl_ok (s\<lparr>g_poll_buf_set := q\<rparr>) = ctrl_ok s" "ctrl_ok (s\<lparr>packet_buffers := bs\<rparr>) = ctrl_ok s"
  "ctrl_ok (s\<lparr>axican_test := as\<rparr>) = ctrl_ok s"
  by (simp_all add: ctrl_ok_def bcast_inv_def bcast_queue_def)

lemma server_ok_queue:
  assumes "server_ok t s"
  shows "set_kept (g_data_buf_set s) q \<Longrightarrow> server_ok t (s\<lparr>g_data_buf_set := q\<rparr>)"
    and "set_kept (g_simulator_buf_set s) q \<Longrightarrow> server_ok t (s\<lparr>g_simulator_buf_set := q\<rparr>)"
    and "set_kept (g_pulse_buf_set s) q \<Longrightarrow> server_ok t (s\<lparr>g_pulse_buf_set := q\<rparr>)"
    and "set_kept (g_can_buf_set s) q \<Longrightarrow> server_ok t (s\<lparr>g_can_buf_set := q\<rparr>)"
    and "set_kept (g_poll_buf_set s) q \<Longrightarrow> server_ok t (s\<lparr>g_poll_buf_set := q\<rparr>)"
  using assms set_kept_full(2) set_kept_elem unfolding server_ok_def dl_ok_def rx_ok_def all_sets_def
  by (simp_all; metis set_kept_trans)+

lemma server_ok_packet:
  assumes "server_ok t s" "pb_ok b"
  shows "server_ok t (s\<lparr>packet_buffers := (packet_buffers s)[i := b]\<rparr>)"
  using assms set_update_subset_insert[of "packet_buffers s" i b]
  by (auto simp: server_ok_def dl_ok_def rx_ok_def all_sets_def)

section \<open>Functions that leave the footprint alone\<close>

lemma fd_update: "f y = f (xs ! i) \<Longrightarrow> map f (xs[i := y]) = map f xs"
  by (metis list_update_beyond list_update_id map_update nth_map not_less)

lemma footprint_senders [simp]:
  "footprint (send_event os l e m s) = footprint s"
  "footprint (upload_send os bytes s) = footprint s"
  "footprint (send_start_stop_response os st s) = footprint s"
  "footprint (send_can_config_response os ch w s) = footprint s"
  "footprint (send_version_query_response os c v s) = footprint s"
  "footprint (send_broadcast_config_response os st s) = footprint s"
  "footprint (snd (sys_send os sock bytes s)) = footprint s"
  "footprint (snd (sys_ioctl os x s)) = footprint s"
  "footprint (snd (sys_write os fd bytes s)) = footprint s"
  "footprint (snd (sys_clock os s)) = footprint s"
  "footprint (sys_shutdown sock s) = footprint s"
  "footprint (tick s) = footprint s"
  by (simp_all add: footprint_def rest_def sched_def sys_send_def sys_ioctl_def sys_write_def sys_clock_def sys_shutdown_def tick_def)

lemma footprint_free [simp]:
  "footprint (s\<lparr>sys_calls := n\<rparr>) = footprint s" "footprint (s\<lparr>sys_trace := tr\<rparr>) = footprint s"
  "footprint (s\<lparr>data_counter := c\<rparr>) = footprint s" "footprint (s\<lparr>event_socket := i\<rparr>) = footprint s"
  "footprint (s\<lparr>data_upload_socket := i\<rparr>) = footprint s" "footprint (s\<lparr>data_download_socket := i\<rparr>) = footprint s"
  "footprint (s\<lparr>can_data_type := ty\<rparr>) = footprint s"
  by (simp_all add: footprint_def rest_def sched_def)

lemma footprint_bump [simp]: "footprint (snd (bump_channel_count ch s)) = footprint s"
  by (simp add: footprint_def rest_def sched_def bump_channel_count_def Let_def)

lemma footprint_transmit [simp]: "footprint (send_can_transmit_response os ch ty st f s) = footprint s"
  by (simp add: footprint_def rest_def sched_def)
    (simp add: send_can_transmit_response_def bump_channel_count_def send_defs split: option.split)

lemma footprint_frames [simp]: "footprint (snd (write_frames os fd fs s)) = footprint s"
proof (induction fs arbitrary: s)
  case (Cons f fs)
  obtain rc s1 where w: "sys_write os fd (axican_frame_bytes f) s = (rc, s1)" by fastforce
  then have "footprint s1 = footprint s" using footprint_senders(9)[of os fd "axican_frame_bytes f" s] by simp
  then show ?case using Cons by (simp add: w)
qed simp

lemma footprint_group [simp]: "footprint (snd (send_broadcast_group_for_channel os ch g s)) = footprint s"
  by (simp add: send_broadcast_group_for_channel_def split: option.split)

lemma footprint_single [simp]: "footprint (send_single_frame os ch p s) = footprint s"
proof -
  obtain c s1 where c: "sys_clock os s = (c, s1)" by fastforce
  have s1: "footprint s1 = footprint s" using footprint_senders(10)[of os s] c by simp
  have u: "footprint (s1\<lparr>axican_test := (axican_test s1)[unat ch := (axican_test s1 ! unat ch)\<lparr>ax_w_count := n\<rparr>]\<rparr>) = footprint s1" for n
    by (simp add: footprint_def rest_def sched_def fd_update)
  show ?thesis using s1 u by (simp add: send_single_frame_def c Let_def sys_write_def)
qed

lemma footprint_singles [simp]: "footprint (fold (send_single_frame os ch) fs s) = footprint s"
  by (induction fs arbitrary: s) simp_all

lemma footprint_respond [simp]: "footprint (respond_frames os fd data i n s) = footprint s"
proof (induction n arbitrary: i s)
  case (Suc n)
  obtain c s1 where c: "sys_clock os s = (c, s1)" by fastforce
  have "footprint s1 = footprint s" using footprint_senders(10)[of os s] c by simp
  then show ?case using Suc by (simp add: c Let_def sys_write_def)
qed simp

lemma footprint_simulator [simp]:
  "footprint (snd (process_and_send_response os fd f s)) = footprint s" "footprint (report_command os ch g s) = footprint s"
  "footprint (fold (report_command os ch) gs s) = footprint s"
proof -
  show "footprint (snd (process_and_send_response os fd f s)) = footprint s"
    by (simp add: process_and_send_response_def split: option.split)
  show r: "footprint (report_command os ch g s) = footprint s" for g s by (simp add: report_command_def)
  show "footprint (fold (report_command os ch) gs s) = footprint s" by (induction gs arbitrary: s) (simp_all add: r)
qed

lemma footprint_normal [simp]:
  "footprint (handle_normal_mode os ch f s) = footprint s" "footprint (fold (handle_normal_mode os ch) fs s) = footprint s"
proof -
  show n: "footprint (handle_normal_mode os ch f s) = footprint s" for f s
  proof -
    let ?s1 = "s\<lparr>data_counter := ucast (next_total_count (data_counter s))\<rparr>"
    obtain n s2 where b: "bump_channel_count ch ?s1 = (n, s2)" by fastforce
    then have "footprint s2 = footprint s" using footprint_bump[of ch ?s1] by simp
    then show ?thesis by (simp add: handle_normal_mode_def b Let_def)
  qed
  show "footprint (fold (handle_normal_mode os ch) fs s) = footprint s" by (induction fs arbitrary: s) (simp_all add: n)
qed

lemma footprint_reports [simp]:
  "footprint (fold (\<lambda>f s. send_can_transmit_response os ch (can_data_type s) 1 f s) fs s) = footprint s"
  by (induction fs arbitrary: s) simp_all

lemma footprint_connections [simp]:
  "footprint (upload_connect sock s) = footprint s" "footprint (upload_disconnect sock s) = footprint s"
  "footprint (event_connect sock s) = footprint s" "footprint (event_disconnect sock s) = footprint s"
  "footprint (download_connect sock s) = footprint s" "footprint (download_disconnect sock s) = footprint s"
  by (simp_all add: upload_connect_def upload_disconnect_def event_connect_def event_disconnect_def download_connect_def
      download_disconnect_def Let_def)

lemma footprint_report_round [simp]: "footprint (buffer_report_round os s) = footprint s"
  unfolding buffer_report_round_def Let_def sys_send_def sys_shutdown_def by simp

lemma footprint_info_entries: "footprint (snd (info_entries os is s)) = footprint s"
proof (induction "is" arbitrary: s)
  case (Cons i "is")
  have "footprint (snd (info_entry os i s)) = footprint s"
    by (simp add: footprint_def rest_def sched_def info_entry_def bump_channel_count_def clock_ts_def sys_clock_def Let_def split: option.split)
  then show ?case using Cons by (simp add: split_beta)
qed simp

lemma footprint_info:
  "footprint (send_can_info_response os ds s) = footprint s" "footprint (snd (info_entries os is s)) = footprint s"
  using footprint_info_entries by (simp_all add: footprint_def rest_def sched_def send_can_info_response_def Let_def)

section \<open>Commands\<close>

text \<open>
  A relation between the states before and after that ignores everything outside the footprint, admits changes of the channel table
  and the configuration of the scheduler, and composes, holds across everything that a command client sends.
\<close>

locale command_relation =
  fixes os :: os and R :: "server \<Rightarrow> server \<Rightarrow> bool"
  assumes R_trans: "R s s1 \<Longrightarrow> R s1 s2 \<Longrightarrow> R s s2"
    and R_footprint: "footprint s' = footprint s \<Longrightarrow> R s s'"
    and R_update: "R s (update_config ch f s)"
    and R_broadcast: "R s (handle_broadcast_config os req s)"
begin

lemma R_ioctl: "R s (snd (sys_ioctl os e s))" and R_event: "R s (send_error os m s)"
  by (rule R_footprint, simp)+

lemma R_baud: "R s (snd (config_baud os strict fd p s))"
proof -
  obtain rc s1 where e: "sys_ioctl os (SetBaud fd (cp_baud_rate p)) s = (rc, s1)" by fastforce
  let ?s2 = "if rc \<noteq> 0 then send_error os ''CAN set baud rate failed'' s1 else s1"
  have "R s s1" using R_ioctl[of s "SetBaud fd (cp_baud_rate p)"] e by simp
  then have "R s ?s2" using R_trans R_event by simp
  then show ?thesis
    using R_trans[OF _ R_update] R_event by (simp add: config_baud_def axican_set_baud_def e Let_def split: if_splits)
qed

lemma R_mode: "R s (snd (config_mode os strict fd p s))"
proof -
  obtain rc s1 where e: "sys_ioctl os (SetMode fd (ucast (cp_mode p))) s = (rc, s1)" by fastforce
  let ?s2 = "if rc \<noteq> 0 then send_error os ''CAN set mode failed'' s1 else s1"
  have "R s s1" using R_ioctl[of s "SetMode fd (ucast (cp_mode p))"] e by simp
  then have "R s ?s2" using R_trans R_event by simp
  then show ?thesis using R_trans[OF _ R_event] R_event by (simp add: config_mode_def axican_set_mode_def e Let_def)
qed

lemma R_device: "R s (config_device os strict p s)"
proof -
  let ?fd = "ax_rd_fd (axican_test s ! unat (cp_ch_id p))"
  obtain b s1 m s2 where e: "config_baud os strict ?fd p s = (b, s1)" "config_mode os strict ?fd p s1 = (m, s2)" by fastforce
  have "R s s2" using R_baud[of s strict ?fd p] R_mode[of s1 strict ?fd p] e R_trans by simp
  moreover have "R s2 (send_can_config_response os ch w s2)" for ch w by (rule R_footprint) simp
  ultimately show ?thesis using R_trans by (auto simp: config_device_def e)
qed

lemma R_config: "R s (handle_can_config os req s)"
  using R_event R_trans[OF R_update R_device] R_trans[OF R_update R_event] by (simp add: handle_can_config_def Let_def)

lemma R_info: "R s (handle_can_info_query os sock req s)"
  by (rule R_footprint) (simp add: handle_can_info_query_def footprint_info split_beta)

lemma R_queries: "R s (handle_can_buf_query os req s)" "R s (handle_version_query os r s)"
  by (rule R_footprint; simp add: handle_can_buf_query_def handle_version_query_def Let_def split: option.split)+

lemma R_start_stop: "R s (handle_can_start_stop os req s)"
proof -
  have r: "R u (send_start_stop_response os st u)" for u st by (rule R_footprint) simp
  show ?thesis using R_trans[OF R_update r] R_trans[OF R_event r] by (simp add: handle_can_start_stop_def Let_def)
qed

lemma R_dispatch: "R s (dispatch_command os sock req s)"
proof -
  have "R s s" by (rule R_footprint) simp
  then show ?thesis
    using R_event R_config R_info R_queries R_start_stop R_broadcast by (simp add: dispatch_command_def Let_def)
qed

lemma R_drain: "R s (snd (command_drain os sock b s))"
proof (induction "length b" arbitrary: b s rule: less_induct)
  case less
  show ?case
  proof (cases "command_verdict b")
    case Need
    then show ?thesis by (simp add: cmd.drain_need R_footprint)
  next
    case Skip
    then show ?thesis using less[of "drop 1 b"] cmd.skip_law[OF Skip] by (simp add: cmd.drain_skip)
  next
    case (Packet n)
    then have "length (drop n b) < length b" using cmd.packet_law[OF Packet] by auto
    note ih = less[OF this]
    show ?thesis using R_trans[OF R_dispatch ih] by (simp add: cmd.drain_packet[OF Packet] command_handle_def)
  qed
qed

lemma R_client:
  assumes "command_client os k [r] (b, s) = (waits, b', s')"
  shows "R s s'"
proof -
  note c = assms[unfolded command_client.simps[of os k "[r]" b s]]
  have closed: "R s (u\<lparr>sys_trace := tr\<rparr>)" if "R s u" for u tr by (rule R_trans[OF that R_footprint]) simp
  have nil: "command_client os k [] (b1, s1) = (waits, b', s') \<Longrightarrow> R s s1 \<Longrightarrow> R s s'" for b1 s1
    by (subst (asm) command_client.simps) (auto simp: closed split: if_splits)
  have same: "R s s" by (rule R_footprint) simp
  obtain b1 s1 where d: "command_drain os k (b @ (case r of Received x \<Rightarrow> x | _ \<Rightarrow> [])) s = (b1, s1)" by fastforce
  then have "R s s1" using R_drain by (metis snd_conv)
  then show ?thesis using c same R_event nil d by (auto simp: closed Let_def split: if_splits recv_result.splits)
qed

end

text \<open>A command changes tables and scheduler, and of the queues at most those of the groups.\<close>

definition tame :: "server \<Rightarrow> server \<Rightarrow> bool" where
  "tame s s' \<longleftrightarrow> rest s' = rest s \<and>
     (set_full (g_bcast_group_buf_set s) \<longrightarrow> set_kept (g_bcast_group_buf_set s) (g_bcast_group_buf_set s'))"

lemma tame_same: "rest s' = rest s \<Longrightarrow> g_bcast_group_buf_set s' = g_bcast_group_buf_set s \<Longrightarrow> tame s s'"
  by (simp add: tame_def set_kept_refl)

lemma tame_footprint: "footprint s' = footprint s \<Longrightarrow> tame s s'"
  by (rule tame_same) (simp_all add: footprint_def sched_def)

lemma tame_trans: "tame s s1 \<Longrightarrow> tame s1 s2 \<Longrightarrow> tame s s2"
  unfolding tame_def using set_kept_full(1) set_kept_trans by metis

lemma tame_reset_channel: "tame s (reset_broadcast_channel c s)"
proof -
  obtain q where q: "ringbuffer_32ch_reset (Some (g_bcast_group_buf_set s)) (of_nat c) 6 = Some q"
    by (cases "ringbuffer_32ch_reset (Some (g_bcast_group_buf_set s)) (of_nat c) 6")
      (auto simp: ringbuffer_32ch_reset_def split: if_splits)
  then show ?thesis by (simp add: tame_def reset_broadcast_channel_def rest_def reset_kept[OF _ q])
qed

lemma tame_broadcast: "tame s (handle_broadcast_config os req s)"
proof -
  have f: "tame u (fold reset_broadcast_channel cs u)" for cs u
  proof (induction cs arbitrary: u)
    case Nil
    then show ?case by (simp add: tame_footprint)
  next
    case (Cons c cs)
    then show ?case using tame_trans[OF tame_reset_channel[of u c] Cons.IH[of "reset_broadcast_channel c u"]] by simp
  qed
  have b: "tame u (bcast_reject os m u)" for m u by (rule tame_footprint) (simp add: bcast_reject_def)
  have r: "tame u (send_broadcast_config_response os 0 (reset_broadcast_buffers u))" for u
    by (rule tame_trans[OF f[of u "[0..<6]"] tame_same]) (simp_all add: reset_broadcast_buffers_def rest_def)
  have c: "tame u (u\<lparr>g_bcast_cfg := cfg\<rparr>)" for u cfg by (rule tame_same) (simp_all add: rest_def)
  show ?thesis using b tame_trans[OF c r] by (simp add: handle_broadcast_config_def Let_def split: option.split)
qed

interpretation tame_commands: command_relation os tame for os
  by unfold_locales (simp_all add: tame_footprint tame_broadcast tame_same update_config_def rest_def, rule tame_trans)

lemma server_ok_tame: "server_ok t s \<Longrightarrow> ctrl_ok s' \<Longrightarrow> tame s s' \<Longrightarrow> server_ok t s'"
  using server_ok_ctrl server_ok_sets(6) unfolding tame_def by metis

lemma command_drain_server_ok: "server_ok t s \<Longrightarrow> server_ok t (snd (command_drain os sock b s))"
  by (rule server_ok_tame[OF _ ctrl_keepsD(1)[OF command_drain_keeps server_ok_sets(13)] tame_commands.R_drain])

section \<open>Downloaded payloads\<close>

lemma put_queue_server_ok:
  assumes "server_ok t s" "\<And>q. set_kept (sel s) q \<Longrightarrow> server_ok t (upd q s)" "set_full (sel s)" "unat (elem_size (sel s)) \<le> length x"
  shows "server_ok t (put_into os sel upd ch x s)"
proof -
  obtain r q' where p: "ringbuffer_32ch_put (Some (sel s)) ch (Some x) 32 = (r, q')" by fastforce
  have "server_ok t (send_error os m s)" for m by (rule server_ok_footprint[OF assms(1)]) simp
  then show ?thesis using assms(2) put_kept[OF assms(3,4) p] by (simp add: put_into_def p)
qed

lemma enqueue_normal_server_ok:
  assumes "server_ok t s" "length b = 48"
  shows "server_ok t (snd (enqueue_normal_can_payload os b s))"
proof -
  obtain r q' where p: "ringbuffer_32ch_put (Some (g_data_buf_set s)) (pd_ch_id (pc_arm_data_of b)) (Some b) 32 = (r, q')"
    by fastforce
  have "server_ok t (send_error os m s)" for m by (rule server_ok_footprint[OF assms(1)]) simp
  moreover have "set_kept (g_data_buf_set s) (the q')"
    using server_ok_sets(1,7)[OF assms(1)] assms(2) by (intro put_kept[OF _ _ p]) simp_all
  ultimately show ?thesis
    using assms(1) server_ok_queue(1)[OF assms(1)] by (simp add: enqueue_normal_can_payload_def Let_def p)
qed

lemma gate_rest:
  "is_broadcast_pps_window_open os ch s = (b, s1) \<Longrightarrow> rest s1 = rest s \<and> g_bcast_group_buf_set s1 = g_bcast_group_buf_set s"
  by (auto simp: is_broadcast_pps_window_open_def is_broadcast_rx_gate_open_def rest_def split: if_splits prod.splits
      dest!: monotonic_ms_frame)

lemma tame_enqueue:
  assumes "elem_size (g_bcast_group_buf_set s) = 3080"
  shows "tame s (snd (enqueue_broadcast_group os ch frames s))"
proof -
  obtain b s1 where g: "is_broadcast_pps_window_open os ch s = (b, s1)" by fastforce
  note f = gate_rest[OF g]
  have e: "tame s (send_error os m s)" "tame s s" for m by (rule tame_footprint, simp)+
  have s1: "tame s s1" using f by (intro tame_same) simp_all
  obtain gid s2 where n: "next_broadcast_group_id s1 = (gid, s2)" by fastforce
  then have s2: "s2 = s1\<lparr>g_bcast_group_id := gid\<rparr>" using next_group_id_nonzero by blast
  let ?q = "g_bcast_group_buf_set s1"
  have q: "?q = g_bcast_group_buf_set s" using f by simp
  show ?thesis
  proof (cases "frames \<noteq> [] \<and> length frames \<le> 128")
    case True
    let ?x = "bcast_group_bytes (broadcast_group gid frames)"
    obtain r q' where p: "ringbuffer_32ch_put (Some ?q) ch (Some ?x) 6 = (r, q')" by fastforce
    have "length ?x = 3080" using True by (simp add: broadcast_group_def)
    then have "tame s1 (s1\<lparr>g_bcast_group_id := gid, g_bcast_group_buf_set := the q'\<rparr>)"
      using put_kept[OF _ _ p] assms q by (simp add: tame_def rest_def)
    then have "tame s (s1\<lparr>g_bcast_group_id := gid, g_bcast_group_buf_set := the q'\<rparr>)" by (rule tame_trans[OF s1])
    then show ?thesis using e s1 p by (simp add: enqueue_broadcast_group_def g n s2 Let_def split: bool.split)
  next
    case False
    then show ?thesis using e by (auto simp: enqueue_broadcast_group_def)
  qed
qed

lemma enqueue_broadcast_server_ok:
  assumes "server_ok t s"
  shows "server_ok t (snd (enqueue_broadcast_group os ch frames s))"
proof -
  have "dl_ok s" using assms by (simp add: server_ok_def)
  then have "ctrl_ok (snd (enqueue_broadcast_group os ch frames s))" using enqueue_bcast_ok by (simp add: dl_ok_def)
  from server_ok_tame[OF assms this tame_enqueue[OF server_ok_sets(12)[OF assms]]] show ?thesis .
qed

lemma queue_payload_server_ok:
  assumes "server_ok t s" "classify_payload command x s = Some (ty, ch)"
  shows "server_ok t (queue_payload os ty ch x s)"
proof -
  note f = server_ok_sets[OF assms(1)] and q = server_ok_queue[OF assms(1)]
  show ?thesis
    using assms classify_length[of command x s ch] f
    by (cases ty) (auto simp: queue_payload_def intro!: put_queue_server_ok[OF assms(1)] q)
qed

text \<open>The same for the download clients: what holds across the operations on the queues holds across everything they send.\<close>

locale download_relation =
  fixes os :: os and R :: "server \<Rightarrow> server \<Rightarrow> bool"
  assumes R_refl: "R s s" and R_trans: "R s s1 \<Longrightarrow> R s1 s2 \<Longrightarrow> R s s2"
    and R_normal: "length p = 48 \<Longrightarrow> R s (snd (enqueue_normal_can_payload os p s))"
    and R_group: "R s (snd (enqueue_broadcast_group os ch frames s))"
    and R_queue: "classify_payload command x s = Some (ty, ch) \<Longrightarrow> R s (queue_payload os ty ch x s)"
begin

lemma R_packet: "R s (download_packet os req s)"
proof -
  have "length (payload_frame b 0) = 48" if "length b div 48 = 1" for b
  proof -
    have "48 \<le> length b" using that by (metis div_less not_less zero_neq_one)
    then show ?thesis by (simp add: payload_frame_def)
  qed
  then have "R s (snd (process_9012_can_payload_frames os p ch s))" for p ch
    using R_refl R_normal R_group by (simp add: process_9012_can_payload_frames_def Let_def split: option.split del: One_nat_def)
  then show ?thesis using R_refl R_queue by (simp add: download_packet_def Let_def split: option.split)
qed

lemma R_drain: "R s (snd (download_drain os b s))"
proof (induction "length b" arbitrary: b s rule: less_induct)
  case less
  show ?case
  proof (cases "download_verdict b")
    case Need
    then show ?thesis by (simp add: dl.drain_need R_refl)
  next
    case Skip
    then show ?thesis using less[of "drop 1 b"] dl.skip_law[OF Skip] by (simp add: dl.drain_skip)
  next
    case (Packet n)
    then have "length (drop n b) < length b" using dl.packet_law[OF Packet] by auto
    from R_trans[OF R_packet less[OF this]] show ?thesis by (simp add: dl.drain_packet[OF Packet] download_handle_def)
  qed
qed

lemma R_step:
  assumes "download_client_step os k r (b, s) = (exit, b', s')"
  shows "R s s'"
proof -
  have "R s (snd (process_download_data_batch os x s))" for x
    using R_drain[of s x] R_refl batch_eq_drain[of x os s]
    by (cases "length x \<le> DOWNLOAD_MAX") (simp_all add: process_download_data_batch_def[of os x s])
  then have "R s u" if "process_download_data_batch os x s = (y, u)" for x y u using that by (metis snd_conv)
  then show ?thesis using R_refl assms by (auto simp: download_client_step_def split: if_splits recv_result.splits)
qed

end

interpretation ok_downloads: download_relation os "\<lambda>s s'. server_ok t s \<longrightarrow> server_ok t s'" for os t
  by unfold_locales (simp_all add: enqueue_normal_server_ok enqueue_broadcast_server_ok queue_payload_server_ok)

end
