(* ===== verification/Server_Turns.thy ===== *)
theory Server_Turns
  imports Server_Inv
begin

text \<open>
  One turn of every thread of \<^verbatim>\<open>src/main18.c\<close> keeps the invariant of the whole server (\<open>server_ok\<close>): the threads of the scheduler,
  the sending, receiving, monitoring and reporting threads, and the device simulator.
\<close>

section \<open>The scheduler\<close>

lemma pulse_same:
  "rest (process_broadcast_pps os s) = rest s \<and> g_bcast_group_buf_set (process_broadcast_pps os s) = g_bcast_group_buf_set s \<and>
   channel_frame_count (process_broadcast_pps os s) = channel_frame_count s"
  by (simp add: process_broadcast_pps_def gate_set_frame select_broadcast_mask_on_pps_def notify_broadcast_channels_def notify_fold
      rest_def split_beta)

lemma pulse_server_ok:
  assumes "server_ok t s"
  shows "server_ok t (process_broadcast_pps os s)"
proof -
  obtain m c' where m: "select_mask (g_bcast_cfg s) = (m, c')" by fastforce
  note l = pps_laws[OF server_ok_sets(14)[OF assms] refl m, where os = os]
  have "ctrl_ok (process_broadcast_pps os s)"
    using l(1,3) server_ok_sets(13)[OF assms] pulse_same[of os s] by (simp add: ctrl_ok_def)
  from server_ok_ctrl[OF assms this] show ?thesis
    using pulse_same[of os s] server_ok_sets(6)[OF assms] by (simp add: set_kept_refl)
qed

lemma pps_irq_server_ok: "server_ok t s \<Longrightarrow> server_ok t (snd (pps_irq_round os r s))"
  using pulse_server_ok[OF server_ok_footprint[of t s "s\<lparr>sys_calls := Suc (sys_calls s)\<rparr>"]]
  by (simp add: pps_irq_round_def split: pps_poll.split)

lemma broadcast_send_server_ok:
  assumes "server_ok t s"
  shows "server_ok t (broadcast_can_send_round os ch s)"
proof -
  obtain n g s1 where e: "take_broadcast_group ch s = (n, g, s1)" by (metis prod_cases3)
  note l = take_laws[OF server_ok_sets(14)[OF assms] e]
  have q: "rest s1 = rest s \<and> set_kept (g_bcast_group_buf_set s) (g_bcast_group_buf_set s1) \<and>
      channel_frame_count s1 = channel_frame_count s"
    using e get_kept[of "g_bcast_group_buf_set s" "replicate 3080 0" ch 6] server_ok_sets(6,12)[OF assms]
    by (auto simp: take_broadcast_group_def rest_def set_kept_refl Let_def split: if_splits prod.splits)
  have "ctrl_ok s1" using l q server_ok_sets(13)[OF assms] by (simp add: ctrl_ok_def)
  from server_ok_ctrl[OF assms this] q have "server_ok t s1" by simp
  then show ?thesis
    using server_ok_footprint[of t s1 "snd (send_broadcast_group_for_channel os ch g s1)"]
    by (simp add: broadcast_can_send_round_def e)
qed

section \<open>The sending threads\<close>

lemma single_server_ok: "server_ok t s \<Longrightarrow> server_ok t (send_single_frame os ch f s)"
  by (rule server_ok_footprint) simp_all

lemma packet_step_ok: "pb_ok b \<Longrightarrow> pb_ok (snd (packet_step now f b))"
  using packet_step_cases by (metis surjective_pairing)

lemma multi_server_ok:
  assumes "server_ok t s" "unat ch < AXICAN_MAX"
  shows "server_ok t (send_multi os ch f s)"
proof -
  let ?s1 = "s\<lparr>sys_calls := Suc (sys_calls s)\<rparr>"
  obtain out b where p: "packet_step (os_time os (sys_calls s)) f (packet_buffers s ! unat ch) = (out, b)" by fastforce
  have "pb_ok (packet_buffers s ! unat ch)" using assms by (simp add: server_ok_def)
  from packet_step_ok[OF this] have b: "pb_ok b" using p by (metis snd_conv)
  let ?u = "fold (send_single_frame os ch) out ?s1"
  have "server_ok t ?u" by (rule server_ok_footprint[OF assms(1)]) simp
  moreover have "packet_buffers ?u = packet_buffers s"
  proof -
    have "footprint ?u = footprint s" by simp
    then show ?thesis by (simp add: footprint_def rest_def del: footprint_singles footprint_free)
  qed
  ultimately have "server_ok t (?u\<lparr>packet_buffers := (packet_buffers s)[unat ch := b]\<rparr>)"
    using server_ok_packet[OF _ b] by metis
  then show ?thesis by (simp add: send_multi_def sys_time_def p)
qed

lemma data_send_server_ok:
  assumes "server_ok t s" "unat ch < AXICAN_MAX"
  shows "server_ok t (axican_data_send_round os ch s)"
proof (cases "tx_ready ch s")
  case True
  obtain r q buf where g: "ringbuffer_32ch_get (Some (g_data_buf_set s)) ch (Some (replicate 48 0)) 32 = (r, q, buf)"
    by (metis prod_cases3)
  let ?s1 = "s\<lparr>g_data_buf_set := the q\<rparr>"
  have s1: "server_ok t ?s1"
    using server_ok_sets(1,7)[OF assms(1)] by (intro server_ok_queue(1)[OF assms(1)] get_kept[OF _ _ g]) simp_all
  have e: "server_ok t (send_error os m ?s1)" for m by (rule server_ok_footprint[OF s1]) simp
  show ?thesis
    using s1 e single_server_ok[OF s1] multi_server_ok[OF s1 assms(2)]
    by (simp add: axican_data_send_round_def True g Let_def)
qed (use assms in \<open>simp add: axican_data_send_round_def\<close>)

section \<open>The receiving threads\<close>

lemma tick_server_ok: "server_ok t s \<Longrightarrow> server_ok t (tick s)"
  by (rule server_ok_footprint) simp_all

lemma poll_server_ok:
  "server_ok t s \<Longrightarrow> server_ok t (snd (axican_poll2 drv fd flags s))"
  "server_ok t s \<Longrightarrow> server_ok t (snd (axican_get_frame_count drv fd s))"
  by (simp_all add: axican_poll2_def axican_get_frame_count_def Let_def tick_server_ok split: prod.split)

text \<open>What every stored frame and every system call keeps, the loop over the device keeps.\<close>

lemma read_loop_keeps:
  assumes "\<And>f u. P u \<Longrightarrow> length f = 24 \<Longrightarrow> P (store f u)" "\<And>u. P u \<Longrightarrow> P (tick u)" "P s"
  shows "P (snd (read_loop drv fd flags store i n s))"
  using assms(3)
proof (induction n arbitrary: i s)
  case (Suc n)
  obtain rc f s1 where r: "axican_read drv fd flags s = (rc, f, s1)" by (metis prod_cases3)
  then have "s1 = tick s" "length f = 24" by (auto simp: axican_read_def split: prod.splits)
  then show ?case using Suc assms(1)[OF assms(2)] assms(2) by (simp add: r)
qed simp

lemma put_can_server_ok:
  assumes "server_ok t s" "length f = 24"
  shows "server_ok t (put_can ch limit f s)"
proof -
  obtain r q where p: "ringbuffer_32ch_put (Some (g_can_buf_set s)) ch (Some f) limit = (r, q)" by fastforce
  have "set_kept (g_can_buf_set s) (the q)"
    using server_ok_sets(4,10)[OF assms(1)] assms(2) by (intro put_kept[OF _ _ p]) simp_all
  then show ?thesis using server_ok_queue(4)[OF assms(1)] by (simp add: put_can_def p)
qed

lemma put_poll_server_ok:
  assumes "server_ok t s" "length f = 24"
  shows "server_ok t (put_poll ch limit f s)"
proof -
  obtain r q where p: "ringbuffer_32ch_put (Some (g_poll_buf_set s)) ch (Some f) limit = (r, q)" by fastforce
  have "set_kept (g_poll_buf_set s) (the q)"
    using server_ok_sets(5,11)[OF assms(1)] assms(2) by (intro put_kept[OF _ _ p]) simp_all
  then show ?thesis using server_ok_queue(5)[OF assms(1)] by (simp add: put_poll_def p)
qed

lemma read_data_server_ok:
  assumes "server_ok t s"
  shows "server_ok t (snd (axican_read_data drv fd flags ch limit s))"
    and "server_ok t (snd (axican_read_data_t drv fd flags ch limit s))"
proof -
  obtain n s1 where c: "axican_get_frame_count drv fd s = (n, s1)" by fastforce
  then have s1: "server_ok t s1" using poll_server_ok(2)[OF assms, of drv fd] by simp
  show "server_ok t (snd (axican_read_data drv fd flags ch limit s))"
    using assms s1 read_loop_keeps[of "server_ok t", OF put_can_server_ok tick_server_ok s1] by (simp add: axican_read_data_def c)
  show "server_ok t (snd (axican_read_data_t drv fd flags ch limit s))"
    using assms s1 read_loop_keeps[of "server_ok t", OF put_poll_server_ok tick_server_ok s1] by (simp add: axican_read_data_t_def c)
qed

lemma recv_server_ok:
  assumes "server_ok t s"
  shows "server_ok t (axican_data_recv_round drv ch s)"
proof -
  let ?i = "axican_test s ! unat ch"
  obtain rc s1 where p: "axican_poll2 drv (ax_rd_fd ?i) (ax_rd_flags ?i) s = (rc, s1)" by fastforce
  then have "server_ok t s1" using poll_server_ok(1)[OF assms, of drv "ax_rd_fd ?i" "ax_rd_flags ?i"] by simp
  then show ?thesis using assms read_data_server_ok(1) by (simp add: axican_data_recv_round_def p Let_def)
qed

lemma monitor_server_ok:
  assumes "server_ok t s"
  shows "server_ok t (send_data_tid_round drv ch s)"
proof -
  let ?i = "axican_test s ! unat ch"
  obtain rc s1 where p: "axican_poll2 drv (ax_wr_fd ?i) (ax_wr_flags ?i) s = (rc, s1)" by fastforce
  then have s1: "server_ok t s1" using poll_server_ok(1)[OF assms, of drv "ax_wr_fd ?i" "ax_wr_flags ?i"] by simp
  obtain n s2 where r: "axican_read_data_t drv (ax_wr_fd ?i) (ax_wr_flags ?i) ch 6 s1 = (n, s2)" by fastforce
  then have s2: "server_ok t s2" using read_data_server_ok(2)[OF s1, of drv "ax_wr_fd ?i" "ax_wr_flags ?i" ch 6] by simp
  have "footprint (s2\<lparr>axican_test := (axican_test s2)[unat ch := (axican_test s2 ! unat ch)\<lparr>ax_count := k\<rparr>]\<rparr>) = footprint s2" for k
    by (simp add: footprint_def rest_def sched_def fd_update)
  from server_ok_footprint[OF s2 this] show ?thesis using s1 by (simp add: send_data_tid_round_def p r Let_def)
qed

section \<open>The reporting threads and the simulator\<close>

lemma dequeue_keeps:
  assumes "\<And>u r q buf. P u \<Longrightarrow> ringbuffer_32ch_get (Some (sel u)) ch (Some (replicate 24 0)) 6 = (r, q, buf) \<Longrightarrow> P (upd (the q) u)" "P s"
  shows "P (snd (dequeue_frames sel upd ch n s))"
  using assms(2)
proof (induction n arbitrary: s)
  case (Suc n)
  obtain r q buf where g: "ringbuffer_32ch_get (Some (sel s)) ch (Some (replicate 24 0)) 6 = (r, q, buf)"
    by (metis prod_cases3)
  show ?case using Suc.IH[OF assms(1)[OF Suc.prems g]] assms(1)[OF Suc.prems g] by (simp add: g Let_def split_beta)
qed simp

lemma can_dequeue:
  assumes "server_ok t s"
  shows "server_ok t (snd (dequeue_frames g_can_buf_set (\<lambda>q s. s\<lparr>g_can_buf_set := q\<rparr>) ch n s))"
    and "server_ok t (snd (dequeue_frames g_poll_buf_set (\<lambda>q s. s\<lparr>g_poll_buf_set := q\<rparr>) ch n s))"
proof -
  have "set_kept (g_can_buf_set u) (the q)"
    if "server_ok t u" "ringbuffer_32ch_get (Some (g_can_buf_set u)) ch (Some (replicate 24 0)) 6 = (r, q, buf)" for u r q buf
    using server_ok_sets(4,10)[OF that(1)] by (intro get_kept[OF _ _ that(2)]) simp_all
  then show "server_ok t (snd (dequeue_frames g_can_buf_set (\<lambda>q s. s\<lparr>g_can_buf_set := q\<rparr>) ch n s))"
    using assms server_ok_queue(4) by (intro dequeue_keeps[of "server_ok t"]) simp_all
  have "set_kept (g_poll_buf_set u) (the q)"
    if "server_ok t u" "ringbuffer_32ch_get (Some (g_poll_buf_set u)) ch (Some (replicate 24 0)) 6 = (r, q, buf)" for u r q buf
    using server_ok_sets(5,11)[OF that(1)] by (intro get_kept[OF _ _ that(2)]) simp_all
  then show "server_ok t (snd (dequeue_frames g_poll_buf_set (\<lambda>q s. s\<lparr>g_poll_buf_set := q\<rparr>) ch n s))"
    using assms server_ok_queue(5) by (intro dequeue_keeps[of "server_ok t"]) simp_all
qed

lemma process_server_ok:
  assumes "server_ok t s"
  shows "server_ok t (axican_data_process_round os ch s)"
proof -
  let ?n = "unat (ringbuffer_32ch_len (Some (g_can_buf_set s)) ch 6)"
  obtain fs s1 where d: "dequeue_frames g_can_buf_set (\<lambda>q s. s\<lparr>g_can_buf_set := q\<rparr>) ch (if ?n < 32 then ?n else 32) s = (fs, s1)"
    by fastforce
  have "server_ok t s1" using can_dequeue(1)[OF assms, of ch "if ?n < 32 then ?n else 32"] d by simp
  then have "server_ok t (fold (handle_normal_mode os ch) fs s1)" by (rule server_ok_footprint) simp
  then show ?thesis using assms d by (simp add: axican_data_process_round_def Let_def del: dequeue_frames.simps)
qed

lemma process_1_server_ok:
  assumes "server_ok t s"
  shows "server_ok t (axican_data_process_round_1 os ch s)"
proof -
  let ?n = "unat (ringbuffer_32ch_len (Some (g_poll_buf_set s)) ch 6)"
  obtain fs s1 where d: "dequeue_frames g_poll_buf_set (\<lambda>q s. s\<lparr>g_poll_buf_set := q\<rparr>) ch (if ?n < 32 then ?n else 32) s = (fs, s1)"
    by fastforce
  have s1: "server_ok t s1" using can_dequeue(2)[OF assms, of ch "if ?n < 32 then ?n else 32"] d by simp
  have "footprint (axican_data_process_round_1 os ch s) = footprint s1"
    by (simp add: axican_data_process_round_1_def d Let_def del: dequeue_frames.simps)
  from server_ok_footprint[OF s1 this] show ?thesis .
qed

lemma load_server_ok: "server_ok t s \<Longrightarrow> server_ok t (snd (load_replies ch n s))"
proof (induction n arbitrary: s)
  case (Suc n)
  obtain r q buf where g: "ringbuffer_32ch_get (Some (g_simulator_buf_set s)) ch (Some (replicate 288 0)) 32 = (r, q, buf)"
    by (metis prod_cases3)
  let ?s1 = "s\<lparr>g_simulator_buf_set := the q\<rparr>"
  have "server_ok t ?s1"
    using server_ok_sets(2,8)[OF Suc.prems] by (intro server_ok_queue(2)[OF Suc.prems] get_kept[OF _ _ g]) simp_all
  then show ?case using Suc.IH[of ?s1] by (simp add: g Let_def split_beta)
qed simp

lemma preload_server_ok: "server_ok t s \<Longrightarrow> server_ok t (snd (sim_preload ch (c, s)))"
  using load_server_ok by (simp add: sim_preload_def Let_def split_beta)

lemma frame_step_footprint: "sim_frame_step os ch fd f c s = (leave, c', s') \<Longrightarrow> footprint s' = footprint s"
  by (auto simp: sim_frame_step_def sim_waiting_frame_def sim_idle_frame_def Let_def split: if_splits option.splits)

lemma batch_footprint: "footprint (snd (sim_batch os ch fd fs st)) = footprint (snd st)"
proof (induction fs arbitrary: st)
  case (Cons f fs)
  obtain leave c s where e: "sim_frame_step os ch fd f (fst st) (snd st) = (leave, c, s)" by (metis prod_cases3)
  then show ?case using Cons frame_step_footprint[OF e] by simp
qed simp

lemma along_server_ok:
  assumes "server_ok t s"
  shows "server_ok t (snd (along_data_round os ch fd (c, s)))"
proof -
  let ?n = "min (unat (ringbuffer_32ch_len (Some (g_can_buf_set s)) ch 6)) 32"
  obtain fs s1 where d: "dequeue_frames g_can_buf_set (\<lambda>q s. s\<lparr>g_can_buf_set := q\<rparr>) ch ?n s = (fs, s1)" by fastforce
  have s1: "server_ok t s1" using can_dequeue(1)[OF assms, of ch ?n] d by simp
  have "server_ok t (snd (sim_batch os ch fd fs (c, s1)))"
    by (rule server_ok_footprint[OF s1]) (simp add: batch_footprint)
  then show ?thesis using s1 by (simp add: along_data_round_def Let_def d)
qed

section \<open>Connections\<close>

text \<open>The clients come and go, and the report of the buffers goes to the event client.\<close>

lemma clients_server_ok:
  assumes "server_ok t s"
  shows "server_ok t (upload_connect k s)" "server_ok t (upload_disconnect k s)" "server_ok t (event_connect k s)"
    "server_ok t (event_disconnect k s)" "server_ok t (download_connect k s)" "server_ok t (download_disconnect k s)"
    "server_ok t (buffer_report_round os s)"
  by (rule server_ok_footprint[OF assms], simp)+

end
