(* ===== verification/System_Run.thy ===== *)
theory System_Run
  imports Server_Turns
begin

text \<open>
  The whole program after its start (\<^verbatim>\<open>src/main18.c\<close>): the server together with what the threads keep for themselves, the
  receive buffers of the command and download clients and the loaded replies of the simulators.

  A run takes the turns of the threads in any order; a turn is one iteration of the loop of a thread.  The system calls of a turn
  are those of the component that models it; \<open>recv\<close> delivers no more bytes than the handler asked for.  The invariant of the
  whole program is proved by induction over these runs.
\<close>

section \<open>The state\<close>

record system =
  sy_server :: server
  sy_sim :: "u8 \<Rightarrow> sim_state option"
  sy_command :: "int \<Rightarrow> byte list option"
  sy_download :: "int \<Rightarrow> byte list option"

definition system_start :: "server \<Rightarrow> system" where
  "system_start t = \<lparr>sy_server = t, sy_sim = Map.empty, sy_command = Map.empty, sy_download = Map.empty\<rparr>"

abbreviation BUFFER_SIZE :: nat where "BUFFER_SIZE \<equiv> 4096"
abbreviation BUFFER_SIZE_1 :: nat where "BUFFER_SIZE_1 \<equiv> 1048628"

definition recv_fits :: "nat \<Rightarrow> recv_result \<Rightarrow> bool" where
  "recv_fits n r \<longleftrightarrow> (case r of Received bytes \<Rightarrow> bytes \<noteq> [] \<and> length bytes \<le> n | _ \<Rightarrow> True)"

section \<open>Turns\<close>

text \<open>
  The threads that keep nothing of their own.  The loops of the channel threads test \<open>running\<close> before every turn; the clients of the
  upload and event connections send nothing that matters, so that only their arrival and departure are turns.  The signal may come at
  any time; the program of the source never installs its handler, so that the runs of that program are those without this turn.
\<close>

inductive server_turn :: "os \<Rightarrow> can_driver \<Rightarrow> server \<Rightarrow> server \<Rightarrow> bool" for os drv where
  turn_pulse: "server_turn os drv s (snd (pps_irq_round os r s))"
| turn_broadcast: "running s \<Longrightarrow> unat ch < AXICAN_MAX \<Longrightarrow> server_turn os drv s (broadcast_can_send_round os ch s)"
| turn_send: "running s \<Longrightarrow> unat ch < AXICAN_MAX \<Longrightarrow> server_turn os drv s (axican_data_send_round os ch s)"
| turn_recv: "running s \<Longrightarrow> unat ch < AXICAN_MAX \<Longrightarrow> server_turn os drv s (axican_data_recv_round drv ch s)"
| turn_monitor: "running s \<Longrightarrow> unat ch < AXICAN_MAX \<Longrightarrow> server_turn os drv s (send_data_tid_round drv ch s)"
| turn_report_rx: "running s \<Longrightarrow> unat ch < AXICAN_MAX \<Longrightarrow> server_turn os drv s (axican_data_process_round os ch s)"
| turn_report_tx: "running s \<Longrightarrow> unat ch < AXICAN_MAX \<Longrightarrow> server_turn os drv s (axican_data_process_round_1 os ch s)"
| turn_buffers: "running s \<Longrightarrow> server_turn os drv s (buffer_report_round os s)"
| turn_upload_in: "server_turn os drv s (upload_connect k s)"
| turn_upload_out: "server_turn os drv s (upload_disconnect k s)"
| turn_event_in: "server_turn os drv s (event_connect k s)"
| turn_event_out: "server_turn os drv s (event_disconnect k s)"
| turn_signal: "server_turn os drv s (sigint_handler s)"

text \<open>
  The runs.  A command or download handler is identified by its descriptor; the descriptor of a simulator is the one its channel writes
  to.
\<close>

inductive system_run :: "os \<Rightarrow> can_driver \<Rightarrow> system \<Rightarrow> system \<Rightarrow> bool" for os drv y0 where
  run_start: "system_run os drv y0 y0"
| run_server: "system_run os drv y0 y \<Longrightarrow> server_turn os drv (sy_server y) s \<Longrightarrow> system_run os drv y0 (y\<lparr>sy_server := s\<rparr>)"
| run_command_in: "system_run os drv y0 y \<Longrightarrow> sy_command y k = None \<Longrightarrow>
    system_run os drv y0 (y\<lparr>sy_command := (sy_command y)(k \<mapsto> [])\<rparr>)"
| run_command: "system_run os drv y0 y \<Longrightarrow> sy_command y k = Some b \<Longrightarrow> recv_fits (BUFFER_SIZE - length b) r \<Longrightarrow>
    command_client os k [r] (b, sy_server y) = (waits, b', s) \<Longrightarrow>
    system_run os drv y0 (y\<lparr>sy_server := s, sy_command := (sy_command y)(k := if waits then Some b' else None)\<rparr>)"
| run_download_in: "system_run os drv y0 y \<Longrightarrow> sy_download y k = None \<Longrightarrow>
    system_run os drv y0 (y\<lparr>sy_server := download_connect k (sy_server y), sy_download := (sy_download y)(k \<mapsto> [])\<rparr>)"
| run_download: "system_run os drv y0 y \<Longrightarrow> sy_download y k = Some b \<Longrightarrow>
    recv_fits (min (DOWNLOAD_MAX - length b) BUFFER_SIZE_1) r \<Longrightarrow>
    download_client_step os k r (b, sy_server y) = (Continue, b', s) \<Longrightarrow>
    system_run os drv y0 (y\<lparr>sy_server := s, sy_download := (sy_download y)(k \<mapsto> b')\<rparr>)"
| run_download_out: "system_run os drv y0 y \<Longrightarrow> sy_download y k = Some b \<Longrightarrow>
    recv_fits (min (DOWNLOAD_MAX - length b) BUFFER_SIZE_1) r \<Longrightarrow>
    download_client_step os k r (b, sy_server y) = (Leave, b', s) \<Longrightarrow>
    system_run os drv y0 (y\<lparr>sy_server := download_disconnect k s, sy_download := (sy_download y)(k := None)\<rparr>)"
| run_sim_load: "system_run os drv y0 y \<Longrightarrow> unat ch < AXICAN_MAX \<Longrightarrow> sy_sim y ch = None \<Longrightarrow>
    \<not> running (sy_server y) \<or> sim_loadable ch (sy_server y) \<Longrightarrow> sim_preload ch (sim_start, sy_server y) = (c, s) \<Longrightarrow>
    system_run os drv y0 (y\<lparr>sy_server := s, sy_sim := (sy_sim y)(ch \<mapsto> c)\<rparr>)"
| run_sim: "system_run os drv y0 y \<Longrightarrow> running (sy_server y) \<Longrightarrow> sy_sim y ch = Some c \<Longrightarrow>
    along_data_round os ch (ax_wr_fd (axican_test (sy_server y) ! unat ch)) (c, sy_server y) = (c', s) \<Longrightarrow>
    system_run os drv y0 (y\<lparr>sy_server := s, sy_sim := (sy_sim y)(ch \<mapsto> c')\<rparr>)"

section \<open>The invariant\<close>

definition system_ok :: "server \<Rightarrow> system \<Rightarrow> bool" where
  "system_ok t y \<longleftrightarrow> server_ok t (sy_server y) \<and> (\<forall>ch c. sy_sim y ch = Some c \<longrightarrow> unat ch < AXICAN_MAX \<and> sim_inv c) \<and>
     (\<forall>k b. sy_command y k = Some b \<longrightarrow> length b < BUFFER_SIZE) \<and>
     (\<forall>k b. sy_download y k = Some b \<longrightarrow> length b < DOWNLOAD_MAX)"

lemma system_okD:
  assumes "system_ok t y"
  shows "server_ok t (sy_server y)" "sy_sim y ch = Some c \<Longrightarrow> unat ch < AXICAN_MAX \<and> sim_inv c"
    "sy_command y k = Some b \<Longrightarrow> length b < BUFFER_SIZE" "sy_download y k = Some b \<Longrightarrow> length b < DOWNLOAD_MAX"
  using assms by (simp_all add: system_ok_def)

text \<open>Each turn changes the server and at most one of the maps, at one place.\<close>

lemma system_ok_update:
  assumes "system_ok t y" "server_ok t s"
  shows "system_ok t (y\<lparr>sy_server := s\<rparr>)"
    and "(\<And>b. x = Some b \<Longrightarrow> length b < BUFFER_SIZE) \<Longrightarrow> system_ok t (y\<lparr>sy_server := s, sy_command := (sy_command y)(k := x)\<rparr>)"
    and "(\<And>b. x = Some b \<Longrightarrow> length b < DOWNLOAD_MAX) \<Longrightarrow> system_ok t (y\<lparr>sy_server := s, sy_download := (sy_download y)(k := x)\<rparr>)"
    and "unat ch < AXICAN_MAX \<Longrightarrow> sim_inv c \<Longrightarrow> system_ok t (y\<lparr>sy_server := s, sy_sim := (sy_sim y)(ch \<mapsto> c)\<rparr>)"
  using assms unfolding system_ok_def by simp_all

lemma server_turn_ok: "server_turn os drv s s' \<Longrightarrow> server_ok t s \<Longrightarrow> server_ok t s'"
proof (induction rule: server_turn.induct)
  case (turn_signal s)
  then show ?case by (rule server_ok_footprint) (simp add: sigint_handler_def footprint_def rest_def sched_def)
qed (simp_all add: pps_irq_server_ok broadcast_send_server_ok data_send_server_ok recv_server_ok monitor_server_ok process_server_ok
    process_1_server_ok clients_server_ok)

lemma command_turn_ok:
  assumes "server_ok t s" "length b < BUFFER_SIZE" "command_client os k [r] (b, s) = (waits, b', s')"
  shows "server_ok t s' \<and> length b' < BUFFER_SIZE \<or> server_ok t s' \<and> \<not> waits"
proof -
  have closed: "server_ok t (u\<lparr>sys_trace := tr\<rparr>)" "server_ok t ((send_error os m u)\<lparr>sys_trace := tr\<rparr>)" if "server_ok t u" for u tr m
    by (rule server_ok_footprint[OF that], simp)+
  have nil: "command_client os k [] (b1, s1) = (waits, b', s') \<Longrightarrow> server_ok t s1 \<Longrightarrow> server_ok t s' \<and> b' = b1" for b1 s1
    by (subst (asm) command_client.simps) (auto simp: closed split: if_splits)
  note c = assms(3)[unfolded command_client.simps[of os k "[r]" b s]]
  show ?thesis
  proof (cases "running s")
    case False
    then show ?thesis using assms(1) c by (auto simp: closed)
  next
    case True
    show ?thesis
    proof (cases r)
      case (Received bytes)
      obtain b1 s1 where d: "command_drain os k (b @ bytes) s = (b1, s1)" by fastforce
      then have "server_ok t s1" using command_drain_server_ok[OF assms(1), of os k "b @ bytes"] by simp
      moreover have "length b1 < BUFFER_SIZE" using cmd.drain_bound[OF d] by simp
      moreover have "command_client os k [] (b1, s1) = (waits, b', s')"
        using c True Received d by simp
      ultimately show ?thesis using nil by blast
    next
      case Interrupted
      then have "command_client os k [] (b, s) = (waits, b', s')"
        using c True by simp
      then show ?thesis using nil assms(1,2) by blast
    next
      case Failed
      then show ?thesis using assms(1) c True by (auto simp: closed Let_def)
    next
      case Eof
      then show ?thesis using assms(1) c True by (auto simp: closed)
    qed
  qed
qed

lemma download_turn_ok:
  assumes "server_ok t s" "length b < DOWNLOAD_MAX" "recv_fits (min (DOWNLOAD_MAX - length b) BUFFER_SIZE_1) r"
    "download_client_step os k r (b, s) = (exit, b', s')"
  shows "server_ok t s' \<and> (exit = Continue \<longrightarrow> length b' < DOWNLOAD_MAX)"
proof (cases "\<exists>bytes. r = Received bytes \<and> running s \<and> data_download_socket s = k")
  case True
  then obtain bytes where r: "r = Received bytes" "running s" "data_download_socket s = k" by blast
  have l: "length (b @ bytes) \<le> DOWNLOAD_MAX" using assms(2,3) r(1) by (simp add: recv_fits_def) linarith
  obtain b1 s1 where d: "download_drain os (b @ bytes) s = (b1, s1)" by fastforce
  have "exit = Continue \<and> b' = b1 \<and> s' = s1"
    using assms(2,4) r d batch_eq_drain[OF l] by (simp add: download_client_step_def)
  then show ?thesis using ok_downloads.R_drain[of t s os "b @ bytes"] assms(1) dl.drain_bound[OF d] d by simp
next
  case False
  then show ?thesis using assms by (auto simp: download_client_step_def split: recv_result.splits if_splits)
qed

lemma system_run_ok: "system_run os drv y0 y \<Longrightarrow> system_ok t y0 \<Longrightarrow> system_ok t y"
proof (induction rule: system_run.induct)
  case run_start
  then show ?case .
next
  case (run_server y s)
  then have y: "system_ok t y" by simp
  show ?case by (rule system_ok_update(1)[OF y server_turn_ok[OF run_server.hyps(2) system_okD(1)[OF y]]])
next
  case (run_command_in y k)
  then have y: "system_ok t y" by simp
  show ?case using system_ok_update(2)[OF y system_okD(1)[OF y], of "Some []" k] by simp
next
  case (run_command y k b r waits b' s)
  then have y: "system_ok t y" by simp
  from command_turn_ok[OF system_okD(1)[OF y] system_okD(3)[OF y run_command.hyps(2)] run_command.hyps(4)]
  show ?case by (intro system_ok_update(2)[OF y]) (auto split: if_splits)
next
  case (run_download_in y k)
  then have y: "system_ok t y" by simp
  show ?case using clients_server_ok(5)[OF system_okD(1)[OF y]] by (intro system_ok_update(3)[OF y]) auto
next
  case (run_download y k b r b' s)
  then have y: "system_ok t y" by simp
  from download_turn_ok[OF system_okD(1)[OF y] system_okD(4)[OF y run_download.hyps(2)] run_download.hyps(3,4)]
  show ?case by (intro system_ok_update(3)[OF y]) auto
next
  case (run_download_out y k b r b' s)
  then have y: "system_ok t y" by simp
  from download_turn_ok[OF system_okD(1)[OF y] system_okD(4)[OF y run_download_out.hyps(2)] run_download_out.hyps(3,4)]
  have "server_ok t (download_disconnect k s)" using clients_server_ok(6) by blast
  then show ?case by (intro system_ok_update(3)[OF y]) auto
next
  case (run_sim_load y ch c s)
  then have y: "system_ok t y" by simp
  have "server_ok t s" "sim_inv c"
    using preload_server_ok[OF system_okD(1)[OF y], of ch sim_start] sim_preload_inv[of ch "sy_server y"] run_sim_load.hyps(5) by simp_all
  then show ?case by (rule system_ok_update(4)[OF y _ run_sim_load.hyps(2)])
next
  case (run_sim y ch c c' s)
  then have y: "system_ok t y" by simp
  let ?fd = "ax_wr_fd (axican_test (sy_server y) ! unat ch)"
  have c: "unat ch < AXICAN_MAX" "sim_inv c" using system_okD(2)[OF y run_sim.hyps(3)] by simp_all
  have "server_ok t s" "sim_inv c'"
    using along_server_ok[OF system_okD(1)[OF y], of os ch ?fd c] along_round_inv[of "(c, sy_server y)" os ch ?fd] c(2)
      run_sim.hyps(4) by simp_all
  then show ?case by (rule system_ok_update(4)[OF y _ c(1)])
qed

section \<open>After the start\<close>

lemma started_server_ok:
  assumes "main_start os bo (boot_server, h) = (0, t, h')"
  shows "server_ok t t"
proof -
  note r = main_start_ready[OF assms] and b = main_start_balanced[OF assms]
  have "elem_size (g_poll_buf_set t) = 24" using main_start_queues(5)[OF assms] by (simp add: fresh_set_def)
  moreover have "list_all2 set_kept (all_sets t) (all_sets t)"
    using b(1) by (simp add: balanced_def all_sets_def set_kept_refl)
  ultimately show ?thesis using r b(2) by (simp add: server_ok_def)
qed

lemma server_ok_blocks: "server_ok t s \<Longrightarrow> same_blocks t s"
  by (auto simp: server_ok_def same_blocks_def all_sets_def set_kept_full set_kept_blocks)

lemma started_run_ok:
  assumes "main_start os bo (boot_server, h) = (0, t, h')" "system_run os drv (system_start t) y"
  shows "system_ok t y"
  using system_run_ok[OF assms(2), of t] started_server_ok[OF assms(1)] by (simp add: system_ok_def system_start_def)

section \<open>Properties\<close>


text \<open>A run in which a download client connects and sends the first two bytes of a packet.\<close>

lemma demo_start_succeeds:
  obtains t h' where "main_start demo_os demo_boot (boot_server, \<lparr>h_calls = 0, h_live = 0\<rparr>) = (0, t, h')"
proof -
  let ?m = "main_start demo_os demo_boot (boot_server, \<lparr>h_calls = 0, h_live = 0\<rparr>)"
  have "fst (init_buffers (os_malloc demo_os) st) = 0" for st by (rule init_buffers_all_ok) (simp add: demo_os_def)
  moreover have "fst (init_devices demo_os demo_boot 0 6 s) = 0" for s
    by (rule init_devices_all_ok) (simp_all add: demo_boot_def demo_os_def)
  ultimately have "fst ?m = 0" by (auto simp: main_start_def split: prod.split) (metis fst_conv)+
  then show thesis using that by (metis prod.collapse)
qed

lemma demo_run:
  assumes "running t"
  shows "system_run os drv (system_start t)
    ((system_start t)\<lparr>sy_server := download_connect 7 t, sy_download := [7 \<mapsto> [4, 0xCC]]\<rparr>)"
proof -
  let ?y = "(system_start t)\<lparr>sy_server := download_connect 7 t, sy_download := [7 \<mapsto> []]\<rparr>"
  have c: "data_download_socket (download_connect 7 t) = 7" "running (download_connect 7 t)"
    using assms by (simp_all add: download_connect_def sys_shutdown_def)
  have "system_run os drv (system_start t) ?y"
    using run_download_in[OF run_start[of os drv "system_start t"], where k = 7] by (simp add: system_start_def)
  moreover have "process_download_data_batch os [4, 0xCC] u = ([4, 0xCC], u)" for u
    by (simp add: process_download_data_batch_def download_loop.simps)
  ultimately show ?thesis
    using run_download[of os drv "system_start t" ?y 7 "[]" "Received [4, 0xCC]" "[4, 0xCC]" "download_connect 7 t"] c
    by (simp add: recv_fits_def download_client_step_def)
qed


text \<open>
  C20.  Stopping undoes starting: after a successful start and any run of the threads, the end of the program closes both
  descriptors of each of the six devices, those that the start opened and once each, and returns all memory of the queues.
\<close>

theorem program_run_releases:
  assumes "main_start os bo (boot_server, h) = (0, t, h1)" and "system_run os drv (system_start t) y"
  shows "case main_stop (replicate 6 [False, False, False]) (sy_server y, h1) of (ret, v, h2) \<Rightarrow>
    ret = 0 \<and> h_live h2 = h_live h \<and> sys_trace v = sys_trace (sy_server y) @ device_closings t [0..<6]"
  by (rule stop_releases[OF assms(1) server_ok_blocks[OF system_okD(1)[OF started_run_ok[OF assms]]] refl])

theorem program_run_releases_witness:
  "h_live (snd (snd (case main_start demo_os demo_boot (boot_server, \<lparr>h_calls = 0, h_live = 0\<rparr>) of
     (ret, t, h1) \<Rightarrow> main_stop (replicate 6 [False, False, False]) (download_connect 7 t, h1)))) = 0"
proof -
  obtain t h' where m: "main_start demo_os demo_boot (boot_server, \<lparr>h_calls = 0, h_live = 0\<rparr>) = (0, t, h')"
    by (rule demo_start_succeeds)
  then have "running t" using main_start_ready by blast
  from program_run_releases[OF m demo_run[OF this]] show ?thesis by (simp add: m split: prod.splits)
qed

end
