(* ===== verification/System_Scheduler.thy ===== *)
theory System_Scheduler
  imports System_Run
begin

text \<open>
  Every run of the whole program (\<open>System_Run\<close>) is a run of the scheduler's own transition system (\<open>Broadcast\<close>): what the other threads
  of \<^verbatim>\<open>src/main18.c\<close> do is indeed a step elsewhere, and what reaches the scheduler does so through its operations.  The theorems
  about the scheduler therefore hold for the program.
\<close>

section \<open>Runs of the scheduler\<close>

definition sched_run :: "os \<Rightarrow> server \<Rightarrow> server \<Rightarrow> bool" where
  "sched_run os s t \<longleftrightarrow> (\<exists>acts. bcast_steps os s acts t)"

lemma bcast_steps_append: "bcast_steps os s as t \<Longrightarrow> bcast_steps os t bs u \<Longrightarrow> bcast_steps os s (as @ bs) u"
  by (induction rule: bcast_steps.induct) (auto intro: bcast_steps.more)

lemma sched_run_trans: "sched_run os s t \<Longrightarrow> sched_run os t u \<Longrightarrow> sched_run os s u"
  unfolding sched_run_def using bcast_steps_append by blast

lemma sched_run_step: "bcast_step os s a t \<Longrightarrow> sched_run os s t"
  unfolding sched_run_def using bcast_steps.more[OF _ bcast_steps.none] by blast

lemma sched_run_elsewhere:
  assumes "sched t = sched (s\<lparr>can_configs := can_configs t\<rparr>)" "length (can_configs t) = length (can_configs s)"
  shows "sched_run os s t"
  by (rule sched_run_step, rule elsewhere) (use assms in \<open>simp_all add: sched_def bcast_same_def\<close>)

lemma sched_run_same: "sched t = sched s \<Longrightarrow> sched_run os s t"
  by (rule sched_run_elsewhere) (simp_all add: sched_def)

lemma footprint_sched: "footprint t = footprint s \<Longrightarrow> sched t = sched s"
  by (simp add: footprint_def)

lemma sched_free [simp]:
  "sched (s\<lparr>g_data_buf_set := q\<rparr>) = sched s" "sched (s\<lparr>g_simulator_buf_set := q\<rparr>) = sched s"
  "sched (s\<lparr>g_pulse_buf_set := q\<rparr>) = sched s" "sched (s\<lparr>g_can_buf_set := q\<rparr>) = sched s"
  "sched (s\<lparr>g_poll_buf_set := q\<rparr>) = sched s" "sched (s\<lparr>packet_buffers := bs\<rparr>) = sched s"
  "sched (s\<lparr>axican_test := as\<rparr>) = sched s" "sched (s\<lparr>running := b\<rparr>) = sched s"
  "sched (s\<lparr>sys_calls := n\<rparr>) = sched s" "sched (s\<lparr>sys_trace := tr\<rparr>) = sched s"
  by (simp_all add: sched_def)

lemmas sched_senders [simp] =
  footprint_senders[THEN footprint_sched] footprint_single[THEN footprint_sched] footprint_singles[THEN footprint_sched]
  footprint_normal[THEN footprint_sched] footprint_connections[THEN footprint_sched] footprint_report_round[THEN footprint_sched]
  footprint_group[THEN footprint_sched] batch_footprint[THEN footprint_sched]

section \<open>Commands and downloads\<close>

lemma sched_run_command: "sched_run os s (handle_broadcast_config os req s)"
  by (rule sched_run_step, rule configure)

interpretation sched_commands: command_relation os "sched_run os" for os
proof (unfold_locales, goal_cases)
  case (1 s s1 s2)
  then show ?case by (rule sched_run_trans)
next
  case (2 s' s)
  then show ?case by (intro sched_run_same footprint_sched)
next
  case (3 s ch f)
  show ?case by (rule sched_run_elsewhere) (simp_all add: update_config_def sched_def)
next
  case (4 s req)
  show ?case by (rule sched_run_command)
qed

lemma enqueue_sched_run: "sched_run os s (snd (enqueue_broadcast_group os ch frames s))"
proof -
  obtain r u where e: "enqueue_broadcast_group os ch frames s = (r, u)" by fastforce
  show ?thesis
  proof (cases r)
    case (Inl x)
    from sched_run_step[OF refused[OF e[unfolded Inl]]] show ?thesis by (simp add: e)
  next
    case (Inr x)
    then have "enqueue_broadcast_group os ch frames s = (Inr (), u)" using e by simp
    from sched_run_step[OF enqueued[OF this]] show ?thesis by (simp add: e)
  qed
qed

lemma enqueue_normal_sched [simp]: "sched (snd (enqueue_normal_can_payload os b s)) = sched s"
  by (simp add: enqueue_normal_can_payload_def Let_def split: prod.split)

lemma queue_payload_sched [simp]: "sched (queue_payload os ty ch x s) = sched s"
  by (simp add: queue_payload_def put_into_def split: DataType.split prod.split)

interpretation sched_downloads: download_relation os "sched_run os" for os
proof (unfold_locales, goal_cases)
  case (2 s s1 s2)
  then show ?case by (rule sched_run_trans)
qed (simp_all add: sched_run_same enqueue_sched_run)

section \<open>The other threads\<close>

lemma data_send_sched: "sched (axican_data_send_round os ch s) = sched s"
  by (simp add: axican_data_send_round_def send_multi_def sys_time_def Let_def split: prod.split)

lemma tick_sched [simp]: "sched (tick s) = sched s" "sched (snd (axican_poll2 drv fd flags s)) = sched s"
  "sched (snd (axican_get_frame_count drv fd s)) = sched s"
  by (simp_all add: axican_poll2_def axican_get_frame_count_def tick_def Let_def split: prod.split)

lemma read_data_sched [simp]:
  "sched (snd (axican_read_data drv fd flags ch limit s)) = sched s"
  "sched (snd (axican_read_data_t drv fd flags ch limit s)) = sched s"
proof -
  obtain n s1 where c: "axican_get_frame_count drv fd s = (n, s1)" by fastforce
  then have s1: "sched s1 = sched s" using tick_sched(3)[of drv fd s] by simp
  have put: "sched (put_can ch limit f u) = sched u" "sched (put_poll ch limit f u) = sched u" for f u
    by (simp_all add: put_can_def put_poll_def split: prod.split)
  note loop = read_loop_keeps[of "\<lambda>u. sched u = sched s"]
  show "sched (snd (axican_read_data drv fd flags ch limit s)) = sched s"
    using s1 loop[of "put_can ch limit" s1] put by (simp add: axican_read_data_def c)
  show "sched (snd (axican_read_data_t drv fd flags ch limit s)) = sched s"
    using s1 loop[of "put_poll ch limit" s1] put by (simp add: axican_read_data_t_def c)
qed

lemma recv_sched: "sched (axican_data_recv_round drv ch s) = sched s"
proof -
  obtain rc s1 where "axican_poll2 drv (ax_rd_fd (axican_test s ! unat ch)) (ax_rd_flags (axican_test s ! unat ch)) s = (rc, s1)"
    by fastforce
  moreover from this have "sched s1 = sched s" by (metis snd_conv tick_sched(2))
  ultimately show ?thesis by (simp add: axican_data_recv_round_def Let_def)
qed

lemma monitor_sched: "sched (send_data_tid_round drv ch s) = sched s"
proof -
  let ?i = "axican_test s ! unat ch"
  obtain rc s1 where p: "axican_poll2 drv (ax_wr_fd ?i) (ax_wr_flags ?i) s = (rc, s1)" by fastforce
  obtain n s2 where r: "axican_read_data_t drv (ax_wr_fd ?i) (ax_wr_flags ?i) ch 6 s1 = (n, s2)" by fastforce
  have "sched s1 = sched s" "sched s2 = sched s1" using p r by (metis snd_conv tick_sched(2), metis snd_conv read_data_sched(2))
  then show ?thesis by (simp add: send_data_tid_round_def p r Let_def)
qed

lemma dequeue_sched [simp]:
  "sched (snd (dequeue_frames g_can_buf_set (\<lambda>q s. s\<lparr>g_can_buf_set := q\<rparr>) ch n s)) = sched s"
  "sched (snd (dequeue_frames g_poll_buf_set (\<lambda>q s. s\<lparr>g_poll_buf_set := q\<rparr>) ch n s)) = sched s"
  by (rule dequeue_keeps[of "\<lambda>u. sched u = sched s"]; simp)+

lemma process_sched: "sched (axican_data_process_round os ch s) = sched s"
  by (simp add: axican_data_process_round_def Let_def split_beta del: dequeue_frames.simps)

lemma process_1_sched: "sched (axican_data_process_round_1 os ch s) = sched s"
proof -
  let ?n = "unat (ringbuffer_32ch_len (Some (g_poll_buf_set s)) ch 6)"
  obtain fs s1 where d: "dequeue_frames g_poll_buf_set (\<lambda>q s. s\<lparr>g_poll_buf_set := q\<rparr>) ch (if ?n < 32 then ?n else 32) s = (fs, s1)"
    by fastforce
  have "footprint (axican_data_process_round_1 os ch s) = footprint s1"
    by (simp add: axican_data_process_round_1_def d Let_def del: dequeue_frames.simps)
  moreover have "sched s1 = sched s" using d dequeue_sched(2)[of ch "if ?n < 32 then ?n else 32" s] by simp
  ultimately show ?thesis using footprint_sched by metis
qed

lemma preload_sched: "sched (snd (sim_preload ch (c, s))) = sched s"
proof -
  have "sched (snd (load_replies ch n u)) = sched u" for n u
    by (induction n arbitrary: u) (simp_all add: Let_def split_beta)
  then show ?thesis by (simp add: sim_preload_def Let_def split_beta)
qed

lemma along_sched: "sched (snd (along_data_round os ch fd (c, s))) = sched s"
  by (simp add: along_data_round_def Let_def split_beta del: dequeue_frames.simps)

lemma pulse_sched_run: "sched_run os s (snd (pps_irq_round os r s))"
proof -
  have "sched_run os s (s\<lparr>sys_calls := Suc (sys_calls s)\<rparr>)" "sched_run os s s" by (rule sched_run_same, simp)+
  then show ?thesis
    using sched_run_trans[OF _ sched_run_step[OF pulse]] by (simp add: pps_irq_round_def split: pps_poll.split)
qed

lemma broadcast_send_sched_run: "sched_run os s (broadcast_can_send_round os ch s)"
proof -
  obtain n g s1 where e: "take_broadcast_group ch s = (n, g, s1)" by (metis prod_cases3)
  have "sched_run os s s1"
  proof (cases "n = 1")
    case True
    show ?thesis by (rule sched_run_step[OF taken[OF e[unfolded True]]])
  next
    case False
    show ?thesis by (rule sched_run_step[OF untaken[OF e False]])
  qed
  moreover have "sched_run os s1 (snd (send_broadcast_group_for_channel os ch g s1))" by (rule sched_run_same) simp
  ultimately show ?thesis using sched_run_trans by (simp add: broadcast_can_send_round_def e)
qed

section \<open>The whole program\<close>

lemma server_turn_sched_run: "server_turn os drv s s' \<Longrightarrow> sched_run os s s'"
  by (induction rule: server_turn.induct)
    (simp_all add: pulse_sched_run broadcast_send_sched_run sched_run_same data_send_sched recv_sched monitor_sched process_sched
      process_1_sched sigint_handler_def)

lemma system_run_sched_run: "system_run os drv y0 y \<Longrightarrow> sched_run os (sy_server y0) (sy_server y)"
proof (induction rule: system_run.induct)
  case run_start
  then show ?case by (simp add: sched_run_same)
next
  case (run_server y s)
  then show ?case using sched_run_trans server_turn_sched_run by simp
next
  case (run_command y k b r waits b' s)
  then show ?case using sched_run_trans sched_commands.R_client by fastforce
next
  case (run_download_in y k)
  then show ?case using sched_run_trans[OF run_download_in.IH sched_run_same] by simp
next
  case (run_download y k b r b' s)
  then show ?case using sched_run_trans sched_downloads.R_step by fastforce
next
  case (run_download_out y k b r b' s)
  have "sched_run os s (download_disconnect k s)" by (rule sched_run_same) simp
  then show ?case
    using sched_run_trans[OF sched_run_trans[OF run_download_out.IH sched_downloads.R_step[OF run_download_out.hyps(4)]]] by simp
next
  case (run_sim_load y ch c s)
  have "sched s = sched (sy_server y)" using preload_sched[of ch sim_start "sy_server y"] run_sim_load.hyps(5) by simp
  then show ?case using sched_run_trans[OF run_sim_load.IH sched_run_same] by simp
next
  case (run_sim y ch c c' s)
  let ?fd = "ax_wr_fd (axican_test (sy_server y) ! unat ch)"
  have "sched s = sched (sy_server y)" using along_sched[of os ch ?fd c "sy_server y"] run_sim.hyps(4) by simp
  then show ?case using sched_run_trans[OF run_sim.IH sched_run_same] by simp
qed simp_all

section \<open>Properties\<close>

lemma started_scheduler:
  assumes "main_start os bo (boot_server, h) = (0, t, h1)" "unat ch < AXICAN_MAX"
  shows "bcast_inv t" "bcast_queue t ch = []" "g_bcast_wake_pending t ! unat ch = 0"
proof -
  obtain s1 where st: "stage (boot_server\<lparr>g_bcast_wake_pending := replicate 6 0\<rparr>) 6 s1" and r: "sans_devices t = sans_devices s1"
    by (rule main_start_parts[OF assms(1)])
  note f = sans_sets_fields[OF st[unfolded stage_def, THEN conjunct1]]
  have "g_bcast_wake_pending t = replicate 6 0" by (simp add: sans_devices_fields[OF r] f)
  then show "g_bcast_wake_pending t ! unat ch = 0" using assms(2) by simp
  show "bcast_inv t" "bcast_queue t ch = []"
    using main_start_ready[OF assms(1)] assms(2) by (simp_all add: dl_ok_def ctrl_ok_def channel_ready_def)
qed

text \<open>
  C5.  The scheduler's contract holds in the whole program: every run of all threads after a successful start is a run of the
  scheduler's transition system, in which no thread touches what the scheduler owns but through its operations; in that run a channel
  hands out at most one group for every pulse, and as long as no configuration is accepted the groups handed out are exactly
  those accepted, in order and once each, apart from those still queued.
\<close>

theorem program_refines_scheduler:
  assumes "main_start os bo (boot_server, h) = (0, t, h1)" and "system_run os drv (system_start t) y" and "unat ch < AXICAN_MAX"
  shows "\<exists>acts. bcast_steps os t acts (sy_server y) \<and>
    length (delivered_on ch acts) + unat (g_bcast_wake_pending (sy_server y) ! unat ch) \<le> pulses acts \<and>
    ((\<exists>a \<in> set acts. reconfigures a) \<or> queued_on ch acts = delivered_on ch acts @ bcast_queue (sy_server y) ch)"
proof -
  note st = started_scheduler[OF assms(1,3)]
  have "sched_run os t (sy_server y)" using system_run_sched_run[OF assms(2)] by (simp add: system_start_def)
  then obtain acts where a: "bcast_steps os t acts (sy_server y)" by (auto simp: sched_run_def)
  have "length (delivered_on ch acts) + unat (g_bcast_wake_pending (sy_server y) ! unat ch) \<le> pulses acts"
    using steps_wakes[OF a st(1) assms(3)] st(3) by simp
  moreover have "(\<exists>a \<in> set acts. reconfigures a) \<or> queued_on ch acts = delivered_on ch acts @ bcast_queue (sy_server y) ch"
    using steps_conserve[OF a st(1), of ch] st(2) by auto
  ultimately show ?thesis using a by blast
qed

theorem program_refines_scheduler_witness:
  "let t = fst (snd (main_start demo_os demo_boot (boot_server, \<lparr>h_calls = 0, h_live = 0\<rparr>))) in
   \<exists>acts. bcast_steps demo_os t acts (download_connect 7 t)"
proof -
  obtain t h' where m: "main_start demo_os demo_boot (boot_server, \<lparr>h_calls = 0, h_live = 0\<rparr>) = (0, t, h')"
    by (rule demo_start_succeeds)
  then have "running t" using main_start_ready by blast
  from program_refines_scheduler[OF m demo_run[OF this, of _ demo_drv], of 0] show ?thesis by (auto simp: m)
qed

end
