(* ===== verification/System_Receive.thy ===== *)
theory System_Receive
  imports System_Scheduler
begin

text \<open>
  Every run of the whole program (\<open>System_Run\<close>) is, for a channel without a loaded simulator, a run of the receiving and reporting
  threads of that channel (\<open>rx_steps\<close> in \<open>Receive\<close>): nothing else in \<^verbatim>\<open>src/main18.c\<close> touches the receive queue of the channel.
\<close>

section \<open>Turns that leave the receive queues alone\<close>

lemma footprint_can: "footprint t = footprint s \<Longrightarrow> g_can_buf_set t = g_can_buf_set s"
  by (simp add: footprint_def rest_def)

lemmas can_senders [simp] =
  footprint_senders[THEN footprint_can] footprint_single[THEN footprint_can] footprint_singles[THEN footprint_can]
  footprint_connections[THEN footprint_can] footprint_report_round[THEN footprint_can] footprint_group[THEN footprint_can]
  footprint_reports[THEN footprint_can] batch_footprint[THEN footprint_can]

lemma pulse_can: "g_can_buf_set (snd (pps_irq_round os r s)) = g_can_buf_set s"
  using pulse_same by (simp add: pps_irq_round_def rest_def split: pps_poll.split)

lemma broadcast_send_can: "g_can_buf_set (broadcast_can_send_round os ch s) = g_can_buf_set s"
proof -
  obtain n g s1 where e: "take_broadcast_group ch s = (n, g, s1)" by (metis prod_cases3)
  then have "g_can_buf_set s1 = g_can_buf_set s"
    by (auto simp: take_broadcast_group_def Let_def split: if_splits prod.splits)
  then show ?thesis by (simp add: broadcast_can_send_round_def e)
qed

lemma data_send_can: "g_can_buf_set (axican_data_send_round os ch s) = g_can_buf_set s"
  by (simp add: axican_data_send_round_def send_multi_def sys_time_def Let_def split: prod.split)

lemma monitor_can: "g_can_buf_set (send_data_tid_round drv ch s) = g_can_buf_set s"
proof -
  let ?i = "axican_test s ! unat ch"
  obtain rc s1 where p: "axican_poll2 drv (ax_wr_fd ?i) (ax_wr_flags ?i) s = (rc, s1)" by fastforce
  then have s1: "g_can_buf_set s1 = g_can_buf_set s" by (auto simp: axican_poll2_def Let_def split: if_splits)
  obtain k s2 where c: "axican_get_frame_count drv (ax_wr_fd ?i) s1 = (k, s2)" by fastforce
  then have s2: "g_can_buf_set s2 = g_can_buf_set s" using s1 by (auto simp: axican_get_frame_count_def split: prod.splits if_splits)
  have put: "g_can_buf_set (put_poll ch 6 f u) = g_can_buf_set u" for f u by (simp add: put_poll_def split: prod.split)
  obtain n s3 where r: "axican_read_data_t drv (ax_wr_fd ?i) (ax_wr_flags ?i) ch 6 s1 = (n, s3)" by fastforce
  then have "g_can_buf_set s3 = g_can_buf_set s"
    using s1 s2 read_loop_keeps[of "\<lambda>u. g_can_buf_set u = g_can_buf_set s" "put_poll ch 6" s2 drv "ax_wr_fd ?i" "ax_wr_flags ?i" 0 "nat k"] put
    by (auto simp: axican_read_data_t_def c split: if_splits)
  then show ?thesis using s1 by (simp add: send_data_tid_round_def p r Let_def)
qed

lemma process_1_can: "g_can_buf_set (axican_data_process_round_1 os ch s) = g_can_buf_set s"
proof -
  have "g_can_buf_set (snd (dequeue_frames g_poll_buf_set (\<lambda>q s. s\<lparr>g_poll_buf_set := q\<rparr>) ch n s)) = g_can_buf_set s" for n
    by (rule dequeue_keeps[of "\<lambda>u. g_can_buf_set u = g_can_buf_set s"]) simp_all
  then show ?thesis by (simp add: axican_data_process_round_1_def Let_def split_beta del: dequeue_frames.simps)
qed

lemma preload_can: "g_can_buf_set (snd (sim_preload ch (c, s))) = g_can_buf_set s"
proof -
  have "g_can_buf_set (snd (load_replies ch n u)) = g_can_buf_set u" for n u
    by (induction n arbitrary: u) (simp_all add: Let_def split_beta)
  then show ?thesis by (simp add: sim_preload_def Let_def split_beta)
qed

lemma enqueue_can: "g_can_buf_set (snd (enqueue_broadcast_group os ch frames s)) = g_can_buf_set s"
proof -
  obtain b s1 where g: "is_broadcast_pps_window_open os ch s = (b, s1)" by fastforce
  obtain gid s2 where n: "next_broadcast_group_id s1 = (gid, s2)" by fastforce
  have "g_can_buf_set s1 = g_can_buf_set s" "g_can_buf_set s2 = g_can_buf_set s1"
    using gate_rest[OF g] next_group_id_nonzero[OF n] by (simp_all add: rest_def)
  then show ?thesis by (simp add: enqueue_broadcast_group_def g n Let_def split: bool.split prod.split)
qed

interpretation can_downloads: download_relation os "\<lambda>s t. g_can_buf_set t = g_can_buf_set s" for os
  by unfold_locales
    (simp_all add: enqueue_can enqueue_normal_can_payload_def queue_payload_def put_into_def Let_def split: DataType.split prod.split)

lemma command_can: "command_client os k [r] (b, s) = (waits, b', s') \<Longrightarrow> g_can_buf_set s' = g_can_buf_set s"
  using tame_commands.R_client by (fastforce simp: tame_def rest_def)

section \<open>Turns of the receiving side\<close>

text \<open>A simulator works on the queue of its own channel only.\<close>

lemma along_other:
  fixes os fd st
  assumes "rx_ok s" "c \<noteq> ch"
  defines "u \<equiv> snd (along_data_round os c fd (st, s))"
  shows "rx_ok u \<and> rx_room ch u = rx_room ch s \<and> rx_queue ch u = rx_queue ch s"
proof -
  let ?n = "min (length (rx_queue c s)) 32"
  obtain fs q where q: "dequeue_frames g_can_buf_set (\<lambda>q s. s\<lparr>g_can_buf_set := q\<rparr>) c ?n s = (fs, s\<lparr>g_can_buf_set := q\<rparr>)"
    "rx_ok (s\<lparr>g_can_buf_set := q\<rparr>)" "rx_room ch (s\<lparr>g_can_buf_set := q\<rparr>) = rx_room ch s"
    "rx_queue ch (s\<lparr>g_can_buf_set := q\<rparr>) = rx_queue ch s"
    using dequeue_can_effect[OF assms(1), of ?n c] assms(2) by auto
  have "g_can_buf_set u = q"
    by (simp add: u_def along_data_round_def Let_def rx_queue_len[OF assms(1)] q(1))
  then show ?thesis using q(2-4) rx_frame[of u "s\<lparr>g_can_buf_set := q\<rparr>"] by simp
qed

lemma process_other:
  fixes os
  assumes "rx_ok s" "c \<noteq> ch"
  defines "u \<equiv> axican_data_process_round os c s"
  shows "rx_ok u \<and> rx_room ch u = rx_room ch s \<and> rx_queue ch u = rx_queue ch s"
proof -
  obtain q where e: "if report_ready c s then u = fold (handle_normal_mode os c) (map axican_frame_of (report_frames c s)) (s\<lparr>g_can_buf_set := q\<rparr>)
      else u = s \<and> q = g_can_buf_set s"
    and q: "rx_ok (s\<lparr>g_can_buf_set := q\<rparr>)" "\<forall>d. rx_room d (s\<lparr>g_can_buf_set := q\<rparr>) = rx_room d s"
      "\<forall>d. rx_queue d (s\<lparr>g_can_buf_set := q\<rparr>) = (if d = c \<and> report_ready c s then drop 32 (rx_queue c s) else rx_queue d s)"
    using process_round_effect[OF assms(1), of c os] unfolding u_def by blast
  have "g_can_buf_set u = q" using e by (simp split: if_splits)
  then show ?thesis using q assms(2) rx_frame[of u "s\<lparr>g_can_buf_set := q\<rparr>"] by simp
qed

section \<open>The whole program\<close>

definition rx_run :: "os \<Rightarrow> can_driver \<Rightarrow> u8 \<Rightarrow> server \<Rightarrow> server \<Rightarrow> bool" where
  "rx_run os drv ch s t \<longleftrightarrow> (\<exists>obtained reported. rx_steps os drv ch s obtained reported t)"

lemma rx_run_other:
  "rx_run os drv ch s t \<Longrightarrow> rx_ok u \<and> rx_room ch u = rx_room ch t \<and> rx_queue ch u = rx_queue ch t \<Longrightarrow> rx_run os drv ch s u"
  unfolding rx_run_def using rx_other by blast

lemma rx_run_same: "rx_run os drv ch s t \<Longrightarrow> rx_ok t \<Longrightarrow> g_can_buf_set u = g_can_buf_set t \<Longrightarrow> rx_run os drv ch s u"
  using rx_run_other rx_frame by metis

lemma server_turn_rx_run:
  assumes "server_turn os drv t u" "rx_run os drv ch s t" "rx_ok t"
  shows "rx_run os drv ch s u"
  using assms(1)
proof (cases rule: server_turn.cases)
  case (turn_recv c)
  show ?thesis
  proof (cases "c = ch")
    case True
    then show ?thesis using assms(2) turn_recv(1) rx_recv unfolding rx_run_def by metis
  next
    case False
    then show ?thesis using recv_round_effect[OF assms(3), of drv c ch] turn_recv(1) by (intro rx_run_other[OF assms(2)]) simp
  qed
next
  case (turn_report_rx c)
  show ?thesis
  proof (cases "c = ch")
    case True
    then show ?thesis using assms(2) turn_report_rx(1) rx_report unfolding rx_run_def by metis
  next
    case False
    then show ?thesis using process_other[OF assms(3), of c ch os] turn_report_rx(1) by (intro rx_run_other[OF assms(2)]) simp
  qed
qed (use rx_run_same[OF assms(2,3)] pulse_can broadcast_send_can data_send_can monitor_can process_1_can in \<open>simp_all add: sigint_handler_def\<close>)

lemma run_rx_ok: "system_run os drv y0 y \<Longrightarrow> system_ok t y0 \<Longrightarrow> rx_ok (sy_server y)"
  using system_okD(1)[OF system_run_ok] by (simp add: server_ok_def)

lemma system_run_rx_run:
  "system_run os drv y0 y \<Longrightarrow> system_ok t y0 \<Longrightarrow> sy_sim y ch = None \<Longrightarrow> rx_run os drv ch (sy_server y0) (sy_server y)"
proof (induction rule: system_run.induct)
  case run_start
  then show ?case using rx_start unfolding rx_run_def by blast
next
  case (run_server y s)
  then show ?case
    using server_turn_rx_run[OF run_server.hyps(2)] run_rx_ok[OF run_server.hyps(1) run_server.prems(1)] by simp
next
  case (run_command_in y k)
  then show ?case by simp
next
  case (run_command y k b r waits b' s)
  have "rx_ok (sy_server y)" by (rule run_rx_ok[OF run_command.hyps(1) run_command.prems(1)])
  then show ?case using rx_run_same[OF run_command.IH] command_can[OF run_command.hyps(4)] run_command.prems by simp
next
  case (run_download_in y k)
  have "rx_ok (sy_server y)" by (rule run_rx_ok[OF run_download_in.hyps(1) run_download_in.prems(1)])
  then show ?case using rx_run_same[OF run_download_in.IH] run_download_in.prems by simp
next
  case (run_download y k b r b' s)
  have "rx_ok (sy_server y)" by (rule run_rx_ok[OF run_download.hyps(1) run_download.prems(1)])
  then show ?case using rx_run_same[OF run_download.IH] can_downloads.R_step[OF run_download.hyps(4)] run_download.prems by simp
next
  case (run_download_out y k b r b' s)
  have "rx_ok (sy_server y)" by (rule run_rx_ok[OF run_download_out.hyps(1) run_download_out.prems(1)])
  then show ?case using rx_run_same[OF run_download_out.IH] can_downloads.R_step[OF run_download_out.hyps(4)] run_download_out.prems by simp
next
  case (run_sim_load y c st s)
  have "rx_ok (sy_server y)" by (rule run_rx_ok[OF run_sim_load.hyps(1) run_sim_load.prems(1)])
  moreover have "g_can_buf_set s = g_can_buf_set (sy_server y)"
    using preload_can[of c sim_start "sy_server y"] run_sim_load.hyps(5) by simp
  ultimately show ?case using rx_run_same[OF run_sim_load.IH] run_sim_load.prems by (simp split: if_splits)
next
  case (run_sim y c st st' s)
  have ok: "rx_ok (sy_server y)" by (rule run_rx_ok[OF run_sim.hyps(1) run_sim.prems(1)])
  have "c \<noteq> ch" "sy_sim y ch = None" using run_sim.prems(2) by (auto split: if_splits)
  then show ?case
    using along_other[OF ok, of c ch os "ax_wr_fd (axican_test (sy_server y) ! unat c)" st] run_sim.hyps(4) run_sim.prems(1)
    by (intro rx_run_other[OF run_sim.IH]) simp_all
qed

section \<open>Properties\<close>



end
