(* ===== verification/Pps_Driver.thy ===== *)
theory Pps_Driver
  imports Connections
begin

text \<open>
  The kernel module that delivers the pulse (\<^verbatim>\<open>src/zmuav_pl2ps_irq.c\<close>): interrupt handler, poll, ioctl, and the acquisition and
  release of its resources; together with the thread of the program that waits for it.

  What the kernel answers is a parameter, the record \<open>kernel\<close>.  Acquired and released resources are recorded as effects; \<open>held\<close> is the
  stack of resources after a list of effects, and is undefined when something is released that is not on its top.  The memory of the
  device structure belongs to the device (\<^verbatim>\<open>devm_kmalloc\<close>) and is released with it.  An open file is the record \<open>irq_file\<close> with its pointer to the structure, which
  is found through the character device inside it (\<^verbatim>\<open>container_of\<close>); devices are named by numbers.
\<close>

section \<open>Device\<close>

record zmuav_pl2ps_irq =
  irq :: int
  irq_count :: u32
  irq_occurred :: u32

definition POLL_READY :: u32 where
  "POLL_READY = 0x0001 OR 0x0040"

text \<open>The interrupt handler may run between the test and the reset of the flag, so that poll is two steps.\<close>

definition irq_poll_read :: "zmuav_pl2ps_irq \<Rightarrow> bool" where
  "irq_poll_read lp \<longleftrightarrow> irq_occurred lp \<noteq> 0"

definition irq_poll_reset :: "zmuav_pl2ps_irq \<Rightarrow> u32 \<times> zmuav_pl2ps_irq" where
  "irq_poll_reset lp = (0 OR POLL_READY, lp\<lparr>irq_occurred := 0\<rparr>)"

definition zmuav_pl2ps_irq_poll :: "zmuav_pl2ps_irq \<Rightarrow> u32 \<times> zmuav_pl2ps_irq" where
  "zmuav_pl2ps_irq_poll lp = (if irq_poll_read lp then irq_poll_reset lp else (0, lp))"

definition zmuav_pl2ps_irq_irq :: "zmuav_pl2ps_irq \<Rightarrow> zmuav_pl2ps_irq" where
  "zmuav_pl2ps_irq_irq lp = lp\<lparr>irq_count := irq_count lp + 1, irq_occurred := 1\<rparr>"

definition IOC_TYPE :: "u32 \<Rightarrow> u32" where
  "IOC_TYPE cmd = drop_bit 8 cmd AND 0xFF"

definition IOC_NR :: "u32 \<Rightarrow> u32" where
  "IOC_NR cmd = cmd AND 0xFF"

definition ZMUAV_PL2PS_IRQ_GET_IRQ_COUNT :: u32 where
  "ZMUAV_PL2PS_IRQ_GET_IRQ_COUNT = push_bit 30 2 OR push_bit 16 4 OR push_bit 8 0x43 OR 0"

definition ZMUAV_PL2PS_IRQ_CLEAN_IRQ_COUNT :: u32 where
  "ZMUAV_PL2PS_IRQ_CLEAN_IRQ_COUNT = push_bit 30 1 OR push_bit 16 4 OR push_bit 8 0x43 OR 1"

text \<open>The answer is the return value, the number stored for the caller, if any, and the device.  \<open>copy_ok\<close>: the caller's memory is writable.\<close>

definition zmuav_pl2ps_irq_ioctl :: "bool \<Rightarrow> u32 \<Rightarrow> zmuav_pl2ps_irq \<Rightarrow> int \<times> u32 option \<times> zmuav_pl2ps_irq" where
  "zmuav_pl2ps_irq_ioctl copy_ok cmd lp =
     (if IOC_TYPE cmd \<noteq> 0x43 then (-25, None, lp)
      else if IOC_NR cmd \<ge> 2 then (-25, None, lp)
      else if cmd = ZMUAV_PL2PS_IRQ_GET_IRQ_COUNT
      then if copy_ok then (0, Some (irq_count lp), lp) else (-14, None, lp)
      else if cmd = ZMUAV_PL2PS_IRQ_CLEAN_IRQ_COUNT then (0, None, lp\<lparr>irq_count := 0\<rparr>)
      else (-25, None, lp))"

section \<open>Open files\<close>

text \<open>
  \<open>i_cdev\<close> is the device whose character device the inode names.  The operations on a file work on the device that its pointer
  names; \<open>None\<close> is a call through a null pointer.
\<close>

record irq_inode =
  i_cdev :: nat

record irq_file =
  private_data :: "nat option"

definition zmuav_pl2ps_irq_open :: "irq_inode \<Rightarrow> irq_file \<Rightarrow> int \<times> irq_file" where
  "zmuav_pl2ps_irq_open inod f = (let lp = i_cdev inod in (0, f\<lparr>private_data := Some lp\<rparr>))"

definition zmuav_pl2ps_irq_close :: "irq_inode \<Rightarrow> irq_file \<Rightarrow> int \<times> irq_file" where
  "zmuav_pl2ps_irq_close inod f = (0, f\<lparr>private_data := None\<rparr>)"

definition file_poll :: "irq_file \<Rightarrow> (nat \<Rightarrow> zmuav_pl2ps_irq) \<Rightarrow> (u32 \<times> (nat \<Rightarrow> zmuav_pl2ps_irq)) option" where
  "file_poll f devices =
     (case private_data f of None \<Rightarrow> None | Some lp \<Rightarrow>
        (case zmuav_pl2ps_irq_poll (devices lp) of (rv, d) \<Rightarrow> Some (rv, devices(lp := d))))"

definition file_ioctl ::
  "irq_file \<Rightarrow> bool \<Rightarrow> u32 \<Rightarrow> (nat \<Rightarrow> zmuav_pl2ps_irq) \<Rightarrow> (int \<times> u32 option \<times> (nat \<Rightarrow> zmuav_pl2ps_irq)) option" where
  "file_ioctl f copy_ok cmd devices =
     (case private_data f of None \<Rightarrow> None | Some lp \<Rightarrow>
        (case zmuav_pl2ps_irq_ioctl copy_ok cmd (devices lp) of (rc, out, d) \<Rightarrow> Some (rc, out, devices(lp := d))))"

text \<open>Between open and close the operations reach exactly the device of the inode and leave every other device alone.\<close>

lemma open_file_reaches_device:
  assumes "zmuav_pl2ps_irq_open inod f0 = (0, f)"
  shows "file_poll f devices =
      Some (fst (zmuav_pl2ps_irq_poll (devices (i_cdev inod))), devices(i_cdev inod := snd (zmuav_pl2ps_irq_poll (devices (i_cdev inod)))))"
    and "\<exists>rc out devices'. file_ioctl f b cmd devices = Some (rc, out, devices') \<and>
      (\<forall>i. i \<noteq> i_cdev inod \<longrightarrow> devices' i = devices i)"
    and "file_poll (snd (zmuav_pl2ps_irq_close inod f)) devices = None"
  using assms
  by (auto simp: zmuav_pl2ps_irq_open_def zmuav_pl2ps_irq_close_def file_poll_def file_ioctl_def Let_def split: prod.splits)

section \<open>Resources\<close>

record kernel =
  k_malloc :: bool
  k_junk :: int
  k_platform_get_irq :: int
  k_request_irq :: int
  k_alloc_chrdev_region :: int
  k_device_create :: int
  k_cdev_add :: int
  k_class_create :: int
  k_driver_register :: int

datatype resource = Driver_Class | Driver | Drvdata | Irq_Line int | Chrdev_Region | Device_File | Char_Device

datatype effect = Acquire resource | Release resource

fun held :: "resource list \<Rightarrow> effect list \<Rightarrow> resource list option" where
  "held rs [] = Some rs"
| "held rs (Acquire r # es) = held (r # rs) es"
| "held rs (Release r # es) =
     (case rs of [] \<Rightarrow> None | r' # rs' \<Rightarrow> if r = r' then held rs' es else None)"

definition zmuav_pl2ps_irq_probe :: "kernel \<Rightarrow> int \<times> zmuav_pl2ps_irq option \<times> effect list" where
  "zmuav_pl2ps_irq_probe k =
     (if \<not> k_malloc k then (-12, None, [])
      else let
        lp = \<lparr>irq = k_junk k, irq_count = 0, irq_occurred = 0\<rparr>;
        e0 = [Acquire Drvdata];
        err_initial = [Release Drvdata]
      in if k_platform_get_irq k < 0 then (k_platform_get_irq k, None, e0 @ err_initial)
      else let
        lp = lp\<lparr>irq := k_platform_get_irq k\<rparr>
      in if k_request_irq k \<noteq> 0 then (k_request_irq k, None, e0 @ err_initial)
      else let
        e1 = e0 @ [Acquire (Irq_Line (irq lp))];
        err_irq = Release (Irq_Line (irq lp)) # err_initial
      in if k_alloc_chrdev_region k < 0 then (k_alloc_chrdev_region k, None, e1 @ err_irq)
      else let
        e2 = e1 @ [Acquire Chrdev_Region];
        err_chrdev_region = Release Chrdev_Region # err_irq
      in if k_device_create k < 0 then (k_device_create k, None, e2 @ err_chrdev_region)
      else let
        e3 = e2 @ [Acquire Device_File];
        err_dev = Release Device_File # err_chrdev_region
      in if k_cdev_add k < 0 then (k_cdev_add k, None, e3 @ err_dev)
      else (0, Some lp, e3 @ [Acquire Char_Device]))"

definition zmuav_pl2ps_irq_remove :: "zmuav_pl2ps_irq \<Rightarrow> int \<times> effect list" where
  "zmuav_pl2ps_irq_remove lp =
     (0, [Release Char_Device, Release Device_File, Release Chrdev_Region, Release (Irq_Line (irq lp)), Release Drvdata])"

definition zmuav_pl2ps_irq_init :: "kernel \<Rightarrow> int \<times> effect list" where
  "zmuav_pl2ps_irq_init k =
     (if k_class_create k < 0 then (k_class_create k, [])
      else if k_driver_register k = 0 then (k_driver_register k, [Acquire Driver_Class, Acquire Driver])
      else (k_driver_register k, [Acquire Driver_Class]))"

definition zmuav_pl2ps_irq_exit :: "effect list" where
  "zmuav_pl2ps_irq_exit = [Release Driver, Release Driver_Class]"

lemma init_exit_balanced:
  "zmuav_pl2ps_irq_init k = (0, es) \<Longrightarrow> held [] (es @ zmuav_pl2ps_irq_exit) = Some []"
  by (auto simp: zmuav_pl2ps_irq_init_def zmuav_pl2ps_irq_exit_def split: if_splits)

text \<open>A registration that fails keeps the class: the exit function is not called after a failed initialisation.\<close>

lemma failed_registration_keeps_class:
  "k_class_create k \<ge> 0 \<Longrightarrow> k_driver_register k \<noteq> 0 \<Longrightarrow>
   fst (zmuav_pl2ps_irq_init k) \<noteq> 0 \<and> held [] (snd (zmuav_pl2ps_irq_init k)) = Some [Driver_Class]"
  by (simp add: zmuav_pl2ps_irq_init_def)

lemmas ioctl_defs = zmuav_pl2ps_irq_ioctl_def IOC_TYPE_def IOC_NR_def ZMUAV_PL2PS_IRQ_GET_IRQ_COUNT_def
  ZMUAV_PL2PS_IRQ_CLEAN_IRQ_COUNT_def

lemma ioctl_get: "zmuav_pl2ps_irq_ioctl True ZMUAV_PL2PS_IRQ_GET_IRQ_COUNT lp = (0, Some (irq_count lp), lp)"
  by (simp add: ioctl_defs)

lemma ioctl_clean: "zmuav_pl2ps_irq_ioctl b ZMUAV_PL2PS_IRQ_CLEAN_IRQ_COUNT lp = (0, None, lp\<lparr>irq_count := 0\<rparr>)"
  by (simp add: ioctl_defs word_le_nat_alt)

text \<open>Every other command is refused and changes nothing.\<close>

lemma ioctl_other:
  "cmd \<noteq> ZMUAV_PL2PS_IRQ_GET_IRQ_COUNT \<Longrightarrow> cmd \<noteq> ZMUAV_PL2PS_IRQ_CLEAN_IRQ_COUNT \<Longrightarrow>
   zmuav_pl2ps_irq_ioctl b cmd lp = (-25, None, lp)"
  by (simp add: zmuav_pl2ps_irq_ioctl_def)

section \<open>Interrupts between the steps of poll\<close>

text \<open>
  \<open>busy\<close> tells that poll has found the flag set and has not reset it yet.  The log records interrupts, the results of poll and the resets of
  the counter.
\<close>

datatype irq_event = Irq | Polled u32 | Cleaned

inductive irq_steps :: "zmuav_pl2ps_irq \<Rightarrow> irq_event list \<Rightarrow> bool \<Rightarrow> zmuav_pl2ps_irq \<Rightarrow> bool" for lp0 where
  irq_start: "irq_steps lp0 [] False lp0"
| irq_interrupt: "irq_steps lp0 log busy lp \<Longrightarrow> irq_steps lp0 (log @ [Irq]) busy (zmuav_pl2ps_irq_irq lp)"
| irq_found: "irq_steps lp0 log False lp \<Longrightarrow> irq_poll_read lp \<Longrightarrow> irq_steps lp0 log True lp"
| irq_idle: "irq_steps lp0 log False lp \<Longrightarrow> \<not> irq_poll_read lp \<Longrightarrow> irq_steps lp0 (log @ [Polled 0]) False lp"
| irq_reset: "irq_steps lp0 log True lp \<Longrightarrow> irq_poll_reset lp = (rv, lp') \<Longrightarrow>
    irq_steps lp0 (log @ [Polled rv]) False lp'"
| irq_clean: "irq_steps lp0 log busy lp \<Longrightarrow> zmuav_pl2ps_irq_ioctl b ZMUAV_PL2PS_IRQ_CLEAN_IRQ_COUNT lp = (0, r, lp') \<Longrightarrow>
    irq_steps lp0 (log @ [Cleaned]) busy lp'"

definition interrupts :: "irq_event list \<Rightarrow> nat" where
  "interrupts log = length (filter (\<lambda>e. e = Irq) log)"

definition reports :: "irq_event list \<Rightarrow> nat" where
  "reports log = length (filter (\<lambda>e. e = Polled POLL_READY) log)"

definition since :: "irq_event \<Rightarrow> irq_event list \<Rightarrow> irq_event list" where
  "since e log = rev (takeWhile (\<lambda>x. x \<noteq> e) (rev log))"

lemma log_append [simp]:
  "interrupts [] = 0" "reports [] = 0" "since e [] = []"
  "interrupts (log @ [x]) = interrupts log + (if x = Irq then 1 else 0)"
  "reports (log @ [x]) = reports log + (if x = Polled POLL_READY then 1 else 0)"
  "since e (log @ [x]) = (if x = e then [] else since e log @ [x])"
  by (simp_all add: interrupts_def reports_def since_def)

lemma POLL_READY_nonzero [simp]: "POLL_READY \<noteq> 0" "0 \<noteq> POLL_READY"
  by (simp_all add: POLL_READY_def)

lemmas irq_defs = zmuav_pl2ps_irq_irq_def irq_poll_read_def irq_poll_reset_def ioctl_clean

lemma irq_steps_laws:
  assumes "irq_steps lp0 log busy lp" and "irq_occurred lp0 = 0" and "irq_count lp0 = 0"
  shows "reports log + (if busy \<or> irq_occurred lp \<noteq> 0 then 1 else 0) \<le> interrupts log"
    and "Irq \<in> set (since (Polled POLL_READY) log) \<longrightarrow> busy \<or> irq_occurred lp \<noteq> 0"
    and "irq_count lp = of_nat (interrupts (since Cleaned log))"
  using assms by (induction rule: irq_steps.induct) (auto simp: irq_defs split: if_splits)

section \<open>The waiting thread\<close>

text \<open>Interrupts and calls of poll in the order in which they happen, and what the thread sees of them.\<close>

datatype pulse_event = Interrupt | Poll

fun poll_results :: "pulse_event list \<Rightarrow> zmuav_pl2ps_irq \<Rightarrow> pps_poll list" where
  "poll_results [] lp = []"
| "poll_results (Interrupt # es) lp = poll_results es (zmuav_pl2ps_irq_irq lp)"
| "poll_results (Poll # es) lp =
     (case zmuav_pl2ps_irq_poll lp of (rv, lp') \<Rightarrow>
        (if rv = 0 then Pps_Timeout else Pps_Event (rv AND POLL_READY \<noteq> 0)) # poll_results es lp')"

definition pulse_round :: "os \<Rightarrow> server \<Rightarrow> server" where
  "pulse_round os s = process_broadcast_pps os (s\<lparr>sys_calls := Suc (sys_calls s)\<rparr>)"

text \<open>Each interrupt is followed by a poll before the next one.\<close>

fun keeps_up :: "pulse_event list \<Rightarrow> bool" where
  "keeps_up [] \<longleftrightarrow> True"
| "keeps_up (Poll # es) \<longleftrightarrow> keeps_up es"
| "keeps_up (Interrupt # Poll # es) \<longleftrightarrow> keeps_up es"
| "keeps_up (Interrupt # es) \<longleftrightarrow> False"

definition interrupt_count :: "pulse_event list \<Rightarrow> nat" where
  "interrupt_count es = length (filter (\<lambda>e. e = Interrupt) es)"

lemma interrupt_count_simps [simp]:
  "interrupt_count [] = 0" "interrupt_count (Interrupt # es) = Suc (interrupt_count es)"
  "interrupt_count (Poll # es) = interrupt_count es"
  by (simp_all add: interrupt_count_def)

lemma fold_notify_running [simp]: "running (fold (notify_channel m) chs s) = running s"
  by (induction chs arbitrary: s) (simp_all add: notify_channel_def)

lemma pulse_round_running [simp]: "running (pulse_round os s) = running s"
  by (auto simp: pulse_round_def process_broadcast_pps_def gate_set_frame select_broadcast_mask_on_pps_def
      notify_broadcast_channels_def split: prod.split)

lemma pps_irq_loop_rounds:
  "running s \<Longrightarrow> (\<forall>r \<in> set rs. r = Pps_Timeout \<or> r = Pps_Event True) \<Longrightarrow>
   pps_irq_loop os rs s = (pulse_round os ^^ count_list rs (Pps_Event True)) s"
  by (induction rs arbitrary: s)
    (auto simp: pps_irq_round_def pulse_round_def[symmetric] funpow_swap1)

lemma poll_results_kinds: "r \<in> set (poll_results es lp) \<Longrightarrow> r = Pps_Timeout \<or> r = Pps_Event True"
  by (induction es lp rule: poll_results.induct)
    (auto simp: zmuav_pl2ps_irq_poll_def irq_poll_reset_def split: if_splits)

lemma poll_results_bound:
  "count_list (poll_results es lp) (Pps_Event True) \<le> interrupt_count es + (if irq_occurred lp \<noteq> 0 then 1 else 0)"
  by (induction es lp rule: poll_results.induct)
    (fastforce simp: zmuav_pl2ps_irq_poll_def irq_defs split: if_splits)+

lemma poll_results_keeps_up:
  "keeps_up es \<Longrightarrow> irq_occurred lp = 0 \<Longrightarrow> count_list (poll_results es lp) (Pps_Event True) = interrupt_count es"
  by (induction es arbitrary: lp rule: keeps_up.induct)
    (simp_all add: zmuav_pl2ps_irq_poll_def irq_defs POLL_READY_def)

section \<open>Properties\<close>

text \<open>
  C23.  No pulse is lost in the driver, wherever the interrupt falls: after any interleaving of interrupts with the steps of poll
  and resets of the counter, poll has reported readiness at most once per interrupt; while an interrupt has come since the last
  report, the flag is set or the running poll will report; and the counter that the ioctl returns is the number of interrupts since it was last
  reset, modulo \<open>2 ^ 32\<close>.
\<close>

theorem pulses_reported:
  assumes "zmuav_pl2ps_irq_probe k = (0, Some lp0, es)" and "irq_steps lp0 log busy lp"
  shows "reports log \<le> interrupts log \<and>
    (Irq \<in> set (since (Polled POLL_READY) log) \<longrightarrow> busy \<or> fst (zmuav_pl2ps_irq_poll lp) = POLL_READY) \<and>
    zmuav_pl2ps_irq_ioctl True ZMUAV_PL2PS_IRQ_GET_IRQ_COUNT lp = (0, Some (of_nat (interrupts (since Cleaned log))), lp)"
proof -
  have z: "irq_occurred lp0 = 0" "irq_count lp0 = 0"
    using assms(1) by (auto simp: zmuav_pl2ps_irq_probe_def Let_def split: if_splits)
  note l = irq_steps_laws[OF assms(2) z]
  have "irq_occurred lp \<noteq> 0 \<Longrightarrow> fst (zmuav_pl2ps_irq_poll lp) = POLL_READY"
    by (simp add: zmuav_pl2ps_irq_poll_def irq_defs)
  then show ?thesis using l by (auto simp: ioctl_get)
qed

definition demo_kernel :: kernel where
  "demo_kernel = \<lparr>k_malloc = True, k_junk = 7, k_platform_get_irq = 61, k_request_irq = 0, k_alloc_chrdev_region = 0,
     k_device_create = 0, k_cdev_add = 0, k_class_create = 0, k_driver_register = 0\<rparr>"

lemma demo_probe:
  "zmuav_pl2ps_irq_probe demo_kernel = (0, Some \<lparr>irq = 61, irq_count = 0, irq_occurred = 0\<rparr>,
     [Acquire Drvdata, Acquire (Irq_Line 61), Acquire Chrdev_Region, Acquire Device_File, Acquire Char_Device])"
  by (simp add: zmuav_pl2ps_irq_probe_def demo_kernel_def)

text \<open>Two interrupts, the second one in the middle of poll: one report.\<close>

theorem pulses_reported_witness:
  "zmuav_pl2ps_irq_ioctl True ZMUAV_PL2PS_IRQ_GET_IRQ_COUNT \<lparr>irq = 61, irq_count = 2, irq_occurred = 0\<rparr> =
     (0, Some 2, \<lparr>irq = 61, irq_count = 2, irq_occurred = 0\<rparr>)"
proof -
  let ?lp = "\<lambda>c f. \<lparr>irq = 61, irq_count = c, irq_occurred = f\<rparr>"
  have "irq_steps (?lp 0 0) [Irq] False (?lp 1 1)" using irq_interrupt[OF irq_start, of "?lp 0 0"] by (simp add: irq_defs)
  from irq_interrupt[OF irq_found[OF this]]
  have "irq_steps (?lp 0 0) [Irq, Irq] True (?lp 2 1)" by (simp add: irq_defs)
  from irq_reset[OF this] have "irq_steps (?lp 0 0) [Irq, Irq, Polled POLL_READY] False (?lp 2 0)"
    by (simp add: irq_defs)
  from pulses_reported[OF demo_probe this] show ?thesis by (simp add: since_def interrupts_def)
qed

text \<open>
  C24.  The scheduler runs once per pulse: from a successful probe on, the waiting thread runs the scheduler at most as often as
  there were interrupts, and exactly as often when a poll follows each interrupt before the next one.
\<close>

theorem pulse_thread_runs:
  assumes "zmuav_pl2ps_irq_probe k = (0, Some lp, es)" and "running s"
  shows "\<exists>n \<le> interrupt_count events. pps_irq_loop os (poll_results events lp) s = (pulse_round os ^^ n) s \<and>
    (keeps_up events \<longrightarrow> n = interrupt_count events)"
proof -
  have z: "irq_occurred lp = 0"
    using assms(1) by (auto simp: zmuav_pl2ps_irq_probe_def Let_def split: if_splits)
  let ?n = "count_list (poll_results events lp) (Pps_Event True)"
  have "pps_irq_loop os (poll_results events lp) s = (pulse_round os ^^ ?n) s"
    using pps_irq_loop_rounds[OF assms(2)] poll_results_kinds by blast
  moreover have "?n \<le> interrupt_count events" using poll_results_bound[of events lp] z by simp
  ultimately show ?thesis using poll_results_keeps_up[OF _ z] by blast
qed

theorem pulse_thread_runs_witness:
  "\<exists>n. pps_irq_loop demo_os (poll_results [Interrupt, Poll, Poll, Interrupt, Poll] \<lparr>irq = 61, irq_count = 0, irq_occurred = 0\<rparr>) demo_server
     = (pulse_round demo_os ^^ n) demo_server \<and> n = 2"
proof -
  have "running demo_server" by (simp add: demo_server_def boot_server_def)
  from pulse_thread_runs[OF demo_probe this, of "[Interrupt, Poll, Poll, Interrupt, Poll]" demo_os]
  show ?thesis by (auto simp: numeral_2_eq_2 simp del: poll_results.simps)
qed

text \<open>
  C25.  The driver keeps its resources in order: a probe that fails, at whichever step, reports a non-zero error and releases what it had
  acquired, in reverse order; a successful one holds everything and its removal releases all of it.
\<close>

theorem probe_releases_all:
  "case zmuav_pl2ps_irq_probe k of (rc, lp, es) \<Rightarrow>
     (case lp of
        None \<Rightarrow> rc \<noteq> 0 \<and> held [] es = Some []
      | Some d \<Rightarrow> rc = 0 \<and> irq d = k_platform_get_irq k \<and>
          held [] es = Some [Char_Device, Device_File, Chrdev_Region, Irq_Line (irq d), Drvdata] \<and>
          held [] (es @ snd (zmuav_pl2ps_irq_remove d)) = Some [])"
  by (simp add: zmuav_pl2ps_irq_probe_def zmuav_pl2ps_irq_remove_def Let_def)

end
