(* ===== verification/Flashcp.thy ===== *)
theory Flashcp
  imports Can_Prelude
begin

text \<open>
  The flash writer (\<^verbatim>\<open>src/flashcp.c\<close>): input and output that survive interruptions and short transfers, and the sequence
  erase, write, verify of \<open>flashcp_main\<close>.

  The flash device and its driver are the parameter \<open>mtd\<close>, a record of operations on a device state.  What the
  proofs rely on is stated as predicates on that record.  The 64 KB buffer \<open>buf\<close> is always filled before it is used
  and has no counterpart; the verify buffer \<open>buf2\<close> is static, survives from block to block and from call to call, and is an
  argument and a result of \<open>flashcp_main\<close>.  Progress output is not represented.
\<close>

section \<open>Device\<close>

datatype 'a sysres = Ok 'a | Intr | Err

record 'd mtd =
  m_open :: "string \<Rightarrow> u32 \<Rightarrow> u32 \<Rightarrow> 'd \<Rightarrow> int \<times> 'd"
  m_info :: "'d \<Rightarrow> (u32 \<times> u32) option \<times> 'd"
  m_erase :: "u32 \<Rightarrow> u32 \<Rightarrow> 'd \<Rightarrow> int \<times> 'd"
  m_seek :: "int \<Rightarrow> nat \<Rightarrow> 'd \<Rightarrow> int \<times> 'd"
  m_write :: "byte list \<Rightarrow> 'd \<Rightarrow> nat sysres \<times> 'd"
  m_read :: "nat \<Rightarrow> 'd \<Rightarrow> byte list sysres \<times> 'd"
  m_close :: "'d \<Rightarrow> 'd"

abbreviation BUFSIZE :: nat where "BUFSIZE \<equiv> 65536"
abbreviation MAX_RETRY_CNT :: nat where "MAX_RETRY_CNT \<equiv> 10000"

abbreviation O_RDWR :: u32 where "O_RDWR \<equiv> 2"
abbreviation O_SYNC :: u32 where "O_SYNC \<equiv> 0x101000"
abbreviation SEEK_SET :: nat where "SEEK_SET \<equiv> 0"

text \<open>The request: a null pointer is \<open>None\<close>.  The buffer is what is readable behind the pointer.\<close>

record device_info_t =
  devicename :: "string option"
  info_size :: u32
  buff :: "byte list option"

section \<open>Opening and positioning\<close>

definition xopen :: "'d mtd \<Rightarrow> string option \<Rightarrow> u32 \<Rightarrow> 'd \<Rightarrow> int \<times> 'd" where
  "xopen dev pathname flags d =
     (case pathname of
        None \<Rightarrow> (-1, d)
      | Some name \<Rightarrow>
          let mode = (if flags AND O_RDWR \<noteq> 0 then 0x180 else 0) in m_open dev name flags mode d)"

text \<open>A failure is only reported on the console.\<close>

definition xlseek :: "'d mtd \<Rightarrow> int \<Rightarrow> nat \<Rightarrow> 'd \<Rightarrow> int \<times> 'd" where
  "xlseek dev offset whence d = m_seek dev offset whence d"

section \<open>Safe and full transfers\<close>

text \<open>\<open>None\<close> is the result -1.  The loops keep the number of interruptions seen so far.\<close>

function safe_read_loop :: "'d mtd \<Rightarrow> nat \<Rightarrow> nat \<Rightarrow> 'd \<Rightarrow> byte list option \<times> 'd" where
  "safe_read_loop dev count err_cnt d =
     (case m_read dev count d of
        (Ok bytes, d1) \<Rightarrow> (Some bytes, d1)
      | (Err, d1) \<Rightarrow> (None, d1)
      | (Intr, d1) \<Rightarrow> if err_cnt + 1 > MAX_RETRY_CNT then (None, d1) else safe_read_loop dev count (err_cnt + 1) d1)"
  by pat_completeness auto
termination
  by (relation "measure (\<lambda>(dev, count, err_cnt, d). Suc MAX_RETRY_CNT - err_cnt)") auto

definition safe_read :: "'d mtd \<Rightarrow> nat \<Rightarrow> 'd \<Rightarrow> byte list option \<times> 'd" where
  "safe_read dev count d = (if count = 0 then (None, d) else safe_read_loop dev count 0 d)"

function safe_write_loop :: "'d mtd \<Rightarrow> byte list \<Rightarrow> nat \<Rightarrow> 'd \<Rightarrow> nat option \<times> 'd" where
  "safe_write_loop dev buf err_cnt d =
     (case m_write dev buf d of
        (Ok n, d1) \<Rightarrow> (Some n, d1)
      | (Err, d1) \<Rightarrow> (None, d1)
      | (Intr, d1) \<Rightarrow> if err_cnt + 1 > MAX_RETRY_CNT then (None, d1) else safe_write_loop dev buf (err_cnt + 1) d1)"
  by pat_completeness auto
termination
  by (relation "measure (\<lambda>(dev, buf, err_cnt, d). Suc MAX_RETRY_CNT - err_cnt)") auto

declare safe_read_loop.simps [simp del] safe_write_loop.simps [simp del]

definition safe_write :: "'d mtd \<Rightarrow> byte list \<Rightarrow> 'd \<Rightarrow> nat option \<times> 'd" where
  "safe_write dev buf d = (if length buf = 0 then (None, d) else safe_write_loop dev buf 0 d)"

text \<open>A device never transfers more than it was asked for, so the remaining length is an ordinary difference.\<close>

function full_write :: "'d mtd \<Rightarrow> byte list \<Rightarrow> nat \<Rightarrow> 'd \<Rightarrow> nat option \<times> 'd" where
  "full_write dev buf total_len d =
     (if length buf > 0
      then case safe_write dev buf d of
             (None, d1) \<Rightarrow> (if total_len > 0 then Some total_len else None, d1)
           | (Some cc, d1) \<Rightarrow>
               if cc = 0 then (Some total_len, d1) else full_write dev (drop cc buf) (total_len + cc) d1
      else (Some total_len, d))"
  by pat_completeness auto
termination
  by (relation "measure (\<lambda>(dev, buf, total_len, d). length buf)") auto

text \<open>The bytes read so far stand for the part of the buffer that was overwritten.\<close>

function full_read :: "'d mtd \<Rightarrow> nat \<Rightarrow> byte list \<Rightarrow> 'd \<Rightarrow> byte list option \<times> 'd" where
  "full_read dev len got d =
     (if len > 0
      then case safe_read dev len d of
             (None, d1) \<Rightarrow> (if length got > 0 then Some got else None, d1)
           | (Some bytes, d1) \<Rightarrow>
               if length bytes = 0 then (Some got, d1)
               else full_read dev (len - length bytes) (got @ bytes) d1
      else (Some got, d))"
  by pat_completeness auto
termination
  by (relation "measure (\<lambda>(dev, len, got, d). len)") auto

declare full_read.simps [simp del] full_write.simps [simp del]

text \<open>A short read is only reported on the console; the rest of the buffer keeps its contents.\<close>

definition xread :: "'d mtd \<Rightarrow> byte list \<Rightarrow> nat \<Rightarrow> 'd \<Rightarrow> byte list \<times> 'd" where
  "xread dev buf count d =
     (if count = 0 then (buf, d)
      else case full_read dev count [] d of (r, d1) \<Rightarrow>
        (case r of None \<Rightarrow> buf | Some bytes \<Rightarrow> bytes @ drop (length bytes) buf, d1))"

section \<open>Erase, write, verify\<close>

fun erase_blocks :: "'d mtd \<Rightarrow> u32 \<Rightarrow> u32 \<Rightarrow> nat \<Rightarrow> 'd \<Rightarrow> bool \<times> 'd" where
  "erase_blocks dev erasesize start 0 d = (True, d)"
| "erase_blocks dev erasesize start (Suc n) d =
     (case m_erase dev start erasesize d of (rc, d1) \<Rightarrow>
        if rc < 0 then (False, d1) else erase_blocks dev erasesize (start + erasesize) n d1)"

function write_phase :: "'d mtd \<Rightarrow> byte list \<Rightarrow> nat \<Rightarrow> 'd \<Rightarrow> bool \<times> 'd" where
  "write_phase dev data ofs d =
     (if length data - ofs = 0 then (True, d)
      else let count = min BUFSIZE (length data - ofs);
               buf = take count (drop ofs data) @ replicate (BUFSIZE - count) 0xFF
           in case full_write dev buf 0 d of (w_len, d1) \<Rightarrow>
                if w_len \<noteq> Some BUFSIZE then (False, d1) else write_phase dev data (ofs + count) d1)"
  by pat_completeness auto
termination
  by (relation "measure (\<lambda>(dev, data, ofs, d). length data - ofs)") auto

function verify_phase :: "'d mtd \<Rightarrow> byte list \<Rightarrow> nat \<Rightarrow> byte list \<Rightarrow> 'd \<Rightarrow> bool \<times> byte list \<times> 'd" where
  "verify_phase dev data ofs buf2 d =
     (if length data - ofs = 0 then (True, buf2, d)
      else let count = min BUFSIZE (length data - ofs);
               buf = take count (drop ofs data)
           in case xread dev buf2 count d of (buf2, d1) \<Rightarrow>
                if take count buf2 \<noteq> buf then (False, buf2, d1)
                else verify_phase dev data (ofs + count) buf2 d1)"
  by pat_completeness auto
termination
  by (relation "measure (\<lambda>(dev, data, ofs, buf2, d). length data - ofs)") auto

declare write_phase.simps [simp del] verify_phase.simps [simp del]

text \<open>
  The data are the first \<open>info_size\<close> bytes behind the pointer.  A flash device has a positive erase size; the result of \<open>xlseek\<close> is ignored, as in the code.
\<close>

definition flashcp_main :: "'d mtd \<Rightarrow> device_info_t option \<Rightarrow> byte list \<Rightarrow> 'd \<Rightarrow> int \<times> byte list \<times> 'd" where
  "flashcp_main dev info_ptr buf2 d =
     (case info_ptr of None \<Rightarrow> (-1, buf2, d) | Some info \<Rightarrow>
      if devicename info = None \<or> buff info = None then (-1, buf2, d)
      else if info_size info = 0 then (-1, buf2, d)
      else let data = take (unat (info_size info)) (the (buff info)) in
      case xopen dev (devicename info) (O_SYNC OR O_RDWR) d of (fd_d, d1) \<Rightarrow>
      if fd_d < 0 then (-1, buf2, d1)
      else case m_info dev d1 of
        (None, d2) \<Rightarrow> (-2, buf2, m_close dev d2)
      | (Some (mtd_size, erasesize), d2) \<Rightarrow>
          if info_size info > mtd_size then (-2, buf2, m_close dev d2)
          else let erase_count = unat ((info_size info + erasesize - 1) div erasesize)
          in case erase_blocks dev erasesize 0 erase_count d2 of (ok, d3) \<Rightarrow>
            if \<not> ok then (-3, buf2, m_close dev d3)
            else case write_phase dev data 0 (snd (xlseek dev 0 SEEK_SET d3)) of (ok, d4) \<Rightarrow>
              if \<not> ok then (-4, buf2, m_close dev d4)
              else case verify_phase dev data 0 buf2 (snd (xlseek dev 0 SEEK_SET d4)) of (ok, buf2, d5) \<Rightarrow>
                if \<not> ok then (-5, buf2, m_close dev d5) else (0, buf2, m_close dev d5))"

section \<open>What the device promises\<close>

text \<open>
  The documented behaviour of reading: a read returns the bytes at the current position and moves it, an
  interrupted read changes nothing, and nothing but writing and erasing changes the contents.
  \<open>reads_complete\<close> adds that the position can be set and that inside the device a read is neither refused nor empty; \<open>keeps_size\<close> that the device has
  the size it reports and keeps it.
\<close>

definition reads_back :: "'d mtd \<Rightarrow> ('d \<Rightarrow> byte list) \<Rightarrow> ('d \<Rightarrow> nat) \<Rightarrow> bool" where
  "reads_back dev content pos \<longleftrightarrow>
     (\<forall>d r d1. m_seek dev 0 SEEK_SET d = (r, d1) \<longrightarrow> content d1 = content d \<and> (r \<ge> 0 \<longrightarrow> pos d1 = 0)) \<and> (\<forall>d. content (m_close dev d) = content d) \<and>
     (\<forall>k d r d1. m_read dev k d = (r, d1) \<longrightarrow> content d1 = content d \<and>
        (case r of Ok bs \<Rightarrow> bs = take (length bs) (drop (pos d) (content d)) \<and> length bs \<le> k \<and> pos d1 = pos d + length bs
         | _ \<Rightarrow> pos d1 = pos d))"

definition reads_complete :: "'d mtd \<Rightarrow> ('d \<Rightarrow> byte list) \<Rightarrow> ('d \<Rightarrow> nat) \<Rightarrow> bool" where
  "reads_complete dev content pos \<longleftrightarrow>
     (\<forall>d. fst (m_seek dev 0 SEEK_SET d) \<ge> 0) \<and>
     (\<forall>k d. 0 < k \<and> pos d + k \<le> length (content d) \<longrightarrow> (\<exists>bs. fst (m_read dev k d) = Ok bs \<and> bs \<noteq> []))"

definition keeps_size :: "'d mtd \<Rightarrow> ('d \<Rightarrow> byte list) \<Rightarrow> bool" where
  "keeps_size dev content \<longleftrightarrow>
     (\<forall>d sz es d1. m_info dev d = (Some (sz, es), d1) \<longrightarrow> length (content d1) = unat sz) \<and>
     (\<forall>a n d. length (content (snd (m_erase dev a n d))) = length (content d)) \<and>
     (\<forall>bs d. length (content (snd (m_write dev bs d))) = length (content d))"

lemma xlseek_start:
  assumes "reads_back dev content pos" "reads_complete dev content pos"
  shows "content (snd (xlseek dev 0 SEEK_SET d)) = content d" "pos (snd (xlseek dev 0 SEEK_SET d)) = 0"
proof -
  obtain r d1 where m: "m_seek dev 0 SEEK_SET d = (r, d1)" by fastforce
  have "fst (m_seek dev 0 SEEK_SET d) \<ge> 0" using assms(2) unfolding reads_complete_def by blast
  then have r: "r \<ge> 0" using m by simp
  have "content d1 = content d \<and> (r \<ge> 0 \<longrightarrow> pos d1 = 0)" using assms(1) m unfolding reads_back_def by blast
  then show "content (snd (xlseek dev 0 SEEK_SET d)) = content d" "pos (snd (xlseek dev 0 SEEK_SET d)) = 0"
    using m r by (simp_all add: xlseek_def)
qed

lemma safe_read_complete:
  assumes "reads_back dev content pos" "reads_complete dev content pos" "0 < k" "pos d + k \<le> length (content d)"
  shows "\<exists>n d1. safe_read dev k d = (Some (take n (drop (pos d) (content d))), d1) \<and> 0 < n \<and> n \<le> k \<and>
    content d1 = content d \<and> pos d1 = pos d + n"
proof -
  obtain bs d1 where r: "m_read dev k d = (Ok bs, d1)" "bs \<noteq> []"
    using assms(2-4) unfolding reads_complete_def by (metis prod.collapse)
  then have "bs = take (length bs) (drop (pos d) (content d)) \<and> length bs \<le> k \<and> pos d1 = pos d + length bs \<and> content d1 = content d"
    using assms(1) unfolding reads_back_def by fastforce
  then show ?thesis
    using r assms(3) by (intro exI[of _ "length bs"] exI[of _ d1]) (simp add: safe_read_def safe_read_loop.simps)
qed

lemma full_read_complete:
  assumes "reads_back dev content pos" "reads_complete dev content pos" "pos d + k \<le> length (content d)"
  shows "\<exists>d1. full_read dev k got d = (Some (got @ take k (drop (pos d) (content d))), d1) \<and>
    content d1 = content d \<and> pos d1 = pos d + k"
  using assms(3)
proof (induction k arbitrary: got d rule: less_induct)
  case (less k)
  show ?case
  proof (cases "k = 0")
    case True
    then show ?thesis by (simp add: full_read.simps)
  next
    case False
    then obtain n d1 where n: "safe_read dev k d = (Some (take n (drop (pos d) (content d))), d1)" "0 < n" "n \<le> k"
        "content d1 = content d" "pos d1 = pos d + n"
      using safe_read_complete[OF assms(1,2) _ less.prems] by auto
    have l: "length (take n (drop (pos d) (content d))) = n" using less.prems n(3) by simp
    have "take n (drop (pos d) (content d)) @ take (k - n) (drop (pos d + n) (content d)) = take k (drop (pos d) (content d))"
      using n(3) take_add[of n "k - n" "drop (pos d) (content d)"] by (simp add: add.commute)
    then show ?thesis
      using less.IH[of "k - n" d1 "got @ take n (drop (pos d) (content d))"] less.prems n l False
      by (subst full_read.simps) simp
  qed
qed

lemma xread_complete:
  assumes "reads_back dev content pos" "reads_complete dev content pos" "pos d + k \<le> length (content d)"
    and "xread dev buf k d = (buf', d1)"
  shows "take k buf' = take k (drop (pos d) (content d)) \<and> content d1 = content d \<and> pos d1 = pos d + k"
proof (cases "k = 0")
  case False
  then show ?thesis using assms(3,4) full_read_complete[OF assms(1-3), of "[]"] by (auto simp: xread_def)
qed (use assms(4) in \<open>simp add: xread_def\<close>)

lemma verify_phase_sound:
  assumes "reads_back dev content pos" "reads_complete dev content pos"
    and "verify_phase dev data ofs buf2 d = (True, buf2', d')" "pos d = ofs" "length data \<le> length (content d)"
  shows "drop ofs (take (length data) (content d)) = drop ofs data \<and> content d' = content d"
  using assms(3-5)
proof (induction "length data - ofs" arbitrary: ofs buf2 d rule: less_induct)
  case less
  show ?case
  proof (cases "length data - ofs = 0")
    case True
    then show ?thesis using less.prems(1) by (simp add: verify_phase.simps)
  next
    case False
    let ?n = "min BUFSIZE (length data - ofs)"
    obtain b1 d1 where x: "xread dev buf2 ?n d = (b1, d1)" by fastforce
    have "pos d + ?n \<le> length (content d)" using less.prems(2,3) False by simp
    from xread_complete[OF assms(1,2) this x]
    have p: "take ?n b1 = take ?n (drop ofs (content d))" "content d1 = content d" "pos d1 = ofs + ?n"
      using less.prems(2) by simp_all
    have v: "take ?n b1 = take ?n (drop ofs data)" "verify_phase dev data (ofs + ?n) b1 d1 = (True, buf2', d')"
      using less.prems(1) False x by (auto simp: verify_phase.simps[of dev data ofs] Let_def split: if_splits)
    have ih: "drop (ofs + ?n) (take (length data) (content d)) = drop (ofs + ?n) data \<and> content d' = content d"
      using less.hyps[OF _ v(2) p(3)] False less.prems(3) p(2) by simp
    have "take ?n (drop ofs (take (length data) (content d))) = take ?n (drop ofs (content d))"
      by (simp add: drop_take)
    then have "take ?n (drop ofs (take (length data) (content d))) = take ?n (drop ofs data)"
      using p(1) v(1) by simp
    then have "drop ofs (take (length data) (content d)) = drop ofs data"
      using ih by (metis append_take_drop_id drop_drop add.commute)
    then show ?thesis using ih by simp
  qed
qed

lemma erase_size: "keeps_size dev content \<Longrightarrow> length (content (snd (erase_blocks dev es a n d))) = length (content d)"
proof (induction n arbitrary: a d)
  case (Suc n)
  obtain rc d1 where e: "m_erase dev a es d = (rc, d1)" by fastforce
  then have "length (content d1) = length (content d)" using Suc.prems unfolding keeps_size_def by (metis snd_conv)
  then show ?case using Suc e by simp
qed simp

text \<open>What every write keeps, the write loops keep.\<close>

lemma safe_write_keeps:
  assumes "\<And>bs d. P d \<Longrightarrow> P (snd (m_write dev bs d))" "P d"
  shows "P (snd (safe_write dev buf d))"
proof -
  have "P (snd (safe_write_loop dev buf e d))" for e
    using assms(2)
  proof (induction "Suc MAX_RETRY_CNT - e" arbitrary: e d rule: less_induct)
    case less
    obtain r d1 where r: "m_write dev buf d = (r, d1)" by fastforce
    then have "P d1" using assms(1)[OF less.prems, of buf] by simp
    then show ?case
      using less.hyps[of "e + 1" d1] by (subst safe_write_loop.simps) (cases r; simp add: r)
  qed
  then show ?thesis using assms(2) by (simp add: safe_write_def)
qed

lemma full_write_keeps:
  assumes "\<And>bs d. P d \<Longrightarrow> P (snd (m_write dev bs d))" "P d"
  shows "P (snd (full_write dev buf n d))"
  using assms(2)
proof (induction "length buf" arbitrary: buf n d rule: less_induct)
  case less
  obtain r d1 where r: "safe_write dev buf d = (r, d1)" by fastforce
  then have "P d1" using safe_write_keeps[of P dev d buf] assms(1) less.prems by simp
  then show ?case
    using less.hyps[of "drop (the r) buf" d1 "n + the r"] less.prems
    by (subst full_write.simps) (cases r; simp add: r)
qed

lemma write_phase_keeps:
  assumes "\<And>bs d. P d \<Longrightarrow> P (snd (m_write dev bs d))" "P d"
  shows "P (snd (write_phase dev data ofs d))"
  using assms(2)
proof (induction "length data - ofs" arbitrary: ofs d rule: less_induct)
  case less
  let ?n = "min BUFSIZE (length data - ofs)"
  let ?b = "take ?n (drop ofs data) @ replicate (BUFSIZE - ?n) 0xFF"
  obtain r d1 where r: "full_write dev ?b 0 d = (r, d1)" by fastforce
  then have "P d1" using full_write_keeps[of P dev d ?b 0] assms(1) less.prems by simp
  then show ?case
    using less.hyps[of "ofs + ?n" d1] less.prems by (subst write_phase.simps) (auto simp: Let_def r)
qed

section \<open>Properties\<close>

text \<open>
  C17.  Success means that the flash holds the data: when \<open>flashcp_main\<close> returns 0 on a device that reads back what it holds
  and completes its requests, the first bytes of the device are the data of the caller.
\<close>

theorem flashcp_success_verified:
  assumes "reads_back dev content pos" and "reads_complete dev content pos" and "keeps_size dev content"
    and "flashcp_main dev (Some \<lparr>devicename = Some name, info_size = n, buff = Some data\<rparr>) buf2 d = (0, buf2', d')"
    and "unat n \<le> length data"
  shows "take (unat n) (content d') = take (unat n) data"
proof -
  let ?data = "take (unat n) data"
  obtain d1 sz es d2 d3 d4 d5 where o: "m_info dev d1 = (Some (sz, es), d2)" "unat n \<le> unat sz"
    and e: "erase_blocks dev es 0 (unat ((n + es - 1) div es)) d2 = (True, d3)"
    and w: "write_phase dev ?data 0 (snd (xlseek dev 0 SEEK_SET d3)) = (True, d4)"
    and v: "verify_phase dev ?data 0 buf2 (snd (xlseek dev 0 SEEK_SET d4)) = (True, buf2', d5)" and d': "d' = m_close dev d5"
    using assms(4)
    by (auto simp: flashcp_main_def Let_def word_le_nat_alt word_less_nat_alt not_less split: if_splits prod.splits option.splits)
  have len: "length ?data = unat n" using assms(5) by simp
  have "length (content d2) = unat sz" using assms(3) o(1) unfolding keeps_size_def by blast
  then have "length (content d3) = unat sz" using erase_size[OF assms(3), of es 0 _ d2] e by (metis snd_conv)
  then have "length (content (snd (xlseek dev 0 SEEK_SET d3))) = unat sz" by (simp add: xlseek_start[OF assms(1,2)])
  then have "length (content d4) = unat sz"
    using write_phase_keeps[of "\<lambda>d. length (content d) = unat sz" dev "snd (xlseek dev 0 SEEK_SET d3)" ?data 0] assms(3) w
    by (simp add: keeps_size_def)
  then have l: "length ?data \<le> length (content (snd (xlseek dev 0 SEEK_SET d4)))"
    unfolding len xlseek_start(1)[OF assms(1,2)] using o(2) by simp
  have "content d' = content d5" using assms(1) d' by (simp add: reads_back_def)
  then show ?thesis
    using verify_phase_sound[OF assms(1,2) v xlseek_start(2)[OF assms(1,2)] l] len xlseek_start(1)[OF assms(1,2)] by simp
qed

text \<open>A device in memory: contents and position.\<close>

definition ram_mtd :: "(byte list \<times> nat) mtd" where
  "ram_mtd = \<lparr>m_open = (\<lambda>name flags mode d. (3, d)),
     m_info = (\<lambda>d. (if length (fst d) < 2 ^ 32 then Some (of_nat (length (fst d)), 16) else None, d)),
     m_erase = (\<lambda>a n (c, p). (0, take (unat a) c @ replicate (min (unat n) (length c - unat a)) 0xFF @ drop (unat a + unat n) c, p)),
     m_seek = (\<lambda>n whence (c, p). (n, c, nat n)),
     m_write = (\<lambda>bs (c, p). let n = min (length bs) (length c - p) in (Ok n, take p c @ take n bs @ drop (p + n) c, p + n)),
     m_read = (\<lambda>k (c, p). let bs = take k (drop p c) in (Ok bs, c, p + length bs)),
     m_close = (\<lambda>d. d)\<rparr>"

lemma ram_simps:
  "m_open ram_mtd name flags mode d = (3, d)" "m_close ram_mtd d = d" "m_seek ram_mtd n whence (c, p) = (n, c, nat n)"
  "m_info ram_mtd d = (if length (fst d) < 2 ^ 32 then Some (of_nat (length (fst d)), 16) else None, d)"
  "m_erase ram_mtd a len (c, p) =
     (0, take (unat a) c @ replicate (min (unat len) (length c - unat a)) 0xFF @ drop (unat a + unat len) c, p)"
  "m_write ram_mtd bs (c, p) = (let n = min (length bs) (length c - p) in (Ok n, take p c @ take n bs @ drop (p + n) c, p + n))"
  "m_read ram_mtd k (c, p) = (Ok (take k (drop p c)), c, p + length (take k (drop p c)))"
  by (simp_all add: ram_mtd_def Let_def)

lemma take_min_length: "take (min (length c - p) k) (drop p c) = take k (drop p c)"
  by (simp add: min_def)

lemma ram_laws: "reads_back ram_mtd fst snd" "reads_complete ram_mtd fst snd" "keeps_size ram_mtd fst"
  by (auto simp: reads_back_def reads_complete_def keeps_size_def ram_simps Let_def take_min_length unat_of_nat
      take_bit_nat_eq_self split: if_splits)

lemma ram_write: "length bs = BUFSIZE \<Longrightarrow> full_write ram_mtd bs 0 (replicate BUFSIZE x, 0) = (Some BUFSIZE, bs, BUFSIZE)"
  by (simp add: full_write.simps[of ram_mtd bs] safe_write_def safe_write_loop.simps[of ram_mtd bs] ram_simps Let_def
      full_write.simps[of ram_mtd "[]"])

lemma ram_full_read: "full_read ram_mtd 3 [] (a # b # c # bs, 0) = (Some [a, b, c], a # b # c # bs, 3)"
  by (simp add: full_read.simps[of ram_mtd 3] safe_read_def safe_read_loop.simps[of ram_mtd 3] ram_simps
      full_read.simps[of ram_mtd 0])

theorem flashcp_success_verified_witness:
  "\<exists>buf2 d. flashcp_main ram_mtd (Some \<lparr>devicename = Some ''/dev/mtd0'', info_size = 3, buff = Some [1, 2, 3]\<rparr>) []
       (replicate BUFSIZE 0xFF, 0) = (0, buf2, d) \<and> take 3 (fst d) = [1, 2, 3]"
proof -
  let ?d = "(replicate BUFSIZE 0xFF, 0) :: byte list \<times> nat" and ?data = "[1, 2, 3] :: byte list"
  have e: "erase_blocks ram_mtd 16 0 1 ?d = (True, ?d)" by (simp add: ram_simps flip: replicate_add)
  have w: "write_phase ram_mtd ?data 0 ?d = (True, ?data @ replicate 65533 0xFF, BUFSIZE)"
    using ram_write[where bs = "?data @ replicate 65533 0xFF" and x = "0xFF"]
    by (simp add: write_phase.simps[of ram_mtd ?data 0] write_phase.simps[of ram_mtd ?data "Suc (Suc (Suc 0))"] Let_def)
  have v: "verify_phase ram_mtd ?data 0 [] (?data @ replicate 65533 0xFF, 0) = (True, ?data, ?data @ replicate 65533 0xFF, 3)"
    using ram_full_read[where bs = "replicate 65533 0xFF"]
    by (simp add: verify_phase.simps[of ram_mtd ?data 0] verify_phase.simps[of ram_mtd ?data "Suc (Suc (Suc 0))"] xread_def Let_def numeral_3_eq_3)
  have r: "flashcp_main ram_mtd (Some \<lparr>devicename = Some ''/dev/mtd0'', info_size = 3, buff = Some ?data\<rparr>) [] ?d =
      (0, ?data, ?data @ replicate 65533 0xFF, 3)"
    using e w v by (simp add: flashcp_main_def ram_simps Let_def xopen_def xlseek_def)
  then show ?thesis using flashcp_success_verified[OF ram_laws r] by auto
qed

lemma safe_write_calls:
  assumes "\<And>bs d. calls (snd (m_write dev bs d)) = Suc (calls d)"
  shows "calls (snd (safe_write dev buf d)) \<le> calls d + Suc MAX_RETRY_CNT"
proof -
  have "calls (snd (safe_write_loop dev buf e d)) \<le> calls d + (Suc MAX_RETRY_CNT - e)" if "e \<le> MAX_RETRY_CNT" for e
    using that
  proof (induction "Suc MAX_RETRY_CNT - e" arbitrary: e d rule: less_induct)
    case less
    obtain r d1 where r: "m_write dev buf d = (r, d1)" by fastforce
    then have "calls d1 = Suc (calls d)" using assms[of buf d] by simp
    moreover have "calls (snd (safe_write_loop dev buf (e + 1) d1)) \<le> calls d1 + (Suc MAX_RETRY_CNT - (e + 1))"
      if "e < MAX_RETRY_CNT" using that by (intro less.hyps) auto
    ultimately show ?case
      using less.prems by (subst safe_write_loop.simps) (cases r; auto simp: r)
  qed
  from this[of 0] show ?thesis by (simp add: safe_write_def)
qed

lemma full_write_calls:
  assumes "\<And>bs d. calls (snd (m_write dev bs d)) = Suc (calls d)"
  shows "calls (snd (full_write dev buf n d)) \<le> calls d + Suc MAX_RETRY_CNT * length buf"
proof (induction "length buf" arbitrary: buf n d rule: less_induct)
  case less
  obtain r d1 where r: "safe_write dev buf d = (r, d1)" by fastforce
  then have c: "calls d1 \<le> calls d + Suc MAX_RETRY_CNT" using safe_write_calls[of calls dev buf d] assms by simp
  show ?case
  proof (cases "buf \<noteq> [] \<and> r \<noteq> None \<and> the r \<noteq> 0")
    case True
    then obtain k where k: "r = Some k" "0 < k" by auto
    have "calls (snd (full_write dev (drop k buf) (n + k) d1)) \<le> calls d1 + Suc MAX_RETRY_CNT * (length buf - k)"
      using less.hyps[of "drop k buf" "n + k" d1] True k by simp
    moreover have "Suc MAX_RETRY_CNT * (length buf - k) + Suc MAX_RETRY_CNT \<le> Suc MAX_RETRY_CNT * length buf"
      using True k(2) by (cases "length buf") auto
    ultimately show ?thesis using True k c by (subst full_write.simps) (simp add: r)
  next
    case False
    then have "full_write dev buf n d = (if buf = [] then (Some n, d) else (if r = None \<and> n = 0 then None else Some n, d1))"
      by (subst full_write.simps) (cases r; auto simp: r)
    then show ?thesis using c by (cases buf) simp_all
  qed
qed

text \<open>
  C40.  Writing ends: whatever the device answers, each block of 64 KB costs at most 10001 device writes per byte, so the
  write phase gives up or finishes after a bounded number of device writes, even on a device that is interrupted or stops
  short all the time.
\<close>

theorem write_phase_bounded:
  assumes "\<forall>bs d. calls (snd (m_write dev bs d)) = Suc (calls d)"
  shows "calls (snd (write_phase dev data ofs d)) \<le>
    calls d + Suc MAX_RETRY_CNT * BUFSIZE * ((length data - ofs + (BUFSIZE - 1)) div BUFSIZE)"
proof (induction "length data - ofs" arbitrary: ofs d rule: less_induct)
  case less
  let ?n = "min BUFSIZE (length data - ofs)"
  let ?b = "take ?n (drop ofs data) @ replicate (BUFSIZE - ?n) 0xFF"
  let ?blocks = "\<lambda>k. (length data - k + (BUFSIZE - 1)) div BUFSIZE"
  obtain r d1 where r: "full_write dev ?b 0 d = (r, d1)" by fastforce
  have "length ?b = BUFSIZE" by simp
  then have c: "calls d1 \<le> calls d + Suc MAX_RETRY_CNT * BUFSIZE"
    using full_write_calls[of calls dev ?b 0 d] assms unfolding r by simp
  show ?case
  proof (cases "length data - ofs = 0")
    case False
    have k: "?blocks ofs = Suc (?blocks (ofs + ?n))"
    proof (cases "length data - ofs \<le> BUFSIZE")
      case True
      then show ?thesis using False by (simp add: div_nat_eqI)
    next
      case big: False
      then have "length data - ofs + (BUFSIZE - 1) = (length data - (ofs + ?n) + (BUFSIZE - 1)) + BUFSIZE" by simp
      then show ?thesis by (simp only: div_add_self2)
    qed
    have "calls (snd (write_phase dev data (ofs + ?n) d1)) \<le>
        calls d1 + Suc MAX_RETRY_CNT * BUFSIZE * ?blocks (ofs + ?n)"
      using False by (intro less) simp
    then show ?thesis
      using c False unfolding k by (subst write_phase.simps) (auto simp: Let_def r)
  qed (simp add: write_phase.simps)
qed

theorem write_phase_bounded_witness:
  "snd (snd (write_phase (ram_mtd\<lparr>m_write := \<lambda>bs (c, p). (Intr, c, Suc p)\<rparr>) [7] 0 ([], 0))) \<le> 10001 * BUFSIZE"
  using write_phase_bounded[of snd "ram_mtd\<lparr>m_write := \<lambda>bs (c, p). (Intr, c, Suc p)\<rparr>" "[7]" 0 "([], 0)"] by simp

text \<open>
  The verify phase ignores failed reads: the static buffer starts out as zeros, so an image of zeros is
  reported as verified on a device that cannot be read at all.
\<close>

lemma failed_reads_verify_zeros:
  assumes "\<forall>k d. m_read dev k d = (Err, d)"
  shows "verify_phase dev (replicate n 0) ofs (replicate BUFSIZE 0) d = (True, replicate BUFSIZE 0, d)"
proof (induction "n - ofs" arbitrary: ofs rule: less_induct)
  case less
  have r: "full_read dev k [] d = (None, d)" if "0 < k" for k
    using that assms by (simp add: full_read.simps[of dev k] safe_read_def safe_read_loop.simps[of dev k])
  show ?case
    using less[of "ofs + min BUFSIZE (n - ofs)"]
    by (subst verify_phase.simps) (auto simp: xread_def r Let_def min_def)
qed

end
