(* ===== verification/Ring_Concurrent.thy ===== *)
theory Ring_Concurrent
  imports Ring_Buffer
begin

text \<open>
  One ring buffer used by two threads at once (\<^verbatim>\<open>src/ringbuffer_channels.c\<close>): the producer runs \<open>ringbuffer_put\<close> and the consumer
  \<open>ringbuffer_get\<close>, without a lock.

  A call is cut into the accesses to shared memory that other threads can observe: the test of the indices, the transfer of each single
  byte, and the update of the own index.  The order of these accesses is the one of the source, which the memory barriers
  after the transfers keep for the update of the index.  \<open>conc_steps\<close> are all interleavings of any number of producers and
  consumers; the theorem is about one of each, and the lemma before it shows why.
\<close>

section \<open>The steps of a call\<close>

datatype put_pc = P_Idle | P_Copy "byte list" u32 nat

datatype get_pc = G_Idle | G_Copy u32 "byte list"

record conc_ring =
  cr_rb :: ring_buffer_t
  cr_put :: "nat \<Rightarrow> put_pc"
  cr_get :: "nat \<Rightarrow> get_pc"

type_synonym call_log = "(byte list fifo_op \<times> byte list fifo_out) list"

text \<open>The place in the buffer of byte \<open>k\<close> of the element with index \<open>off\<close>, across the end of the buffer.\<close>

definition copy_addr :: "ring_buffer_t \<Rightarrow> u32 \<Rightarrow> nat \<Rightarrow> nat" where
  "copy_addr rb off k =
     (let elem_total = rb_mask rb + 1;
          off_bytes = (off AND rb_mask rb) * rb_esize rb;
          first_copy = min (rb_esize rb) (elem_total * rb_esize rb - off_bytes)
      in if k < unat first_copy then unat off_bytes + k else k - unat first_copy)"

definition put_call :: "nat \<Rightarrow> byte list \<Rightarrow> conc_ring \<Rightarrow> call_log \<times> conc_ring" where
  "put_call t src s =
     (if 1 > ringbuffer_unused (cr_rb s) then ([(Put src, Stored False)], s)
      else ([], s\<lparr>cr_put := (cr_put s)(t := P_Copy src (rb_in (cr_rb s)) 0)\<rparr>))"

definition write_byte :: "ring_buffer_t \<Rightarrow> byte list \<Rightarrow> u32 \<Rightarrow> nat \<Rightarrow> ring_buffer_t" where
  "write_byte rb src off k = rb\<lparr>rb_data := (rb_data rb)[copy_addr rb off k := src ! k]\<rparr>"

definition put_byte :: "nat \<Rightarrow> byte list \<Rightarrow> u32 \<Rightarrow> nat \<Rightarrow> conc_ring \<Rightarrow> conc_ring" where
  "put_byte t src off k s =
     s\<lparr>cr_rb := write_byte (cr_rb s) src off k, cr_put := (cr_put s)(t := P_Copy src off (Suc k))\<rparr>"

definition put_return :: "nat \<Rightarrow> byte list \<Rightarrow> conc_ring \<Rightarrow> call_log \<times> conc_ring" where
  "put_return t src s =
     ([(Put src, Stored True)],
      s\<lparr>cr_rb := (cr_rb s)\<lparr>rb_in := rb_in (cr_rb s) + 1\<rparr>, cr_put := (cr_put s)(t := P_Idle)\<rparr>)"

definition get_call :: "nat \<Rightarrow> conc_ring \<Rightarrow> call_log \<times> conc_ring" where
  "get_call t s =
     (if min 1 (rb_in (cr_rb s) - rb_out (cr_rb s)) = 0 then ([(Get, Fetched None)], s)
      else ([], s\<lparr>cr_get := (cr_get s)(t := G_Copy (rb_out (cr_rb s)) [])\<rparr>))"

definition get_byte :: "nat \<Rightarrow> u32 \<Rightarrow> byte list \<Rightarrow> conc_ring \<Rightarrow> conc_ring" where
  "get_byte t off buf s =
     s\<lparr>cr_get := (cr_get s)(t := G_Copy off (buf @ [rb_data (cr_rb s) ! copy_addr (cr_rb s) off (length buf)]))\<rparr>"

definition get_return :: "nat \<Rightarrow> byte list \<Rightarrow> conc_ring \<Rightarrow> call_log \<times> conc_ring" where
  "get_return t buf s =
     ([(Get, Fetched (Some buf))],
      s\<lparr>cr_rb := (cr_rb s)\<lparr>rb_out := rb_out (cr_rb s) + 1\<rparr>, cr_get := (cr_get s)(t := G_Idle)\<rparr>)"

section \<open>Interleavings\<close>

inductive conc_steps :: "nat set \<Rightarrow> nat set \<Rightarrow> conc_ring \<Rightarrow> call_log \<Rightarrow> conc_ring \<Rightarrow> bool" for ps cs s0 where
  conc_start: "conc_steps ps cs s0 [] s0"
| conc_put_call: "conc_steps ps cs s0 log s \<Longrightarrow> t \<in> ps \<Longrightarrow> cr_put s t = P_Idle \<Longrightarrow>
    length src = unat (rb_esize (cr_rb s)) \<Longrightarrow> put_call t src s = (ev, s') \<Longrightarrow> conc_steps ps cs s0 (log @ ev) s'"
| conc_put_byte: "conc_steps ps cs s0 log s \<Longrightarrow> t \<in> ps \<Longrightarrow> cr_put s t = P_Copy src off k \<Longrightarrow>
    k < unat (rb_esize (cr_rb s)) \<Longrightarrow> conc_steps ps cs s0 log (put_byte t src off k s)"
| conc_put_return: "conc_steps ps cs s0 log s \<Longrightarrow> t \<in> ps \<Longrightarrow> cr_put s t = P_Copy src off k \<Longrightarrow>
    k = unat (rb_esize (cr_rb s)) \<Longrightarrow> put_return t src s = (ev, s') \<Longrightarrow> conc_steps ps cs s0 (log @ ev) s'"
| conc_get_call: "conc_steps ps cs s0 log s \<Longrightarrow> t \<in> cs \<Longrightarrow> cr_get s t = G_Idle \<Longrightarrow>
    get_call t s = (ev, s') \<Longrightarrow> conc_steps ps cs s0 (log @ ev) s'"
| conc_get_byte: "conc_steps ps cs s0 log s \<Longrightarrow> t \<in> cs \<Longrightarrow> cr_get s t = G_Copy off buf \<Longrightarrow>
    length buf < unat (rb_esize (cr_rb s)) \<Longrightarrow> conc_steps ps cs s0 log (get_byte t off buf s)"
| conc_get_return: "conc_steps ps cs s0 log s \<Longrightarrow> t \<in> cs \<Longrightarrow> cr_get s t = G_Copy off buf \<Longrightarrow>
    length buf = unat (rb_esize (cr_rb s)) \<Longrightarrow> get_return t buf s = (ev, s') \<Longrightarrow> conc_steps ps cs s0 (log @ ev) s'"

definition idle_ring :: "ring_buffer_t \<Rightarrow> conc_ring" where
  "idle_ring r = \<lparr>cr_rb = r, cr_put = (\<lambda>_. P_Idle), cr_get = (\<lambda>_. G_Idle)\<rparr>"

section \<open>Bytes of an element\<close>

lemma copy_addr_eq:
  assumes "rb_inv rb" and "k < unat (rb_esize rb)"
  shows "copy_addr rb off k = (unat off mod rb_capacity rb) * unat (rb_esize rb) + k"
  using rb_offsets[OF assms(1), of off] assms(2) by (simp add: copy_addr_def Let_def)

lemma write_byte_fields [simp]:
  "rb_in (write_byte r src off k) = rb_in r" "rb_out (write_byte r src off k) = rb_out r"
  "rb_mask (write_byte r src off k) = rb_mask r" "rb_esize (write_byte r src off k) = rb_esize r"
  "rb_capacity (write_byte r src off k) = rb_capacity r" "rb_count (write_byte r src off k) = rb_count r"
  "length (rb_data (write_byte r src off k)) = length (rb_data r)"
  by (simp_all add: write_byte_def rb_capacity_def rb_count_def)

lemma write_byte_inv [simp]: "rb_inv (write_byte r src off k) = rb_inv r"
  by (simp add: rb_inv_def)

lemma slot_update:
  assumes "length d = c * e" and "i < c" "j < (c::nat)" and "k < e"
  shows "take e (drop (i * e) (d[j * e + k := b])) =
    (if i = j then (take e (drop (i * e) d))[k := b] else take e (drop (i * e) d))"
proof (cases i j rule: linorder_cases)
  case less
  have "i * e + e \<le> j * e" using slot_end_le[OF less] .
  then show ?thesis using less by (simp add: take_drop)
next
  case equal
  have "k + j * e < length d" using slot_end_le[OF assms(3), of e] assms(1,4) by simp
  then show ?thesis using equal assms(4) by (simp add: drop_update_swap take_update_swap)
next
  case greater
  have "j * e + e \<le> i * e" using slot_end_le[OF greater] .
  then show ?thesis using greater assms(4) by (simp add: drop_update_cancel)
qed

lemma write_byte_slot:
  assumes "rb_inv r" and "k < unat (rb_esize r)" and "i < rb_capacity r"
  shows "rb_slot (write_byte r src off k) i =
    (if i = unat off mod rb_capacity r then (rb_slot r i)[k := src ! k] else rb_slot r i)"
  using slot_update[OF rb_inv_facts(5)[OF assms(1)] assms(3), of "unat off mod rb_capacity r"] assms
    rb_inv_facts(1)[OF assms(1)]
  by (simp add: rb_slot_def write_byte_def copy_addr_eq)

text \<open>The producer writes into the slot behind the queued ones.\<close>

lemma write_byte_list:
  assumes inv: "rb_inv r" and "k < unat (rb_esize r)" and room: "rb_count r < rb_capacity r"
  shows "rb_list (write_byte r src (rb_in r) k) = rb_list r"
proof (rule nth_equalityI)
  fix i assume "i < length (rb_list (write_byte r src (rb_in r) k))"
  then have i: "i < rb_count r" by simp
  let ?j = "(unat (rb_out r) + i) mod rb_capacity r"
  have "?j \<noteq> unat (rb_in r) mod rb_capacity r" using mod_offset_neq[OF i room] in_index[OF inv] by metis
  then show "rb_list (write_byte r src (rb_in r) k) ! i = rb_list r ! i"
    using i write_byte_slot[OF assms(1,2), of ?j] rb_inv_facts(1)[OF inv] by (simp add: rb_list_nth)
qed simp

lemma length_rb_slot: "rb_inv r \<Longrightarrow> i < rb_capacity r \<Longrightarrow> length (rb_slot r i) = unat (rb_esize r)"
  using slot_end_le[of i "rb_capacity r" "unat (rb_esize r)"] rb_inv_facts(5)[of r] by (simp add: rb_slot_def)

lemma written_slot_push:
  assumes "rb_inv r" and "rb_slot r (unat (rb_in r) mod rb_capacity r) = src" and "length src = unat (rb_esize r)"
  shows "r\<lparr>rb_in := rb_in r + 1\<rparr> = rb_push r src"
proof -
  let ?o = "unat (rb_in r) mod rb_capacity r * unat (rb_esize r)"
  have "take (unat (rb_esize r)) src = take (unat (rb_esize r)) (drop ?o (rb_data r))"
    using assms(2,3) by (simp add: rb_slot_def)
  then have "memcpy (rb_data r) ?o src (unat (rb_esize r)) = rb_data r"
    using append_take_drop_id[of "unat (rb_esize r)" "drop ?o (rb_data r)"] append_take_drop_id[of ?o "rb_data r"]
    by (simp add: memcpy_def drop_drop add.commute)
  then show ?thesis by (simp add: rb_push_def)
qed

text \<open>The byte that the consumer reads is one of the element at the head of the queue.\<close>

lemma read_byte_head:
  assumes inv: "rb_inv r" and "k < unat (rb_esize r)" and "rb_count r \<noteq> 0"
  shows "rb_data r ! copy_addr r (rb_out r) k = hd (rb_list r) ! k"
proof -
  let ?j = "unat (rb_out r) mod rb_capacity r"
  have j: "?j < rb_capacity r" using rb_inv_facts(1)[OF inv] by simp
  have "hd (rb_list r) = rb_slot r ?j"
    using assms(3) rb_list_nth[of 0 r] by (simp add: hd_conv_nth flip: length_0_conv)
  moreover have "?j * unat (rb_esize r) + k < length (rb_data r)"
    using slot_end_le[OF j, of "unat (rb_esize r)"] assms(2) rb_inv_facts(5)[OF inv] by simp
  ultimately show ?thesis using assms(2) by (simp add: copy_addr_eq[OF inv] rb_slot_def)
qed

text \<open>Without interference the bytes are what the block copies of the source write and read.\<close>

lemma write_bytes_copy_in:
  assumes "rb_inv r" and "length src = unat (rb_esize r)"
  shows "fold (\<lambda>k rb. write_byte rb src off k) [0..<unat (rb_esize r)] r = ringbuffer_copy_in r src 1 off"
proof -
  let ?o = "unat off mod rb_capacity r * unat (rb_esize r)"
  have "unat off mod rb_capacity r < rb_capacity r" using rb_inv_facts(1)[OF assms(1)] by simp
  from slot_end_le[OF this] have fits: "?o + unat (rb_esize r) \<le> length (rb_data r)"
    using rb_inv_facts(5)[OF assms(1)] by simp
  have "n \<le> unat (rb_esize r) \<Longrightarrow>
    fold (\<lambda>k rb. write_byte rb src off k) [0..<n] r = r\<lparr>rb_data := memcpy (rb_data r) ?o src n\<rparr>" for n
  proof (induction n)
    case (Suc n)
    let ?r = "r\<lparr>rb_data := memcpy (rb_data r) ?o src n\<rparr>"
    have "rb_inv ?r" using assms Suc.prems fits by (simp add: rb_inv_def rb_count_def rb_capacity_def)
    then have "copy_addr ?r off n = ?o + n" using Suc.prems copy_addr_eq[of ?r n off] by (simp add: rb_capacity_def)
    moreover have "(memcpy (rb_data r) ?o src n)[?o + n := src ! n] = memcpy (rb_data r) ?o src (Suc n)"
      using Suc.prems fits assms(2)
      by (simp add: memcpy_def list_update_append take_Suc_conv_app_nth upd_conv_take_nth_drop
          flip: Cons_nth_drop_Suc)
    ultimately show ?case using Suc by (simp add: write_byte_def)
  qed simp
  then show ?thesis by (simp add: copy_in_one[OF assms(1)])
qed

section \<open>One producer and one consumer\<close>

lemma fifo_run_snoc:
  "fifo_run put get q (ops @ [op]) =
     (let (outs, q1) = fifo_run put get q ops in
      case op of Put x \<Rightarrow> (let (b, q2) = put q1 x in (outs @ [Stored b], q2))
        | Get \<Rightarrow> (let (y, q2) = get q1 in (outs @ [Fetched y], q2)))"
  by (induction put get q ops rule: fifo_run.induct) (auto split: prod.splits fifo_op.splits)

fun put_inv :: "put_pc \<Rightarrow> ring_buffer_t \<Rightarrow> bool" where
  "put_inv P_Idle rb \<longleftrightarrow> True"
| "put_inv (P_Copy src off k) rb \<longleftrightarrow> off = rb_in rb \<and> length src = unat (rb_esize rb) \<and> k \<le> unat (rb_esize rb) \<and>
     rb_count rb < rb_capacity rb \<and> take k (rb_slot rb (unat off mod rb_capacity rb)) = take k src"

fun get_inv :: "get_pc \<Rightarrow> ring_buffer_t \<Rightarrow> bool" where
  "get_inv G_Idle rb \<longleftrightarrow> True"
| "get_inv (G_Copy off buf) rb \<longleftrightarrow> off = rb_out rb \<and> rb_count rb \<noteq> 0 \<and> length buf \<le> unat (rb_esize rb) \<and>
     buf = take (length buf) (hd (rb_list rb))"

definition lin_inv :: "ring_buffer_t \<Rightarrow> call_log \<Rightarrow> ring_buffer_t \<Rightarrow> bool" where
  "lin_inv r log r' \<longleftrightarrow> rb_inv r' \<and> rb_capacity r' = rb_capacity r \<and>
     spec_run (rb_capacity r) (rb_list r) (map fst log) = (map snd log, rb_list r')"

lemma hd_rb_list_length: "rb_inv r \<Longrightarrow> rb_count r \<noteq> 0 \<Longrightarrow> length (hd (rb_list r)) = unat (rb_esize r)"
  using rb_list_elem_length[of r "hd (rb_list r)"] by (metis length_0_conv length_rb_list list.set_sel(1))

lemma unused_zero: "rb_inv r \<Longrightarrow> (ringbuffer_unused r = 0) = (rb_count r = rb_capacity r)"
  using rb_count_lt_iff[of r] by simp

lemma lin_put_full:
  "lin_inv r log r' \<Longrightarrow> ringbuffer_unused r' = 0 \<Longrightarrow> lin_inv r (log @ [(Put src, Stored False)]) r'"
  by (auto simp: lin_inv_def unused_zero spec_run_def fifo_run_snoc spec_put_def)

lemma lin_get_empty:
  "lin_inv r log r' \<Longrightarrow> rb_count r' = 0 \<Longrightarrow> lin_inv r (log @ [(Get, Fetched None)]) r'"
  by (auto simp: lin_inv_def spec_run_def fifo_run_snoc spec_get_def rb_list_def)

lemma lin_push:
  assumes "lin_inv r log r'" "rb_count r' < rb_capacity r'" "length src = unat (rb_esize r')"
  shows "lin_inv r (log @ [(Put src, Stored True)]) (rb_push r' src)"
  using assms by (auto simp: lin_inv_def spec_run_def fifo_run_snoc spec_put_def rb_push_inv rb_push_list)

lemma lin_pop:
  assumes "lin_inv r log r'" "rb_count r' \<noteq> 0"
  shows "lin_inv r (log @ [(Get, Fetched (Some (hd (rb_list r'))))]) (rb_pop r')"
proof -
  obtain x xs where "rb_list r' = x # xs" using assms(2) by (cases "rb_list r'") (auto simp flip: length_rb_list)
  then show ?thesis
    using assms by (auto simp: lin_inv_def spec_run_def fifo_run_snoc spec_get_def rb_pop_inv rb_pop_list)
qed

lemma min_used_zero: "(min 1 (rb_in r - rb_out r) = 0) = (rb_count r = 0)"
  by (auto simp: rb_count_def min_def unat_eq_0 word_le_nat_alt)

lemma rb_push_head:
  assumes "rb_inv r" "rb_count r < rb_capacity r" "unat (rb_esize r) \<le> length src" "rb_count r \<noteq> 0"
  shows "hd (rb_list (rb_push r src)) = hd (rb_list r)"
  using assms(4) by (simp add: rb_push_list[OF assms(1-3)] hd_append flip: length_0_conv)

text \<open>What one side does keeps the assertion of the other side.\<close>

lemma get_inv_write: "rb_list (write_byte r src off k) = rb_list r \<Longrightarrow> get_inv pc r \<Longrightarrow> get_inv pc (write_byte r src off k)"
  by (cases pc) auto

lemma get_inv_push:
  "get_inv pc r \<Longrightarrow> rb_inv r \<Longrightarrow> rb_count r < rb_capacity r \<Longrightarrow> length src = unat (rb_esize r) \<Longrightarrow> get_inv pc (rb_push r src)"
  by (cases pc) (auto simp: rb_push_head rb_push_count)

lemma put_inv_pop: "put_inv pc r \<Longrightarrow> rb_count r \<noteq> 0 \<Longrightarrow> put_inv pc (rb_pop r)"
  by (cases pc) (auto simp: rb_pop_count rb_slot_def)

lemma put_inv_write:
  assumes "rb_inv r" and "k < unat (rb_esize r)" and "put_inv (P_Copy src off k) r"
  shows "put_inv (P_Copy src off (Suc k)) (write_byte r src off k)"
proof -
  have i: "unat off mod rb_capacity r < rb_capacity r" using rb_inv_facts(1)[OF assms(1)] by simp
  show ?thesis
    using assms(2,3) write_byte_slot[OF assms(1,2) i, of src off] length_rb_slot[OF assms(1) i]
    by (clarsimp simp: take_Suc_conv_app_nth)
qed

lemma get_inv_read:
  assumes "rb_inv r" and "length buf < unat (rb_esize r)" and "get_inv (G_Copy off buf) r"
  shows "get_inv (G_Copy off (buf @ [rb_data r ! copy_addr r off (length buf)])) r"
proof -
  have g: "off = rb_out r" "rb_count r \<noteq> 0" "buf = take (length buf) (hd (rb_list r))" using assms(3) by auto
  have "buf @ [hd (rb_list r) ! length buf] = take (Suc (length buf)) (hd (rb_list r))"
    using g(3) assms(2) hd_rb_list_length[OF assms(1) g(2)] by (metis take_Suc_conv_app_nth)
  then show ?thesis
    using assms(2) g(1,2) read_byte_head[OF assms(1,2) g(2)] hd_rb_list_length[OF assms(1) g(2)] by simp
qed

lemma conc_invariant:
  assumes "conc_steps {p} {c} (idle_ring r) log s" and "rb_inv r"
  shows "lin_inv r log (cr_rb s) \<and> put_inv (cr_put s p) (cr_rb s) \<and> get_inv (cr_get s c) (cr_rb s)"
  using assms(1)
proof (induction rule: conc_steps.induct)
  case conc_start
  then show ?case using assms(2) by (simp add: idle_ring_def lin_inv_def spec_run_def)
next
  case (conc_put_call log s t src ev s')
  then have inv: "rb_inv (cr_rb s)" by (simp add: lin_inv_def)
  have "rb_count (cr_rb s) < rb_capacity (cr_rb s)" if "ringbuffer_unused (cr_rb s) \<noteq> 0"
    using that rb_inv_facts(6)[OF inv] by (simp add: unused_zero[OF inv])
  then show ?case using conc_put_call by (auto simp: put_call_def lin_put_full split: if_splits)
next
  case (conc_put_byte log s t src off k)
  then have inv: "rb_inv (cr_rb s)" and t: "t = p" by (simp_all add: lin_inv_def)
  have l: "rb_list (write_byte (cr_rb s) src off k) = rb_list (cr_rb s)"
    using conc_put_byte write_byte_list[OF inv conc_put_byte.hyps(4)] by auto
  show ?case
    using conc_put_byte get_inv_write[OF l] put_inv_write[OF inv conc_put_byte.hyps(4)] l t
    by (auto simp: put_byte_def lin_inv_def simp del: put_inv.simps)
next
  case (conc_put_return log s t src off k ev s')
  then have inv: "rb_inv (cr_rb s)" and t: "t = p" by (simp_all add: lin_inv_def)
  have p: "length src = unat (rb_esize (cr_rb s))" "rb_count (cr_rb s) < rb_capacity (cr_rb s)"
      "rb_slot (cr_rb s) (unat (rb_in (cr_rb s)) mod rb_capacity (cr_rb s)) = src"
    using conc_put_return length_rb_slot[OF inv] rb_inv_facts(1)[OF inv] by auto
  show ?case
    using conc_put_return.IH conc_put_return.hyps(5) t lin_push[of r log "cr_rb s" src] p(1,2) inv
    by (auto simp: put_return_def written_slot_push[OF inv p(3,1)] get_inv_push)
next
  case (conc_get_call log s t ev s')
  then show ?case by (auto simp: get_call_def min_used_zero lin_get_empty split: if_splits)
next
  case (conc_get_byte log s t off buf)
  then have inv: "rb_inv (cr_rb s)" and t: "t = c" by (simp_all add: lin_inv_def)
  show ?case
    using conc_get_byte get_inv_read[OF inv conc_get_byte.hyps(4)] t by (auto simp: get_byte_def simp del: get_inv.simps)
next
  case (conc_get_return log s t off buf ev s')
  then have inv: "rb_inv (cr_rb s)" and t: "t = c" by (simp_all add: lin_inv_def)
  have g: "rb_count (cr_rb s) \<noteq> 0" "buf = hd (rb_list (cr_rb s))"
    using conc_get_return hd_rb_list_length[OF inv] by auto
  have e: "(cr_rb s)\<lparr>rb_out := rb_out (cr_rb s) + 1\<rparr> = rb_pop (cr_rb s)" by (simp add: rb_pop_def)
  show ?case
    using conc_get_return.IH conc_get_return.hyps(5) t g lin_pop[of r log "cr_rb s"]
    by (auto simp: get_return_def e put_inv_pop)
qed

text \<open>The producer never waits: the next step of a put is always possible, and an element of \<open>e\<close> bytes takes at most \<open>e + 2\<close> steps.\<close>

fun put_left :: "conc_ring \<Rightarrow> put_pc \<Rightarrow> nat" where
  "put_left s P_Idle = 0"
| "put_left s (P_Copy src off k) = Suc (unat (rb_esize (cr_rb s)) - k)"

lemma put_progress:
  assumes "conc_steps {p} {c} (idle_ring r) log s" and "rb_inv r" and "cr_put s p \<noteq> P_Idle"
  shows "\<exists>log' s'. conc_steps {p} {c} (idle_ring r) log' s' \<and> put_left s' (cr_put s' p) < put_left s (cr_put s p)"
proof -
  obtain src off k where pc: "cr_put s p = P_Copy src off k" using assms(3) by (cases "cr_put s p") auto
  then have k: "k \<le> unat (rb_esize (cr_rb s))" using conc_invariant[OF assms(1,2)] by simp
  show ?thesis
  proof (cases "k = unat (rb_esize (cr_rb s))")
    case True
    obtain ev s' where e: "put_return p src s = (ev, s')" by fastforce
    then have "put_left s' (cr_put s' p) = 0" by (auto simp: put_return_def)
    then show ?thesis using conc_put_return[OF assms(1) _ pc True e] pc by fastforce
  next
    case False
    then have "conc_steps {p} {c} (idle_ring r) log (put_byte p src off k s)"
      using conc_put_byte[OF assms(1) _ pc] k by simp
    moreover have "put_left (put_byte p src off k s) (cr_put (put_byte p src off k s) p) < put_left s (cr_put s p)"
      using pc k False by (simp add: put_byte_def)
    ultimately show ?thesis by blast
  qed
qed

text \<open>
  Two consumers break the ring: both pass the test, both read the same element and both advance the index, which then runs ahead of the
  other one.
\<close>

definition one_byte_ring :: "byte list \<Rightarrow> u32 \<Rightarrow> u32 \<Rightarrow> ring_buffer_t" where
  "one_byte_ring d i k = \<lparr>rb_data = d, rb_in = i, rb_out = k, rb_mask = 1, rb_esize = 1\<rparr>"

lemma two_consumers_break_ring:
  "\<exists>s. conc_steps {0} {0, 1} (idle_ring (one_byte_ring [7, 0] 1 0))
     [(Get, Fetched (Some [7])), (Get, Fetched (Some [7]))] s \<and>
     rb_inv (one_byte_ring [7, 0] 1 0) \<and> \<not> rb_inv (cr_rb s) \<and> rb_count (cr_rb s) = 2 ^ 32 - 1"
proof -
  let ?r = "one_byte_ring [7, 0] 1 0"
  let ?s = "\<lambda>k g. \<lparr>cr_rb = one_byte_ring [7, 0] 1 k, cr_put = \<lambda>_. P_Idle, cr_get = g\<rparr>"
  let ?st = "conc_steps {0} {0, 1} (idle_ring ?r)"
  let ?g = "\<lambda>a b. (\<lambda>_. G_Idle)(0 := a, 1 := b)"
  have a: "copy_addr (one_byte_ring [7, 0] 1 0) 0 0 = 0" by (simp add: copy_addr_def one_byte_ring_def)
  note d = get_call_def get_byte_def get_return_def one_byte_ring_def fun_upd_twist
  have "?st [] (?s 0 (?g G_Idle G_Idle))" using conc_start[of "{0}" "{0,1}" "idle_ring ?r"] by (simp add: idle_ring_def fun_upd_idem)
  from conc_get_call[OF this, of 0] have "?st [] (?s 0 (?g (G_Copy 0 []) G_Idle))" by (simp add: d)
  from conc_get_call[OF this, of 1] have "?st [] (?s 0 (?g (G_Copy 0 []) (G_Copy 0 [])))" by (simp add: d)
  from conc_get_byte[OF this, of 0 0 "[]"] have "?st [] (?s 0 (?g (G_Copy 0 [7]) (G_Copy 0 [])))"
    using a by (simp add: d)
  from conc_get_byte[OF this, of 1 0 "[]"] have "?st [] (?s 0 (?g (G_Copy 0 [7]) (G_Copy 0 [7])))"
    using a by (simp add: d)
  from conc_get_return[OF this, of 0 0 "[7]"]
  have "?st [(Get, Fetched (Some [7]))] (?s 1 (?g G_Idle (G_Copy 0 [7])))" by (simp add: d)
  from conc_get_return[OF this, of 1 0 "[7]"]
  have "?st [(Get, Fetched (Some [7])), (Get, Fetched (Some [7]))] (?s 2 (?g G_Idle G_Idle))" by (simp add: d)
  then show ?thesis
    by (intro exI[of _ "?s 2 (?g G_Idle G_Idle)"])
      (simp add: rb_inv_def rb_count_def rb_capacity_def is_power_of_2_def one_byte_ring_def unsigned_minus_1_eq_mask
        mask_eq_exp_minus_1)
qed

section \<open>Properties\<close>

text \<open>
  C7.  One producer and one consumer need no lock: however their memory accesses interleave, down to single bytes, the calls
  that have returned behave, in the order of their decisive accesses, exactly like the operations of a bounded list queue: what a
  get returns, which puts are refused, and what is queued.  The ring stays well formed.
\<close>

theorem concurrent_ring_linearizable:
  assumes "rb_inv r" and "conc_steps {p} {c} (idle_ring r) log s"
  shows "rb_inv (cr_rb s) \<and>
    spec_run (rb_capacity r) (rb_list r) (map fst log) = (map snd log, rb_list (cr_rb s))"
  using conc_invariant[OF assms(2,1)] by (simp add: lin_inv_def)

text \<open>The consumer calls while the producer is copying, and finds the ring empty; the producer's element is queued afterwards.\<close>

theorem concurrent_ring_linearizable_witness:
  "spec_run 2 [] [Get, Put [9 :: byte]] = ([Fetched None, Stored True], [[9]])"
proof -
  let ?r = "one_byte_ring [7, 0] 0 0"
  let ?s = "\<lambda>d i p. \<lparr>cr_rb = one_byte_ring d i 0, cr_put = (\<lambda>_. P_Idle)(0 := p), cr_get = \<lambda>_. G_Idle\<rparr>"
  let ?st = "conc_steps {0} {1} (idle_ring ?r)"
  have a: "copy_addr (one_byte_ring [7, 0] 0 0) 0 0 = 0" by (simp add: copy_addr_def one_byte_ring_def)
  note d = put_call_def put_byte_def put_return_def get_call_def write_byte_def ringbuffer_unused_def one_byte_ring_def
  have inv: "rb_inv ?r" by (simp add: rb_inv_def rb_count_def rb_capacity_def is_power_of_2_def one_byte_ring_def)
  have "?st [] (?s [7, 0] 0 P_Idle)" using conc_start[of "{0}" "{1}" "idle_ring ?r"] by (simp add: idle_ring_def fun_upd_idem)
  from conc_put_call[OF this, of 0 "[9]"] have "?st [] (?s [7, 0] 0 (P_Copy [9] 0 0))" by (simp add: d)
  from conc_put_byte[OF this, of 0 "[9]" 0 0] have "?st [] (?s [9, 0] 0 (P_Copy [9] 0 1))"
    using a by (simp add: d)
  from conc_get_call[OF this, of 1] have "?st [(Get, Fetched None)] (?s [9, 0] 0 (P_Copy [9] 0 1))" by (simp add: d)
  from conc_put_return[OF this, of 0 "[9]" 0 1]
  have "?st [(Get, Fetched None), (Put [9], Stored True)] (?s [9, 0] 1 P_Idle)" by (simp add: d)
  from concurrent_ring_linearizable[OF inv this] show ?thesis
    by (simp add: rb_list_def rb_count_def rb_capacity_def rb_slot_def one_byte_ring_def)
qed

end
