(* ===== verification/Lock_Order.thy ===== *)
theory Lock_Order
  imports Main
begin

text \<open>
  The mutexes of the program (\<^verbatim>\<open>src/main18.c\<close>): which function takes and releases which lock, on every path, and that the
  threads cannot block each other for ever.

  A \<open>skeleton\<close> is a function reduced to its lock operations: conditions become choices, loops an arbitrary number of turns, calls are the
  skeletons of the called functions, an early return is a choice of its own.  \<open>check\<close> computes the locks held after a skeleton and refuses one that
  takes a lock out of order, releases a lock that is not held or depends on the path; it is shown to be sound for all interleavings.  Blocking
  system calls are taken to return, a wait for a condition releases the mutex and takes it again.
\<close>

section \<open>Skeletons\<close>

datatype mutex =
    Packet | Download_Process | Buffer_Query | Bcast_State | Bcast_Cfg | Bcast_Rx_Gate | Bcast_Group_Id | Bcast_Wake nat
  | Can_Write nat | Data_Upload | Data_Download | Data_Counter | Tcp_Buffer | Event_Sock

datatype skeleton = Done | Lock mutex | Unlock mutex | Seq skeleton skeleton | Alt skeleton skeleton | Loop skeleton

fun seqs :: "skeleton list \<Rightarrow> skeleton" where
  "seqs [] = Done"
| "seqs (s # ss) = Seq s (seqs ss)"

fun alts :: "skeleton \<Rightarrow> skeleton list \<Rightarrow> skeleton" where
  "alts s [] = s"
| "alts s (s' # ss) = Alt s (alts s' ss)"

definition opt :: "skeleton \<Rightarrow> skeleton" where
  "opt s = Alt Done s"

definition locked :: "mutex \<Rightarrow> skeleton" where
  "locked m = Seq (Lock m) (Unlock m)"

definition cond_wait :: "mutex \<Rightarrow> skeleton" where
  "cond_wait m = Seq (Unlock m) (Lock m)"

section \<open>Interleavings\<close>

text \<open>A thread: the locks it holds and what it has still to do.\<close>

type_synonym thread = "mutex list \<times> skeleton list"

inductive thread_step :: "mutex set \<Rightarrow> thread \<Rightarrow> thread \<Rightarrow> bool" for taken where
  st_done: "thread_step taken (h, Done # k) (h, k)"
| st_lock: "m \<notin> taken \<Longrightarrow> thread_step taken (h, Lock m # k) (m # h, k)"
| st_unlock: "thread_step taken (h, Unlock m # k) (remove1 m h, k)"
| st_seq: "thread_step taken (h, Seq a b # k) (h, a # b # k)"
| st_left: "thread_step taken (h, Alt a b # k) (h, a # k)"
| st_right: "thread_step taken (h, Alt a b # k) (h, b # k)"
| st_stop: "thread_step taken (h, Loop a # k) (h, k)"
| st_turn: "thread_step taken (h, Loop a # k) (h, a # Loop a # k)"

inductive_cases thread_stepE: "thread_step taken (h, s # k) t'"

type_synonym threads = "nat \<Rightarrow> thread"

definition taken_locks :: "threads \<Rightarrow> mutex set" where
  "taken_locks T = (\<Union>i. set (fst (T i)))"

inductive lock_steps :: "threads \<Rightarrow> threads \<Rightarrow> bool" for T0 where
  lk_start: "lock_steps T0 T0"
| lk_step: "lock_steps T0 T \<Longrightarrow> thread_step (taken_locks T) (T i) t' \<Longrightarrow> lock_steps T0 (T(i := t'))"

text \<open>Thread \<open>i\<close> waits for a lock that thread \<open>j\<close> holds.\<close>

definition waits_for :: "threads \<Rightarrow> (nat \<times> nat) set" where
  "waits_for T = {(i, j). \<exists>m k. snd (T i) = Lock m # k \<and> m \<in> set (fst (T j))}"

definition can_step :: "threads \<Rightarrow> nat \<Rightarrow> bool" where
  "can_step T i \<longleftrightarrow> (\<exists>t'. thread_step (taken_locks T) (T i) t')"

section \<open>The checker\<close>

fun check :: "(mutex \<Rightarrow> nat) \<Rightarrow> mutex list \<Rightarrow> skeleton \<Rightarrow> mutex list option" where
  "check rank h Done = Some h"
| "check rank h (Lock m) = (if list_all (\<lambda>x. rank x < rank m) h then Some (m # h) else None)"
| "check rank h (Unlock m) = (if m \<in> set h then Some (remove1 m h) else None)"
| "check rank h (Seq a b) = (case check rank h a of None \<Rightarrow> None | Some h1 \<Rightarrow> check rank h1 b)"
| "check rank h (Alt a b) =
     (case check rank h a of None \<Rightarrow> None | Some h1 \<Rightarrow> if check rank h b = Some h1 then Some h1 else None)"
| "check rank h (Loop a) = (if check rank h a = Some h then Some h else None)"

fun check_all :: "(mutex \<Rightarrow> nat) \<Rightarrow> mutex list \<Rightarrow> skeleton list \<Rightarrow> mutex list option" where
  "check_all rank h [] = Some h"
| "check_all rank h (s # k) = (case check rank h s of None \<Rightarrow> None | Some h1 \<Rightarrow> check_all rank h1 k)"

lemma check_all_ConsE:
  assumes "check_all rank h (s # k) = Some r"
  obtains h1 where "check rank h s = Some h1" "check_all rank h1 k = Some r"
  using assms by (auto split: option.splits)

text \<open>A thread that passes the check passes it after every step.\<close>

lemma thread_step_check:
  assumes "thread_step taken (h, k) (h', k')" and "check_all rank h k = Some r"
  shows "check_all rank h' k' = Some r"
  using assms by (cases rule: thread_step.cases) (auto split: option.splits if_splits)

lemma thread_step_holds:
  assumes "thread_step taken (h, k) (h', k')" and "check_all rank h k = Some r"
  shows "set h' \<subseteq> set h \<or> (\<exists>m. m \<notin> taken \<and> h' = m # h)"
  using assms by (cases rule: thread_step.cases) (auto dest: in_set_remove1 notin_set_remove1)

definition disciplined :: "(mutex \<Rightarrow> nat) \<Rightarrow> threads \<Rightarrow> bool" where
  "disciplined rank T \<longleftrightarrow> (\<forall>i. check_all rank (fst (T i)) (snd (T i)) = Some []) \<and>
     (\<forall>i j. i \<noteq> j \<longrightarrow> set (fst (T i)) \<inter> set (fst (T j)) = {})"

lemma lock_steps_disciplined:
  assumes "lock_steps T0 T" and "disciplined rank T0"
  shows "disciplined rank T"
  using assms
proof (induction rule: lock_steps.induct)
  case (lk_step T i t')
  obtain h k h' k' where e: "T i = (h, k)" "t' = (h', k')" by (cases "T i"; cases t') auto
  have c: "check_all rank h k = Some []" using lk_step e(1) by (metis disciplined_def fst_conv snd_conv)
  note st = lk_step.hyps(2)[unfolded e]
  have old: "set h \<inter> set (fst (T j)) = {}" if "j \<noteq> i" for j
    using lk_step that e(1) unfolding disciplined_def by (metis fst_conv)
  have "set h' \<inter> set (fst (T j)) = {}" if "j \<noteq> i" for j
    using thread_step_holds[OF st c] old[OF that] by (auto simp: taken_locks_def)
  then show ?case
    using lk_step.IH[OF lk_step.prems] thread_step_check[OF st c] e(2) by (auto simp: disciplined_def)
qed simp

lemma disciplined_start:
  assumes "\<And>i. \<exists>b. T i = ([], [b]) \<and> check rank [] b = Some []"
  shows "disciplined rank T"
proof -
  have "fst (T i) = []" "check_all rank [] (snd (T i)) = Some []" for i using assms[of i] by auto
  then show ?thesis by (simp add: disciplined_def)
qed

lemma blocked_or_steps:
  assumes "check_all rank (fst (T i)) (snd (T i)) = Some r" and "snd (T i) \<noteq> []" and "\<not> can_step T i"
  shows "\<exists>m k j. snd (T i) = Lock m # k \<and> m \<in> set (fst (T j))"
proof -
  obtain h s k where e: "T i = (h, s # k)" using assms(2) by (metis list.exhaust prod.collapse)
  show ?thesis
  proof (cases s)
    case (Lock m)
    then have "m \<in> taken_locks T" using assms(3) e st_lock unfolding can_step_def by metis
    then show ?thesis using e Lock by (auto simp: taken_locks_def)
  qed (metis assms(3) e can_step_def st_done st_unlock st_seq st_left st_stop)+
qed

text \<open>Along the chain of waiting threads the rank of the awaited lock grows.\<close>

lemma awaited_above_held:
  assumes "disciplined rank T" and "snd (T i) = Lock m # k" and "x \<in> set (fst (T i))"
  shows "rank x < rank m"
proof -
  have "check_all rank (fst (T i)) (Lock m # k) = Some []" using assms(1,2) by (metis disciplined_def)
  then show ?thesis using assms(3) by (auto simp: list_all_iff split: if_splits)
qed

lemma holder_can_step:
  assumes d: "disciplined rank T" and b: "\<And>m. rank m \<le> n"
  shows "snd (T i) = Lock m # k \<Longrightarrow> m \<in> set (fst (T j)) \<Longrightarrow> \<exists>l. (i, l) \<in> (waits_for T)\<^sup>+ \<and> can_step T l"
proof (induction "n - rank m" arbitrary: i j m k rule: less_induct)
  case less
  have ij: "(i, j) \<in> waits_for T" using less.prems by (auto simp: waits_for_def)
  have c: "check_all rank (fst (T j)) (snd (T j)) = Some []" using d by (simp add: disciplined_def)
  then have ne: "snd (T j) \<noteq> []" using less.prems(2) by auto
  show ?case
  proof (cases "can_step T j")
    case False
    obtain m' k' j' where w: "snd (T j) = Lock m' # k'" "m' \<in> set (fst (T j'))"
      using blocked_or_steps[OF c ne False] by blast
    have "rank m < rank m'" by (rule awaited_above_held[OF d w(1) less.prems(2)])
    then have "n - rank m' < n - rank m" using b[of m'] by linarith
    from less.hyps[OF this w] ij show ?thesis by (meson trancl_into_trancl2)
  qed (use ij in blast)
qed

lemma waits_for_rank:
  assumes "disciplined rank T" and "(i, j) \<in> (waits_for T)\<^sup>+"
  shows "\<exists>m k. snd (T i) = Lock m # k \<and> (\<forall>m' k'. snd (T j) = Lock m' # k' \<longrightarrow> rank m < rank m')"
  using assms(2)
proof (induction rule: trancl_induct)
  case (base j)
  then show ?case using awaited_above_held[OF assms(1)] by (fastforce simp: waits_for_def)
next
  case (step j l)
  from step.hyps(2) obtain m k where w: "snd (T j) = Lock m # k" "m \<in> set (fst (T l))" by (auto simp: waits_for_def)
  show ?case using step.IH w awaited_above_held[OF assms(1) _ w(2)] by (meson less_trans)
qed

lemma waits_for_acyclic: "disciplined rank T \<Longrightarrow> acyclic (waits_for T)"
  unfolding acyclic_def using waits_for_rank by (metis less_irrefl)

section \<open>The functions of the program\<close>

definition send_event_locks :: skeleton where
  "send_event_locks = seqs [Lock Event_Sock, alts (Unlock Event_Sock) [Unlock Event_Sock]]"

text \<open>Sending an answer: without a client the function returns early.\<close>

definition upload_locks :: skeleton where
  "upload_locks = seqs [Lock Data_Upload, alts (Unlock Data_Upload) [Unlock Data_Upload]]"

definition send_can_config_response_locks :: skeleton where
  "send_can_config_response_locks = upload_locks"

definition send_can_info_response_locks :: skeleton where
  "send_can_info_response_locks =
     seqs [Lock Data_Upload,
       alts (Unlock Data_Upload) [Unlock Data_Upload, seqs [locked Data_Counter, Unlock Data_Upload]]]"

definition send_can_send_response_locks :: skeleton where
  "send_can_send_response_locks = upload_locks"

definition send_can_transmit_response_locks :: skeleton where
  "send_can_transmit_response_locks = upload_locks"

definition send_start_stop_response_locks :: skeleton where
  "send_start_stop_response_locks = send_can_send_response_locks"

definition send_broadcast_config_response_locks :: skeleton where
  "send_broadcast_config_response_locks = seqs [locked Data_Counter, send_can_send_response_locks]"

definition send_version_query_response_locks :: skeleton where
  "send_version_query_response_locks = upload_locks"

definition handle_can_config_locks :: skeleton where
  "handle_can_config_locks =
     (let config = seqs [alts (opt send_event_locks) [send_event_locks],
                         alts (opt send_event_locks) [seqs [opt send_event_locks, send_event_locks], send_event_locks],
                         send_can_config_response_locks]
      in alts send_event_locks [send_event_locks, send_event_locks, config, config, send_event_locks])"

definition handle_can_info_query_locks :: skeleton where
  "handle_can_info_query_locks = alts send_event_locks [send_can_info_response_locks]"

definition broadcast_buffer_available_locks :: skeleton where
  "broadcast_buffer_available_locks = locked Bcast_State"

definition handle_can_buf_query_locks :: skeleton where
  "handle_can_buf_query_locks =
     alts send_event_locks
       [seqs [Lock Buffer_Query, seqs (replicate 6 broadcast_buffer_available_locks), Unlock Buffer_Query, upload_locks]]"

definition handle_version_query_locks :: skeleton where
  "handle_version_query_locks = alts send_version_query_response_locks [send_version_query_response_locks]"

definition reset_broadcast_buffers_locks :: skeleton where
  "reset_broadcast_buffers_locks = seqs [seqs (map (\<lambda>ch. locked (Bcast_Wake ch)) [0..<6]), locked Bcast_Rx_Gate]"

definition handle_broadcast_config_locks :: skeleton where
  "handle_broadcast_config_locks =
     alts (seqs [send_event_locks, send_broadcast_config_response_locks])
       [seqs [Lock Bcast_State, locked Bcast_Cfg, reset_broadcast_buffers_locks, Unlock Bcast_State,
              send_broadcast_config_response_locks]]"

definition handle_can_start_stop_locks :: skeleton where
  "handle_can_start_stop_locks =
     alts (seqs [send_event_locks, send_start_stop_response_locks])
       [send_start_stop_response_locks, send_start_stop_response_locks, seqs [send_event_locks, send_start_stop_response_locks]]"

definition handle_normal_mode_locks :: skeleton where
  "handle_normal_mode_locks = upload_locks"

definition send_single_frame_locks :: "nat \<Rightarrow> skeleton" where
  "send_single_frame_locks ch = seqs [locked (Can_Write ch), opt (seqs [send_can_transmit_response_locks, send_event_locks])]"

definition axican_data_send_thread_locks :: "nat \<Rightarrow> skeleton" where
  "axican_data_send_thread_locks ch =
     alts Done [Loop (alts Done [send_event_locks, send_event_locks, send_single_frame_locks ch,
       seqs [Lock Packet, alts (Unlock Packet) [Unlock Packet, Unlock Packet,
         seqs [opt (Loop (send_single_frame_locks ch)), Unlock Packet]]]])]"

definition next_broadcast_group_id_locks :: skeleton where
  "next_broadcast_group_id_locks = locked Bcast_Group_Id"

definition set_broadcast_rx_gate_locks :: skeleton where
  "set_broadcast_rx_gate_locks = locked Bcast_Rx_Gate"

definition is_broadcast_rx_gate_open_locks :: skeleton where
  "is_broadcast_rx_gate_open_locks = locked Bcast_Rx_Gate"

definition is_broadcast_pps_window_open_locks :: skeleton where
  "is_broadcast_pps_window_open_locks = alts Done [is_broadcast_rx_gate_open_locks]"

definition enqueue_normal_can_payload_locks :: skeleton where
  "enqueue_normal_can_payload_locks = alts Done [send_event_locks, Done]"

definition enqueue_broadcast_group_locks :: skeleton where
  "enqueue_broadcast_group_locks =
     alts send_event_locks [send_event_locks,
       seqs [Lock Bcast_State, is_broadcast_pps_window_open_locks,
         alts (Unlock Bcast_State) [Unlock Bcast_State,
           seqs [next_broadcast_group_id_locks, alts (Unlock Bcast_State) [Unlock Bcast_State]]]]]"

definition process_9012_can_payload_frames_locks :: skeleton where
  "process_9012_can_payload_frames_locks =
     alts Done [enqueue_normal_can_payload_locks, enqueue_broadcast_group_locks, enqueue_broadcast_group_locks]"

definition process_download_data_batch_locks :: skeleton where
  "process_download_data_batch_locks =
     alts Done [Loop (alts Done [process_9012_can_payload_frames_locks, opt send_event_locks])]"

definition tcp_client_handler_9012_locks :: skeleton where
  "tcp_client_handler_9012_locks =
     alts Done [seqs [
       Lock Download_Process, locked Data_Download, Unlock Download_Process,
       Loop (alts Done [seqs [Lock Download_Process, locked Data_Download, opt process_download_data_batch_locks,
                              Unlock Download_Process]]),
       locked Data_Download]]"

definition tcp_client_handler_9010_locks :: skeleton where
  "tcp_client_handler_9010_locks = seqs [locked Data_Upload, Loop Done, locked Data_Upload]"

definition tcp_client_handler_9011_locks :: skeleton where
  "tcp_client_handler_9011_locks = seqs [locked Event_Sock, Loop Done, locked Event_Sock]"

definition tcp_client_handler_9009_locks :: skeleton where
  "tcp_client_handler_9009_locks =
     seqs [Loop (alts Done [Loop (alts Done [handle_can_config_locks, handle_can_info_query_locks,
             handle_can_buf_query_locks, handle_can_start_stop_locks, handle_broadcast_config_locks,
             handle_version_query_locks, send_event_locks])]),
           opt send_event_locks]"

definition axican_data_process_thread_1_locks :: skeleton where
  "axican_data_process_thread_1_locks = alts Done [Loop (Loop send_can_transmit_response_locks)]"

definition axican_data_process_thread_locks :: skeleton where
  "axican_data_process_thread_locks = alts Done [Loop (Loop handle_normal_mode_locks)]"

definition process_and_send_response_locks :: "nat \<Rightarrow> skeleton" where
  "process_and_send_response_locks ch = alts Done [Loop (seqs [locked (Can_Write ch), opt send_event_locks])]"

definition along_data_tid_thread_locks :: "nat \<Rightarrow> skeleton" where
  "along_data_tid_thread_locks ch =
     alts Done [Loop (Loop (alts Done [
       seqs [opt (process_and_send_response_locks ch), Loop send_can_transmit_response_locks],
       seqs [send_can_transmit_response_locks, process_and_send_response_locks ch]]))]"

definition select_broadcast_mask_on_pps_locks :: skeleton where
  "select_broadcast_mask_on_pps_locks = seqs [Lock Bcast_Cfg, alts (Unlock Bcast_Cfg) [Unlock Bcast_Cfg]]"

definition notify_broadcast_channels_locks :: skeleton where
  "notify_broadcast_channels_locks = seqs (map (\<lambda>ch. opt (locked (Bcast_Wake ch))) [0..<6])"

definition process_broadcast_pps_locks :: skeleton where
  "process_broadcast_pps_locks =
     seqs [Lock Bcast_State, set_broadcast_rx_gate_locks, select_broadcast_mask_on_pps_locks,
           opt notify_broadcast_channels_locks, Unlock Bcast_State]"

definition pps_irq_thread_locks :: skeleton where
  "pps_irq_thread_locks = alts send_event_locks [Loop (opt process_broadcast_pps_locks)]"

definition send_broadcast_group_for_channel_locks :: "nat \<Rightarrow> skeleton" where
  "send_broadcast_group_for_channel_locks ch = alts Done [seqs [Loop (locked (Can_Write ch)), opt send_event_locks]]"

definition take_broadcast_group_locks :: "nat \<Rightarrow> skeleton" where
  "take_broadcast_group_locks ch = alts Done [seqs [Lock Bcast_State, locked (Bcast_Wake ch), Unlock Bcast_State]]"

definition broadcast_can_send_thread_locks :: "nat \<Rightarrow> skeleton" where
  "broadcast_can_send_thread_locks ch =
     (let wait = seqs [Lock (Bcast_Wake ch), Loop (cond_wait (Bcast_Wake ch)), Unlock (Bcast_Wake ch)]
      in alts Done [seqs [
        Loop (seqs [wait, take_broadcast_group_locks ch, opt (send_broadcast_group_for_channel_locks ch)]),
        opt wait]])"

definition buffer_report_thread_locks :: skeleton where
  "buffer_report_thread_locks =
     Loop (seqs [locked Tcp_Buffer, locked Tcp_Buffer, seqs (replicate 6 broadcast_buffer_available_locks),
       locked Data_Download])"

definition main_locks :: skeleton where
  "main_locks = alts (opt send_event_locks) [seqs [Loop Done, seqs (map (\<lambda>ch. locked (Bcast_Wake ch)) [0..<6])]]"

text \<open>Everything that runs as a thread and takes a lock; the handlers may run any number of times.\<close>

definition thread_bodies :: "skeleton list" where
  "thread_bodies =
     [main_locks, tcp_client_handler_9009_locks, tcp_client_handler_9010_locks, tcp_client_handler_9011_locks,
      tcp_client_handler_9012_locks, pps_irq_thread_locks, buffer_report_thread_locks,
      axican_data_process_thread_1_locks, axican_data_process_thread_locks] @
     map axican_data_send_thread_locks [0..<6] @ map along_data_tid_thread_locks [0..<6] @
     map broadcast_can_send_thread_locks [0..<6]"

text \<open>
  The order of the locks.  For the broadcast scheduler it is the one that the comment at \<open>bcast_state_mutex\<close> demands.
\<close>

fun lock_rank :: "mutex \<Rightarrow> nat" where
  "lock_rank Packet = 0"
| "lock_rank Download_Process = 0"
| "lock_rank Buffer_Query = 0"
| "lock_rank Bcast_State = 1"
| "lock_rank Bcast_Cfg = 2"
| "lock_rank Bcast_Rx_Gate = 2"
| "lock_rank Bcast_Group_Id = 2"
| "lock_rank (Bcast_Wake _) = 2"
| "lock_rank (Can_Write _) = 2"
| "lock_rank Data_Upload = 2"
| "lock_rank Data_Download = 2"
| "lock_rank Tcp_Buffer = 2"
| "lock_rank Data_Counter = 3"
| "lock_rank Event_Sock = 3"

lemma lock_rank_bound: "lock_rank m \<le> 3"
  by (cases m) simp_all

lemma bodies_checked: "b \<in> set thread_bodies \<Longrightarrow> check lock_rank [] b = Some []"
proof -
  have "list_all (\<lambda>b. check lock_rank [] b = Some []) thread_bodies" by code_simp
  then show "b \<in> set thread_bodies \<Longrightarrow> check lock_rank [] b = Some []" by (simp add: list_all_iff)
qed

section \<open>Properties\<close>

text \<open>
  C10.  The threads cannot deadlock on their mutexes: however any number of threads running the program's
  thread functions interleave, no cycle of threads waits for each other, and whoever waits for a lock waits, directly or through other waiting
  threads, for a thread that can go on.
\<close>

theorem no_deadlock:
  assumes "\<And>i. \<exists>b \<in> set thread_bodies. T0 i = ([], [b])" and "lock_steps T0 T"
  shows "acyclic (waits_for T) \<and>
    (\<forall>i m k. snd (T i) = Lock m # k \<longrightarrow> can_step T i \<or> (\<exists>l. (i, l) \<in> (waits_for T)\<^sup>+ \<and> can_step T l))"
proof -
  have "disciplined lock_rank T0" by (rule disciplined_start) (use assms(1) bodies_checked in blast)
  then have d: "disciplined lock_rank T" by (rule lock_steps_disciplined[OF assms(2)])
  have "can_step T i \<or> (\<exists>l. (i, l) \<in> (waits_for T)\<^sup>+ \<and> can_step T l)" if "snd (T i) = Lock m # k" for i m k
    using blocked_or_steps[of lock_rank T i "[]"] holder_can_step[OF d lock_rank_bound] d that
    unfolding disciplined_def by (metis list.discI list.inject skeleton.inject(1))
  then show ?thesis using waits_for_acyclic[OF d] by blast
qed

text \<open>Two upload clients: the first one holds the lock of the upload connection, the second one waits for it.\<close>

theorem no_deadlock_witness:
  "\<exists>T. lock_steps (\<lambda>_. ([], [tcp_client_handler_9010_locks])) T \<and> (2, 1) \<in> waits_for T \<and> acyclic (waits_for T)"
proof -
  let ?T0 = "\<lambda>_ :: nat. ([], [tcp_client_handler_9010_locks]) :: thread"
  define r where "r = seqs [Loop Done, locked Data_Upload]"
  have b: "tcp_client_handler_9010_locks = Seq (Seq (Lock Data_Upload) (Unlock Data_Upload)) r"
    by (simp add: tcp_client_handler_9010_locks_def locked_def r_def)
  have step: "lock_steps ?T0 (T(i := t))" if "lock_steps ?T0 T" "T i = u" "thread_step (taken_locks T) u t" for T i t u
    using lk_step[OF that(1)] that(2,3) by blast
  let ?l = "([], [Lock Data_Upload, Unlock Data_Upload, r])" and ?s = "([], [Seq (Lock Data_Upload) (Unlock Data_Upload), r])"
  have "lock_steps ?T0 (?T0(1 := ?s))" by (rule step[OF lk_start refl]) (simp add: b st_seq)
  then have "lock_steps ?T0 (?T0(1 := ?s, 2 := ?s))" by (rule step[OF _ refl]) (simp add: b st_seq)
  then have "lock_steps ?T0 (?T0(1 := ?s, 2 := ?l))"
    using step[of "?T0(1 := ?s, 2 := ?s)" 2 ?s ?l] st_seq by fastforce
  then have "lock_steps ?T0 (?T0(2 := ?l, 1 := ?l))"
    using step[of "?T0(1 := ?s, 2 := ?l)" 1 ?s ?l] st_seq by (simp add: fun_upd_twist)
  then have t: "lock_steps ?T0 (?T0(2 := ?l, 1 := ([Data_Upload], [Unlock Data_Upload, r])))"
    using step[of "?T0(2 := ?l, 1 := ?l)" 1 ?l] st_lock[of Data_Upload _ "[]"] by (simp add: taken_locks_def)
  have m: "\<exists>b \<in> set thread_bodies. ?T0 i = ([], [b])" for i by (simp add: thread_bodies_def)
  from no_deadlock[OF m t] t show ?thesis by (intro exI conjI) (auto simp: waits_for_def)
qed

end
