(* ===== verification/Legacy_Buffers.thy ===== *)
theory Legacy_Buffers
  imports Download_Stream Receive
begin

text \<open>
  Older code of \<^verbatim>\<open>src/main18.c\<close> that the program no longer calls: the buffers of generic frames (\<open>buffer_write_data\<close>,
  \<open>can_buffer_extract\<close>, \<open>calculate_buffer_remaining\<close>), the insertion into the ring buffers (\<open>can_buffer_insert_batch\<close>)
  the difference of two times (\<open>diff_timespec\<close>) and an older report and simulator (\<open>send_can_tx_status\<close>,
  \<open>send_received_can_frame_to_pc\<close>, \<open>handle_along_mode\<close>).

  A generic frame is a type and a union, here its 288 bytes.  An array that was never allocated is \<open>None\<close>.  \<^verbatim>\<open>unsigned long\<close> and
  \<^verbatim>\<open>time_t\<close> have 32 bits on the target.
\<close>

section \<open>Buffers of generic frames\<close>

record GenericDataFrame =
  gf_data_type :: DataType
  gf_data :: "byte list"

record CanBufferState =
  cb_frames :: "GenericDataFrame list option"
  cb_max_frames :: u32
  cb_total_size :: u32
  cb_used_size :: u32
  cb_frame_count :: u32
  cb_overflow_flag :: u8

definition calculate_buffer_remaining :: "CanBufferState \<Rightarrow> u32" where
  "calculate_buffer_remaining buf =
     (if cb_frames buf = None then 0
      else if cb_used_size buf > cb_total_size buf then 0
      else cb_total_size buf - cb_used_size buf)"

text \<open>The sizes that the switch over the data type copies; other types are refused.\<close>

definition data_size :: "DataType \<Rightarrow> nat option" where
  "data_size t = (case t of DATA_TYPE_CAN \<Rightarrow> Some 48 | DATA_TYPE_SECOND_PULSE \<Rightarrow> Some 9 | DATA_TYPE_SIMULATOR \<Rightarrow> Some 288 | _ \<Rightarrow> None)"

definition buffer_write :: "DataType \<Rightarrow> byte list \<Rightarrow> CanBufferState \<Rightarrow> int \<times> CanBufferState" where
  "buffer_write data_type data buf =
     (if cb_frame_count buf \<ge> cb_max_frames buf then (-2, buf\<lparr>cb_overflow_flag := 1\<rparr>)
      else let n = unat (cb_frame_count buf);
               fs = the (cb_frames buf);
               f = (fs ! n)\<lparr>gf_data_type := data_type\<rparr>
           in case data_size data_type of
                None \<Rightarrow> (-3, buf\<lparr>cb_frames := Some (fs[n := f])\<rparr>)
              | Some k \<Rightarrow>
                  (let used = cb_used_size buf + (4 + of_nat k);
                       b1 = buf\<lparr>cb_frames := Some (fs[n := f\<lparr>gf_data := memcpy (gf_data f) 0 data k\<rparr>]),
                                cb_used_size := used, cb_frame_count := cb_frame_count buf + 1\<rparr>
                   in (0, if used > cb_total_size b1 then b1\<lparr>cb_used_size := cb_total_size b1\<rparr> else b1)))"

definition buffer_write_data ::
    "u8 \<Rightarrow> u8 \<Rightarrow> DataType \<Rightarrow> byte list option \<Rightarrow> CanBufferState list list \<Rightarrow> int \<times> CanBufferState list list" where
  "buffer_write_data ch type data_type data_ptr can_buffers =
     (case data_ptr of
        None \<Rightarrow> (-1, can_buffers)
      | Some data \<Rightarrow>
          if unat ch \<ge> AXICAN_MAX \<or> type \<ge> 3 then (-1, can_buffers)
          else case buffer_write data_type data (can_buffers ! unat ch ! unat type) of (ret, buf) \<Rightarrow>
            (ret, can_buffers[unat ch := (can_buffers ! unat ch)[unat type := buf]]))"

definition buffer_extract :: "CanBufferState \<Rightarrow> int \<times> GenericDataFrame option \<times> CanBufferState" where
  "buffer_extract buf =
     (case cb_frames buf of
        None \<Rightarrow> (-3, None, buf)
      | Some fs \<Rightarrow>
          if cb_frame_count buf = 0 then (-2, None, buf)
          else let move_count = unat (cb_frame_count buf) - 1;
                   moved = take move_count (drop 1 fs) @ drop move_count fs;
                   count = cb_frame_count buf - 1
               in (0, Some (fs ! 0), buf\<lparr>cb_frames := Some moved, cb_frame_count := count, cb_used_size := count * 292,
                                         cb_overflow_flag := 0\<rparr>))"

text \<open>
  The number of a data type is its index in the array, which has one column per type.  A negative channel and the end marker of
  the types are not refused and reach outside the array: \<open>None\<close>.
\<close>

definition type_index :: "DataType \<Rightarrow> nat" where
  "type_index t = (case t of DATA_TYPE_CAN \<Rightarrow> 0 | DATA_TYPE_SECOND_PULSE \<Rightarrow> 1 | DATA_TYPE_SIMULATOR \<Rightarrow> 2 | DATA_TYPE_DMA \<Rightarrow> 3
     | DATA_TYPE_1553B \<Rightarrow> 4 | DATA_TYPE_MAX \<Rightarrow> 5)"

definition can_buffer_extract ::
    "int \<Rightarrow> DataType \<Rightarrow> bool \<Rightarrow> CanBufferState list list \<Rightarrow> (int \<times> GenericDataFrame option \<times> CanBufferState list list) option" where
  "can_buffer_extract ch data_type frame_null can_buffers =
     (if ch \<ge> int AXICAN_MAX then Some (-1, None, can_buffers)
      else if frame_null then Some (-1, None, can_buffers)
      else if ch < 0 \<or> data_type = DATA_TYPE_MAX then None
      else case buffer_extract (can_buffers ! nat ch ! type_index data_type) of (ret, frame, buf) \<Rightarrow>
        Some (ret, frame, can_buffers[nat ch := (can_buffers ! nat ch)[type_index data_type := buf]]))"

section \<open>Insertion into the ring buffers\<close>

text \<open>The parameter \<^verbatim>\<open>data_len\<close> of the code is not used.\<close>

definition insert_into ::
    "(server \<Rightarrow> RingBuffer32ChSet) \<Rightarrow> (RingBuffer32ChSet \<Rightarrow> server \<Rightarrow> server) \<Rightarrow> u8 \<Rightarrow> byte list \<Rightarrow> nat \<Rightarrow> server \<Rightarrow>
     (errno + nat) \<times> server" where
  "insert_into sel upd can_id data count s =
     (case ringbuffer_32ch_put (Some (sel s)) can_id (Some data) 32 of (r, q) \<Rightarrow>
        (if unat (ret_val r) = count then Inr count else Inl ENOMEM, upd (the q) s))"

definition can_buffer_insert_batch :: "u8 \<Rightarrow> DataType \<Rightarrow> byte list option \<Rightarrow> nat \<Rightarrow> server \<Rightarrow> (errno + nat) \<times> server" where
  "can_buffer_insert_batch can_id data_type data count s =
     (case data of
        None \<Rightarrow> (Inl EINVAL, s)
      | Some d \<Rightarrow>
          if count = 0 \<or> can_id \<ge> 32 then (Inl EINVAL, s)
          else case data_type of
            DATA_TYPE_CAN \<Rightarrow> insert_into g_data_buf_set (\<lambda>q s. s\<lparr>g_data_buf_set := q\<rparr>) can_id d count s
          | DATA_TYPE_SIMULATOR \<Rightarrow> insert_into g_simulator_buf_set (\<lambda>q s. s\<lparr>g_simulator_buf_set := q\<rparr>) can_id d count s
          | DATA_TYPE_SECOND_PULSE \<Rightarrow> insert_into g_pulse_buf_set (\<lambda>q s. s\<lparr>g_pulse_buf_set := q\<rparr>) can_id d count s
          | _ \<Rightarrow> (Inl EINVAL, s))"

section \<open>Difference of two times\<close>

definition diff_timespec :: "u32 \<times> u32 \<Rightarrow> u32 \<times> u32 \<Rightarrow> u32" where
  "diff_timespec end_tm start_tm =
     (let sec = fst end_tm - fst start_tm;
          (nsec, sec) = (if sint (snd end_tm) < sint (snd start_tm)
                         then (snd end_tm + 1000000000 - snd start_tm, sec - 1)
                         else (snd end_tm - snd start_tm, sec))
      in nsec + sec * 1000000000)"

section \<open>Older report and simulator\<close>

text \<open>
  These functions can read outside an array, and then the language gives no meaning to what follows: the result is \<open>None\<close>.  The report is a local
  variable whose first six fields are never set; \<open>junk\<close> is what the variable holds.
\<close>

definition tx_status_frame ::
    "CAN_ARM_PC_DATA \<Rightarrow> u8 \<Rightarrow> u32 list \<Rightarrow> u8 \<Rightarrow> u8 \<Rightarrow> u32 \<Rightarrow> u32 \<Rightarrow> u64 \<Rightarrow> CAN_ARM_PC_DATA" where
  "tx_status_frame junk ch_id data_array status type total_count n ts =
     (let r = junk\<lparr>cd_head := 0x499602D2, cd_direction := 1, cd_type := type, cd_length := 0x30, cd_ch_id := ch_id,
                cd_total_count := total_count, cd_ch_count := n, cd_idr := data_array ! 0, cd_drcr := data_array ! 1,
                cd_dw1r := data_array ! 3, cd_dw2r := data_array ! 4, cd_status := status, cd_reserved1 := 0, cd_reserved2 := 0,
                cd_timestamp := ts\<rparr>
      in r\<lparr>cd_xor_checksum := calculate_xor_checksum (Some (can_arm_bytes r)) 64\<rparr>)"

definition send_can_tx_status ::
    "os \<Rightarrow> CAN_ARM_PC_DATA \<Rightarrow> u8 \<Rightarrow> u32 list \<Rightarrow> u8 \<Rightarrow> u8 \<Rightarrow> server \<Rightarrow> server option" where
  "send_can_tx_status os junk ch_id data_array status type s =
     (if unat ch_id \<ge> 6 \<or> length data_array < 5 then None
      else case bump_channel_count ch_id s of (n, s1) \<Rightarrow>
        (case clock_ts os s1 of (ts, s2) \<Rightarrow>
           Some (if data_upload_socket s2 = -1 then s2
                 else upload_send os (can_arm_bytes (tx_status_frame junk ch_id data_array status type
                        (next_total_count (data_counter s)) n (usec_of ts))) s2)))"

text \<open>The second word is read four words, not four bytes, behind the start of an array of two words.\<close>

definition send_received_can_frame_to_pc :: "u8 \<Rightarrow> server \<Rightarrow> server option" where
  "send_received_can_frame_to_pc can_id s =
     (if data_upload_socket s = -1 then Some s
      else if unat can_id \<ge> AXICAN_MAX then None
      else if dc_state (can_configs s ! unat can_id) \<noteq> CAN_STATE_OPENED then Some s
      else None)"

text \<open>
  The buffer is the one of column 1 (\<^verbatim>\<open>ALONG_MODE\<close>).  The first frame that matches is reported with an array of four
  words, which \<open>send_can_tx_status\<close> reads beyond its end; so the waiting and sending behind the report has no defined behaviour.  What remains is
  the counter of received frames.
\<close>

definition along_match :: "axican_frame \<Rightarrow> GenericDataFrame \<Rightarrow> bool" where
  "along_match frame f \<longleftrightarrow> gf_data_type f = DATA_TYPE_SIMULATOR \<and>
     sd_can_id (pc_arm_sim_of (gf_data f)) = af_can_id frame \<and> sd_data_type (pc_arm_sim_of (gf_data f)) = af_data0 frame"

definition handle_along_mode :: "nat \<Rightarrow> axican_frame \<Rightarrow> CanBufferState list list \<Rightarrow> u32 \<Rightarrow> u32 option" where
  "handle_along_mode can_id rx_frame can_buffers along_more_int_couter =
     (let along_more_int_couter = along_more_int_couter + 1;
          sim_buf = can_buffers ! can_id ! 1
      in case cb_frames sim_buf of
           None \<Rightarrow> Some along_more_int_couter
         | Some fs \<Rightarrow>
             if cb_frame_count sim_buf = 0 then Some along_more_int_couter
             else if list_ex (along_match rx_frame) (take (unat (cb_frame_count sim_buf)) fs) then None
             else Some along_more_int_couter)"

section \<open>A buffer is a bounded queue\<close>

definition cb_inv :: "CanBufferState \<Rightarrow> bool" where
  "cb_inv buf \<longleftrightarrow> (\<exists>fs. cb_frames buf = Some fs \<and> length fs = unat (cb_max_frames buf) \<and>
     (\<forall>f \<in> set fs. length (gf_data f) = 288) \<and>
     (\<forall>f \<in> set (take (unat (cb_frame_count buf)) fs). data_size (gf_data_type f) \<noteq> None)) \<and>
     cb_frame_count buf \<le> cb_max_frames buf"

definition frame_elem :: "GenericDataFrame \<Rightarrow> DataType \<times> byte list" where
  "frame_elem f = (gf_data_type f, take (the (data_size (gf_data_type f))) (gf_data f))"

definition cb_list :: "CanBufferState \<Rightarrow> (DataType \<times> byte list) list" where
  "cb_list buf = map frame_elem (take (unat (cb_frame_count buf)) (the (cb_frames buf)))"

definition cb_put :: "CanBufferState \<Rightarrow> DataType \<times> byte list \<Rightarrow> bool \<times> CanBufferState" where
  "cb_put buf x = (case buffer_write (fst x) (snd x) buf of (ret, buf') \<Rightarrow> (ret = 0, buf'))"

definition cb_get :: "CanBufferState \<Rightarrow> (DataType \<times> byte list) option \<times> CanBufferState" where
  "cb_get buf = (case buffer_extract buf of (ret, f, buf') \<Rightarrow> (if ret = 0 then map_option frame_elem f else None, buf'))"

definition cb_fits :: "CanBufferState \<Rightarrow> DataType \<times> byte list \<Rightarrow> bool" where
  "cb_fits buf x \<longleftrightarrow> data_size (fst x) = Some (length (snd x))"

lemma data_size_le: "data_size t = Some k \<Longrightarrow> k \<le> 288"
  by (auto simp: data_size_def split: DataType.splits)

lemma unat_inc:
  assumes "a < (b :: u32)"
  shows "unat (a + 1) = Suc (unat a)"
proof -
  have "unat b < 2 ^ 32" using unsigned_less[of b] by simp
  then have "Suc (unat a) < 2 ^ 32" using assms by (simp add: word_less_nat_alt)
  then show ?thesis by (simp add: unat_word_ariths)
qed

lemma cb_put_laws:
  assumes "cb_inv buf" "cb_fits buf x" "cb_put buf x = (b, buf')"
  shows "cb_inv buf' \<and> (b, cb_list buf') = spec_put (unat (cb_max_frames buf)) (cb_list buf) x \<and>
    cb_max_frames buf' = cb_max_frames buf"
proof (cases "cb_frame_count buf < cb_max_frames buf")
  case False
  then show ?thesis
    using assms by (auto simp: cb_put_def buffer_write_def cb_inv_def cb_list_def spec_put_def word_less_nat_alt word_le_nat_alt)
next
  case True
  obtain fs where fs: "cb_frames buf = Some fs" "length fs = unat (cb_max_frames buf)" "\<forall>f \<in> set fs. length (gf_data f) = 288"
    "\<forall>f \<in> set (take (unat (cb_frame_count buf)) fs). data_size (gf_data_type f) \<noteq> None"
    using assms(1) by (auto simp: cb_inv_def)
  obtain t bs where x: "x = (t, bs)" "data_size t = Some (length bs)" using assms(2) by (cases x) (simp add: cb_fits_def)
  let ?n = "unat (cb_frame_count buf)"
  let ?f = "(fs ! ?n)\<lparr>gf_data_type := t, gf_data := memcpy (gf_data (fs ! ?n)) 0 bs (length bs)\<rparr>"
  have n: "?n < length fs" using True fs(2) by (simp add: word_less_nat_alt)
  have l: "length (gf_data ?f) = 288" using fs(3) n data_size_le[OF x(2)] by simp
  have r: "b" "cb_frames buf' = Some (fs[?n := ?f])" "unat (cb_frame_count buf') = Suc ?n" "cb_max_frames buf' = cb_max_frames buf"
    using assms(3) True[folded not_le] x fs(1) unat_inc[OF True]
    by (auto simp: cb_put_def buffer_write_def Let_def split: if_splits)
  have t: "take (Suc ?n) (fs[?n := ?f]) = take ?n fs @ [?f]" using n by (simp add: take_Suc_conv_app_nth)
  have "frame_elem ?f = x" using x by (simp add: frame_elem_def memcpy_def)
  moreover have "length (gf_data g) = 288" if "g \<in> set (fs[?n := ?f])" for g
    using that set_update_subset_insert[of fs ?n ?f] fs(3) l by auto
  ultimately show ?thesis
    using r t fs(1,2,4) n x(2) by (auto simp: cb_inv_def cb_list_def spec_put_def word_le_nat_alt)
qed

lemma cb_get_laws:
  assumes "cb_inv buf" "cb_get buf = (y, buf')"
  shows "cb_inv buf' \<and> (y, cb_list buf') = spec_get (cb_list buf) \<and> cb_max_frames buf' = cb_max_frames buf"
proof (cases "cb_frame_count buf = 0")
  case True
  then show ?thesis using assms by (auto simp: cb_get_def buffer_extract_def cb_inv_def cb_list_def spec_get_def)
next
  case False
  obtain fs where fs: "cb_frames buf = Some fs" "length fs = unat (cb_max_frames buf)" "\<forall>f \<in> set fs. length (gf_data f) = 288"
    "\<forall>f \<in> set (take (unat (cb_frame_count buf)) fs). data_size (gf_data_type f) \<noteq> None" and le: "cb_frame_count buf \<le> cb_max_frames buf"
    using assms(1) by (auto simp: cb_inv_def)
  obtain n where n: "unat (cb_frame_count buf) = Suc n" using False by (metis not0_implies_Suc unat_eq_0)
  then have n1: "unat (cb_frame_count buf - 1) = n" using False by (simp add: unat_minus_one)
  have "Suc n \<le> length fs" using le fs(2) n by (simp add: word_le_nat_alt)
  then obtain f gs where f: "fs = f # gs" "n \<le> length gs" by (cases fs) auto
  have m: "take n (take n gs @ drop n (f # gs)) = take n gs" "length (take n gs @ drop n (f # gs)) = length fs"
    "set (take n gs @ drop n (f # gs)) \<subseteq> set fs"
    using f by (auto dest: in_set_takeD in_set_dropD)
  have r: "y = Some (frame_elem f)" "cb_frames buf' = Some (take n gs @ drop n (f # gs))" "unat (cb_frame_count buf') = n"
    "cb_max_frames buf' = cb_max_frames buf"
    using assms(2) False fs(1) n n1 f(1) by (auto simp: cb_get_def buffer_extract_def Let_def)
  show ?thesis
    using r m fs f n le by (auto simp: cb_inv_def cb_list_def spec_get_def word_le_nat_alt)
qed

interpretation legacy: bounded_fifo cb_put cb_get cb_list "\<lambda>buf. unat (cb_max_frames buf)" cb_fits cb_inv
proof (unfold_locales, goal_cases)
  case (1 q x b q')
  then show ?case using cb_put_laws by blast
next
  case (2 q y q')
  then show ?case using cb_get_laws by blast
next
  case (3 q x b q')
  then show ?case using cb_put_laws[of q x b q'] by (simp add: cb_fits_def fun_eq_iff)
next
  case (4 q y q')
  then show ?case using cb_get_laws[of q y q'] by (simp add: cb_fits_def fun_eq_iff)
next
  case (5 q)
  then show ?case by (auto simp: cb_inv_def cb_list_def word_le_nat_alt)
qed

text \<open>What is written to an empty buffer of the array comes back from it, and no other buffer changes.\<close>

lemma write_extract_roundtrip:
  assumes "unat ch < AXICAN_MAX" "type < 3" "unat ch < length bufs" "unat type < length (bufs ! unat ch)" "unat type = type_index t"
    and "cb_inv (bufs ! unat ch ! unat type)" "cb_list (bufs ! unat ch ! unat type) = []" "cb_max_frames (bufs ! unat ch ! unat type) > 0"
    and "data_size t = Some (length data)"
    and w: "buffer_write_data ch type t (Some data) bufs = (ret, bufs1)"
  shows "ret = 0 \<and> (\<exists>f bufs2. can_buffer_extract (int (unat ch)) t False bufs1 = Some (0, Some f, bufs2) \<and> frame_elem f = (t, data) \<and>
    (\<forall>i j. (i, j) \<noteq> (unat ch, unat type) \<longrightarrow> bufs2 ! i ! j = bufs ! i ! j))"
proof -
  let ?b = "bufs ! unat ch ! unat type"
  have max: "t \<noteq> DATA_TYPE_MAX" using assms(9) by (auto simp: data_size_def)
  obtain r1 b1 where b1: "buffer_write t data ?b = (r1, b1)" by fastforce
  from cb_put_laws[of ?b "(t, data)", OF assms(6)] b1
  have p: "cb_inv b1" "r1 = 0" "cb_list b1 = [(t, data)]"
    using assms(7-9) by (simp_all add: cb_fits_def cb_put_def spec_put_def word_less_nat_alt)
  obtain r2 f b2 where b2: "buffer_extract b1 = (r2, f, b2)" by (metis prod_cases3)
  from cb_get_laws[of b1, OF p(1)] b2 p(3) have g: "r2 = 0" "map_option frame_elem f = Some (t, data)"
    by (auto simp: cb_get_def spec_get_def split: if_splits)
  then obtain fr where fr: "f = Some fr" "frame_elem fr = (t, data)" by auto
  have e: "ret = 0" "bufs1 = bufs[unat ch := (bufs ! unat ch)[unat type := b1]]"
    using w b1 p(2) assms(1,2) by (auto simp: buffer_write_data_def split: if_splits)
  have "bufs1 ! unat ch ! unat type = b1" using e assms(3,4) by simp
  moreover have "int (unat ch) < int AXICAN_MAX" using assms(1) by (simp only: of_nat_less_iff)
  ultimately have x: "can_buffer_extract (int (unat ch)) t False bufs1 =
      Some (0, Some fr, bufs1[unat ch := (bufs1 ! unat ch)[unat type := b2]])"
    using b2 fr(1) g(1) max assms(5)[symmetric] by (simp add: can_buffer_extract_def del: int_nat_eq)
  have "bufs1[unat ch := (bufs1 ! unat ch)[unat type := b2]] ! i ! j = bufs ! i ! j" if "(i, j) \<noteq> (unat ch, unat type)" for i j
    using that assms(3) by (cases "i = unat ch") (auto simp: e(2))
  then show ?thesis using e(1) x fr(2) by blast
qed

text \<open>
  Writing counts the bytes of the stored structure, extracting those of whole generic frames, so that taking out one of two pulses makes the
  used size grow.
\<close>

lemma used_size_grows_on_extract:
  "let buf = \<lparr>cb_frames = Some (replicate 2 \<lparr>gf_data_type = DATA_TYPE_CAN, gf_data = replicate 288 0\<rparr>), cb_max_frames = 2,
        cb_total_size = 584, cb_used_size = 0, cb_frame_count = 0, cb_overflow_flag = 0\<rparr>;
      b2 = snd (cb_put (snd (cb_put buf (DATA_TYPE_SECOND_PULSE, replicate 9 1))) (DATA_TYPE_SECOND_PULSE, replicate 9 2))
   in cb_used_size b2 = 26 \<and> cb_used_size (snd (cb_get b2)) = 292"
  by code_simp

text \<open>The older simulator cannot serve a frame it was configured for: once a matching reply is stored, the matching frame has no defined handling.\<close>

lemma along_mode_match_undefined:
  assumes "cb_inv buf" "cb_frame_count buf < cb_max_frames buf" "length (sd_send_data d) = 256"
    and "buffer_write DATA_TYPE_SIMULATOR (pc_arm_sim_bytes d) buf = (ret, buf')" and "bufs ! i ! 1 = buf'"
    and "sd_can_id d = af_can_id rx" "sd_data_type d = af_data0 rx"
  shows "handle_along_mode i rx bufs n = None"
proof -
  have sz: "data_size DATA_TYPE_SIMULATOR = Some 288" by (simp add: data_size_def)
  from cb_put_laws[of buf "(DATA_TYPE_SIMULATOR, pc_arm_sim_bytes d)" "ret = 0" buf'] assms(1,3,4) sz
  have i: "cb_inv buf'" and "cb_list buf' = snd (spec_put (unat (cb_max_frames buf)) (cb_list buf) (DATA_TYPE_SIMULATOR, pc_arm_sim_bytes d))"
    by (auto simp: cb_fits_def cb_put_def dest: arg_cong[where f = snd])
  moreover have "length (cb_list buf) < unat (cb_max_frames buf)"
    using assms(1,2) by (auto simp: cb_list_def cb_inv_def word_less_nat_alt)
  ultimately have "(DATA_TYPE_SIMULATOR, pc_arm_sim_bytes d) \<in> set (cb_list buf')" by (simp add: spec_put_def)
  then obtain f where f: "f \<in> set (take (unat (cb_frame_count buf')) (the (cb_frames buf')))"
      "frame_elem f = (DATA_TYPE_SIMULATOR, pc_arm_sim_bytes d)" unfolding cb_list_def by (metis (no_types, lifting) imageE set_map)
  obtain fs where fs: "cb_frames buf' = Some fs" "\<forall>f \<in> set fs. length (gf_data f) = 288" using i by (auto simp: cb_inv_def)
  then have "gf_data f = pc_arm_sim_bytes d" "gf_data_type f = DATA_TYPE_SIMULATOR"
    using f sz by (auto simp: frame_elem_def dest: in_set_takeD)
  then have "along_match rx f" using assms(3,6,7) by (simp add: along_match_def)
  moreover have "cb_frame_count buf' \<noteq> 0" using f(1) by auto
  ultimately show ?thesis using f(1) fs(1) assms(5) by (auto simp: handle_along_mode_def Let_def list_ex_iff)
qed

text \<open>The older report starts with the bytes that the uninitialised variable held.\<close>

lemma tx_status_sends_junk:
  assumes "unat ch < 6" "length da \<ge> 5" "data_upload_socket s \<noteq> -1"
  obtains t rest where "send_can_tx_status os junk ch da st ty s = Some t"
    and "Sent (data_upload_socket s) (le_bytes 4 (cd_PC_ARM_DATE_HEAD junk) @ rest) \<in> set (sys_trace t)"
proof -
  obtain n s1 ts s2 where b: "bump_channel_count ch s = (n, s1)" and c: "clock_ts os s1 = (ts, s2)" by (metis surj_pair)
  have u: "data_upload_socket s2 = data_upload_socket s"
    using b c by (auto simp: bump_channel_count_def clock_ts_def sys_clock_def Let_def split: option.splits)
  let ?r = "tx_status_frame junk ch da st ty (next_total_count (data_counter s)) n (usec_of ts)"
  have "take 4 (can_arm_bytes ?r) = le_bytes 4 (cd_PC_ARM_DATE_HEAD junk)"
    by (simp add: can_arm_bytes_def tx_status_frame_def Let_def)
  then have e: "can_arm_bytes ?r = le_bytes 4 (cd_PC_ARM_DATE_HEAD junk) @ drop 4 (can_arm_bytes ?r)" by (metis append_take_drop_id)
  have "Sent (data_upload_socket s) (can_arm_bytes ?r) \<in> set (sys_trace (upload_send os (can_arm_bytes ?r) s2))"
    by (simp add: upload_send_def sys_send_def sys_shutdown_def u Let_def)
  then show thesis using that[of "upload_send os (can_arm_bytes ?r) s2"] e assms b c u
    by (simp add: send_can_tx_status_def) metis
qed

text \<open>A batch of more than one element is reported as failed although its first element was stored.\<close>

lemma insert_batch_stores_one:
  assumes "set_inv (g_data_buf_set s)" "ch_ok (g_data_buf_set s) ch 32" "ch < 32" "count > 1" "length d = unat (elem_size (g_data_buf_set s))"
    and "length (ch_contents (g_data_buf_set s) ch) < ch_capacity (g_data_buf_set s) ch"
    and "can_buffer_insert_batch ch DATA_TYPE_CAN (Some d) count s = (r, t)"
  shows "r = Inl ENOMEM \<and> ch_contents (g_data_buf_set t) ch = ch_contents (g_data_buf_set s) ch @ [d]"
  using assms(3)[folded not_le] assms(4,7) ch32_put_room[OF assms(1,2,6), of d] set_push_laws(2)[OF assms(1,2,6,5), of ch]
  by (auto simp: can_buffer_insert_batch_def insert_into_def ret_val_def)

text \<open>The difference in nanoseconds is exact modulo \<open>2 ^ 32\<close>, that is for less than 4.3 seconds.\<close>

lemma diff_timespec_value:
  assumes "s1 * 1000000000 + n1 \<le> s2 * 1000000000 + n2"
  shows "diff_timespec (of_nat s2, of_nat n2) (of_nat s1, of_nat n1) =
    of_nat (s2 * 1000000000 + n2 - (s1 * 1000000000 + n1))"
proof -
  have "of_nat (s2 * 1000000000 + n2 - (s1 * 1000000000 + n1)) =
    (of_nat s2 - of_nat s1) * 1000000000 + (of_nat n2 - of_nat n1 :: u32)"
    using assms(1) by (simp add: of_nat_diff algebra_simps)
  then show ?thesis by (simp add: diff_timespec_def Let_def algebra_simps split: prod.split)
qed

end
