(* ===== verification/Frame_Queue.thy ===== *)
theory Frame_Queue
  imports Wire_Structs
begin

text \<open>
  The linked frame queue (\<^verbatim>\<open>src/can_frame_queue.c\<close>), which is kept in the repository but is not part of the build.

  The block of nodes is an explicit store: a list of nodes, a pointer to a node is its index.  Each node has two links, one for the queue and
  one for the list of free nodes.  A call that waits for a condition returns \<open>Waiting\<close>; what it does when it is
  woken is a function of its own.  A batch is a list, its size the length of the list.  Null arguments, which every function refuses, and a
  failing \<^verbatim>\<open>pthread_cond_wait\<close>, which cannot happen on an initialised condition, are not represented.
\<close>

section \<open>Nodes and queues\<close>

record CanFrameNode =
  nd_frame :: axican_frame
  nd_can_id :: int
  nd_timestamp :: "int \<times> int"
  nd_next :: "nat option"
  nd_pool_next :: "nat option"

record CanFrameQueue =
  fq_head :: "nat option"
  fq_tail :: "nat option"
  fq_pool_head :: "nat option"
  fq_count :: int
  fq_max_size :: int
  fq_nodes :: "CanFrameNode list"

record BatchFrame =
  bf_frame :: axican_frame
  bf_ts :: "int \<times> int"
  bf_can_id :: int

datatype 'a outcome = Returned 'a | Waiting

definition upd_node :: "nat \<Rightarrow> (CanFrameNode \<Rightarrow> CanFrameNode) \<Rightarrow> CanFrameQueue \<Rightarrow> CanFrameQueue" where
  "upd_node n f q = q\<lparr>fq_nodes := (fq_nodes q)[n := f (fq_nodes q ! n)]\<rparr>"

section \<open>Operations\<close>

text \<open>The fields of a new node that are not set are those of \<open>junk\<close>.\<close>

definition can_queue_init :: "bool \<Rightarrow> (nat \<Rightarrow> CanFrameNode) \<Rightarrow> int \<Rightarrow> CanFrameQueue \<Rightarrow> CanFrameQueue" where
  "can_queue_init ok junk max_size q =
     (if max_size \<le> 0 then q
      else let q1 = q\<lparr>fq_head := None, fq_tail := None, fq_count := 0, fq_max_size := max_size\<rparr>
           in if \<not> ok then q1
              else q1\<lparr>fq_pool_head := Some 0,
                      fq_nodes := map (\<lambda>i. (junk i)\<lparr>nd_pool_next := if int i < max_size - 1 then Some (i + 1) else None\<rparr>)
                                    [0..<nat max_size]\<rparr>)"

definition link_node :: "BatchFrame \<Rightarrow> nat \<Rightarrow> nat option \<Rightarrow> CanFrameQueue \<Rightarrow> CanFrameQueue" where
  "link_node b n last_node q =
     (let q1 = q\<lparr>fq_pool_head := nd_pool_next (fq_nodes q ! n)\<rparr>;
          q2 = upd_node n (\<lambda>x. x\<lparr>nd_frame := bf_frame b, nd_can_id := bf_can_id b, nd_timestamp := bf_ts b, nd_next := None\<rparr>) q1
      in case last_node of
           Some l \<Rightarrow> upd_node l (\<lambda>x. x\<lparr>nd_next := Some n\<rparr>) q2
         | None \<Rightarrow> (case fq_tail q2 of None \<Rightarrow> q2\<lparr>fq_head := Some n\<rparr>
                    | Some t \<Rightarrow> upd_node t (\<lambda>x. x\<lparr>nd_next := Some n\<rparr>) q2))"

fun append_nodes :: "BatchFrame list \<Rightarrow> nat option \<Rightarrow> CanFrameQueue \<Rightarrow> bool \<times> nat option \<times> CanFrameQueue" where
  "append_nodes [] last_node q = (True, last_node, q)"
| "append_nodes (b # bs) last_node q =
     (case fq_pool_head q of
        None \<Rightarrow> (False, last_node, q)
      | Some n \<Rightarrow> append_nodes bs (Some n) (link_node b n last_node q))"

definition enqueue_finish :: "BatchFrame list \<Rightarrow> CanFrameQueue \<Rightarrow> int \<times> CanFrameQueue" where
  "enqueue_finish batch q =
     (case append_nodes batch None q of
        (False, _, q1) \<Rightarrow> (-1, q1)
      | (True, last_node, q1) \<Rightarrow> (0, if last_node = None then q1 else q1\<lparr>fq_tail := last_node\<rparr>))"

definition enqueue_resume :: "BatchFrame list \<Rightarrow> CanFrameQueue \<Rightarrow> int outcome \<times> CanFrameQueue" where
  "enqueue_resume batch q =
     (if fq_count q + int (length batch) > fq_max_size q then (Waiting, q)
      else case enqueue_finish batch q of (ret, q1) \<Rightarrow> (Returned ret, q1))"

definition can_queue_enqueue_batch :: "BatchFrame list \<Rightarrow> CanFrameQueue \<Rightarrow> int outcome \<times> CanFrameQueue" where
  "can_queue_enqueue_batch batch q =
     (if batch = [] then (Returned (-1), q)
      else enqueue_resume batch (q\<lparr>fq_count := fq_count q + int (length batch)\<rparr>))"

fun collect :: "CanFrameNode list \<Rightarrow> nat \<Rightarrow> nat option \<Rightarrow> nat list \<times> nat option" where
  "collect ns 0 p = ([], p)"
| "collect ns (Suc k) p =
     (case p of None \<Rightarrow> ([], None) | Some n \<Rightarrow> (case collect ns k (nd_next (ns ! n)) of (xs, p') \<Rightarrow> (n # xs, p')))"

definition can_queue_dequeue_batch :: "int \<Rightarrow> CanFrameQueue \<Rightarrow> (int \<times> nat list) outcome \<times> CanFrameQueue" where
  "can_queue_dequeue_batch max_count q =
     (if max_count \<le> 0 then (Returned (-1, []), q)
      else if fq_count q = 0 then (Waiting, q)
      else let take_count = (if fq_count q < max_count then fq_count q else max_count)
           in case collect (fq_nodes q) (nat take_count) (fq_head q) of (nodes, current) \<Rightarrow>
                (Returned (int (length nodes), nodes),
                 q\<lparr>fq_head := current, fq_tail := (if current = None then None else fq_tail q),
                   fq_count := fq_count q - int (length nodes)\<rparr>))"

definition can_queue_recycle_nodes :: "nat list \<Rightarrow> CanFrameQueue \<Rightarrow> CanFrameQueue" where
  "can_queue_recycle_nodes nodes q =
     (if nodes = [] then q
      else (upd_node (last nodes) (\<lambda>x. x\<lparr>nd_pool_next := fq_pool_head q\<rparr>) q)\<lparr>fq_pool_head := Some (hd nodes)\<rparr>)"

text \<open>The first component is the pointer that is freed.\<close>

definition can_queue_destroy :: "CanFrameQueue \<Rightarrow> nat option \<times> CanFrameQueue" where
  "can_queue_destroy q = (fq_pool_head q, q\<lparr>fq_pool_head := None, fq_head := None, fq_tail := None, fq_count := 0, fq_max_size := 0\<rparr>)"

section \<open>The lists behind the links\<close>

fun chain :: "(CanFrameNode \<Rightarrow> nat option) \<Rightarrow> CanFrameNode list \<Rightarrow> nat option \<Rightarrow> nat list \<Rightarrow> bool" where
  "chain link ns p [] \<longleftrightarrow> p = None"
| "chain link ns p (x # xs) \<longleftrightarrow> p = Some x \<and> x < length ns \<and> chain link ns (link (ns ! x)) xs"

definition fq_inv :: "CanFrameQueue \<Rightarrow> nat list \<Rightarrow> nat list \<Rightarrow> bool" where
  "fq_inv q xs ps \<longleftrightarrow> chain nd_next (fq_nodes q) (fq_head q) xs \<and> fq_tail q = (if xs = [] then None else Some (last xs)) \<and>
     chain nd_pool_next (fq_nodes q) (fq_pool_head q) ps \<and> distinct (xs @ ps)"

definition fq_frames :: "CanFrameQueue \<Rightarrow> nat list \<Rightarrow> axican_frame list" where
  "fq_frames q xs = map (\<lambda>n. nd_frame (fq_nodes q ! n)) xs"

lemma chain_bounds: "chain link ns p xs \<Longrightarrow> n \<in> set xs \<Longrightarrow> n < length ns"
  by (induction xs arbitrary: p) auto

lemma chain_frame:
  "chain link ns p xs \<Longrightarrow> length ns' = length ns \<Longrightarrow> (\<forall>x \<in> set xs. link (ns' ! x) = link (ns ! x)) \<Longrightarrow> chain link ns' p xs"
  by (induction xs arbitrary: p) auto

lemma chain_snoc:
  assumes "chain link ns p (xs @ [l])" and "n < length ns" "n \<notin> set (xs @ [l])" "distinct (xs @ [l])"
    and "length ns' = length ns" "\<forall>x \<in> set xs. link (ns' ! x) = link (ns ! x)" "link (ns' ! l) = Some n" "link (ns' ! n) = None"
  shows "chain link ns' p (xs @ [l, n])"
  using assms by (induction xs arbitrary: p) auto

lemma nodes_upd [simp]:
  "length (fq_nodes (upd_node n f q)) = length (fq_nodes q)" "fq_head (upd_node n f q) = fq_head q"
  "fq_tail (upd_node n f q) = fq_tail q" "fq_pool_head (upd_node n f q) = fq_pool_head q"
  "fq_count (upd_node n f q) = fq_count q" "fq_max_size (upd_node n f q) = fq_max_size q"
  "fq_nodes (upd_node n f q) ! m = (if m = n \<and> n < length (fq_nodes q) then f (fq_nodes q ! n) else fq_nodes q ! m)"
  by (cases "n < length (fq_nodes q)") (auto simp: upd_node_def nth_list_update list_update_beyond)

text \<open>The queue while a batch is linked: \<open>xs\<close> are all nodes linked so far, \<open>last\<close> is the last one of this batch.\<close>

definition linking :: "CanFrameQueue \<Rightarrow> nat option \<Rightarrow> nat list \<Rightarrow> nat list \<Rightarrow> bool" where
  "linking q last_node xs ps \<longleftrightarrow> chain nd_next (fq_nodes q) (fq_head q) xs \<and>
     (case last_node of None \<Rightarrow> fq_tail q = (if xs = [] then None else Some (last xs)) | Some l \<Rightarrow> xs \<noteq> [] \<and> l = last xs) \<and>
     chain nd_pool_next (fq_nodes q) (fq_pool_head q) ps \<and> distinct (xs @ ps)"

lemma link_node_first:
  assumes "linking q last_node [] (n # ps)"
  shows "linking (link_node b n last_node q) (Some n) [n] ps" and "fq_frames (link_node b n last_node q) [n] = [bf_frame b]"
proof -
  have e: "last_node = None" "fq_tail q = None" "n < length (fq_nodes q)" "n \<notin> set ps" "distinct ps"
    and ch: "chain nd_pool_next (fq_nodes q) (nd_pool_next (fq_nodes q ! n)) ps"
    using assms by (auto simp: linking_def split: option.splits)
  have "chain nd_pool_next (fq_nodes (link_node b n last_node q)) (nd_pool_next (fq_nodes q ! n)) ps"
    by (rule chain_frame[OF ch]) (use e in \<open>auto simp: link_node_def Let_def\<close>)
  then show "linking (link_node b n last_node q) (Some n) [n] ps"
    using e by (simp add: linking_def) (simp add: link_node_def)
  show "fq_frames (link_node b n last_node q) [n] = [bf_frame b]" using e by (simp add: fq_frames_def link_node_def)
qed

lemma link_node_behind:
  fixes b :: BatchFrame
  assumes "linking q last_node (ys @ [l]) (n # ps)"
  defines "q' \<equiv> link_node b n last_node q"
  shows "linking q' (Some n) (ys @ [l, n]) ps" and "fq_frames q' (ys @ [l, n]) = fq_frames q (ys @ [l]) @ [bf_frame b]"
proof -
  have n: "n < length (fq_nodes q)" "n \<notin> set (ys @ [l])" "n \<notin> set ps" "distinct (ys @ [l] @ n # ps)"
    and t: "last_node = Some l \<or> last_node = None \<and> fq_tail q = Some l"
    and ch: "chain nd_next (fq_nodes q) (fq_head q) (ys @ [l])" "chain nd_pool_next (fq_nodes q) (nd_pool_next (fq_nodes q ! n)) ps"
    using assms(1) by (auto simp: linking_def split: option.splits)
  have l: "l < length (fq_nodes q)" using chain_bounds[OF ch(1)] by simp
  let ?q2 = "upd_node n (\<lambda>x. x\<lparr>nd_frame := bf_frame b, nd_can_id := bf_can_id b, nd_timestamp := bf_ts b, nd_next := None\<rparr>)
      (q\<lparr>fq_pool_head := nd_pool_next (fq_nodes q ! n)\<rparr>)"
  have q': "q' = upd_node l (\<lambda>x. x\<lparr>nd_next := Some n\<rparr>) ?q2"
    using t by (auto simp: q'_def link_node_def)
  have nd: "nd_next (fq_nodes q' ! x) = nd_next (fq_nodes q ! x)" if "x \<in> set ys" for x
    using that n by (auto simp: q')
  have "chain nd_next (fq_nodes q') (fq_head q) (ys @ [l, n])"
    by (rule chain_snoc[OF ch(1) n(1,2)]) (use n l nd in \<open>auto simp: q'\<close>)
  moreover have "chain nd_pool_next (fq_nodes q') (nd_pool_next (fq_nodes q ! n)) ps"
    by (rule chain_frame[OF ch(2)]) (use n in \<open>auto simp: q'\<close>)
  ultimately show "linking q' (Some n) (ys @ [l, n]) ps" using n by (simp add: linking_def) (simp add: q')
  show "fq_frames q' (ys @ [l, n]) = fq_frames q (ys @ [l]) @ [bf_frame b]" using n l by (auto simp: fq_frames_def q')
qed

lemma link_node_law:
  assumes "linking q last_node xs (n # ps)"
  shows "linking (link_node b n last_node q) (Some n) (xs @ [n]) ps \<and>
    fq_frames (link_node b n last_node q) (xs @ [n]) = fq_frames q xs @ [bf_frame b]"
proof (cases xs rule: rev_cases)
  case Nil
  then show ?thesis using link_node_first assms by (simp add: fq_frames_def)
next
  case (snoc ys l)
  then show ?thesis using link_node_behind[of q last_node ys l n ps b] assms by simp
qed

lemma link_node_sizes:
  "fq_count (link_node b n last_node q) = fq_count q" "fq_max_size (link_node b n last_node q) = fq_max_size q"
  by (simp_all add: link_node_def Let_def split: option.split)

lemma append_nodes_law:
  assumes "linking q last_node xs ps" "length batch \<le> length ps" "append_nodes batch last_node q = (ok, l, q')"
  shows "ok \<and> linking q' l (xs @ take (length batch) ps) (drop (length batch) ps) \<and>
    fq_frames q' (xs @ take (length batch) ps) = fq_frames q xs @ map bf_frame batch \<and>
    fq_count q' = fq_count q \<and> fq_max_size q' = fq_max_size q \<and> (batch \<noteq> [] \<longrightarrow> l \<noteq> None)"
  using assms
proof (induction batch arbitrary: last_node q xs ps)
  case (Cons b bs)
  obtain n ps' where ps: "ps = n # ps'" using Cons.prems(2) by (cases ps) auto
  have p: "fq_pool_head q = Some n" using Cons.prems(1) by (simp add: linking_def ps)
  have r: "append_nodes bs (Some n) (link_node b n last_node q) = (ok, l, q')" using Cons.prems(3) p by simp
  note law = link_node_law[OF Cons.prems(1)[unfolded ps], of b]
  have "bs = [] \<Longrightarrow> l = Some n" using r by auto
  then show ?case
    using Cons.IH[OF conjunct1[OF law] _ r] Cons.prems(2) law by (auto simp: ps link_node_sizes)
qed simp

text \<open>What the operations do to a queue \<open>xs\<close> with free nodes \<open>ps\<close>.\<close>

lemma enqueue_law:
  assumes "fq_inv q xs ps" "batch \<noteq> []" "length batch \<le> length ps" "fq_count q + 2 * int (length batch) \<le> fq_max_size q"
  obtains q' where "can_queue_enqueue_batch batch q = (Returned 0, q')"
    "fq_inv q' (xs @ take (length batch) ps) (drop (length batch) ps)"
    "fq_frames q' (xs @ take (length batch) ps) = fq_frames q xs @ map bf_frame batch"
    "fq_count q' = fq_count q + int (length batch)" "fq_max_size q' = fq_max_size q"
proof -
  let ?q1 = "q\<lparr>fq_count := fq_count q + int (length batch)\<rparr>"
  obtain ok l q2 where a: "append_nodes batch None ?q1 = (ok, l, q2)" by (metis prod_cases3)
  have "linking ?q1 None xs ps" using assms(1) by (simp add: linking_def fq_inv_def)
  note law = append_nodes_law[OF this assms(3) a]
  have "can_queue_enqueue_batch batch q = (Returned 0, q2\<lparr>fq_tail := l\<rparr>)"
    using law assms(2,4) by (auto simp: can_queue_enqueue_batch_def enqueue_resume_def enqueue_finish_def a)
  moreover have "fq_inv (q2\<lparr>fq_tail := l\<rparr>) (xs @ take (length batch) ps) (drop (length batch) ps)"
    using law assms(2) by (auto simp: linking_def fq_inv_def split: option.splits)
  ultimately show thesis using that law by (simp add: fq_frames_def)
qed

lemma collect_chain:
  "chain nd_next ns p xs \<Longrightarrow> \<exists>p'. collect ns k p = (take k xs, p') \<and> chain nd_next ns p' (drop k xs)"
proof (induction ns k p arbitrary: xs rule: collect.induct)
  case (2 ns k p)
  then show ?case by (cases xs) (fastforce split: option.splits)+
qed simp

lemma dequeue_law:
  assumes "fq_inv q xs ps" "fq_count q = int (length xs)" "xs \<noteq> []" "0 < m"
  obtains q' where "can_queue_dequeue_batch m q = (Returned (int (length (take (nat m) xs)), take (nat m) xs), q')"
    "fq_inv q' (drop (nat m) xs) ps" "\<And>zs. fq_frames q' zs = fq_frames q zs"
    "fq_count q' = int (length (drop (nat m) xs))" "fq_max_size q' = fq_max_size q"
proof -
  let ?k = "nat (if fq_count q < m then fq_count q else m)"
  have k: "take ?k xs = take (nat m) xs" "drop ?k xs = drop (nat m) xs" using assms(2) by auto
  obtain p where c: "collect (fq_nodes q) ?k (fq_head q) = (take (nat m) xs, p)" "chain nd_next (fq_nodes q) p (drop (nat m) xs)"
    using collect_chain[of "fq_nodes q" "fq_head q" xs ?k] assms(1) k by (auto simp: fq_inv_def)
  have p: "p = None \<longleftrightarrow> drop (nat m) xs = []" using c(2) by (cases "drop (nat m) xs") auto
  let ?q = "q\<lparr>fq_head := p, fq_tail := (if p = None then None else fq_tail q), fq_count := fq_count q - int (length (take (nat m) xs))\<rparr>"
  have d: "can_queue_dequeue_batch m q = (Returned (int (length (take (nat m) xs)), take (nat m) xs), ?q)"
    using assms(2-4) c(1) by (simp add: can_queue_dequeue_batch_def Let_def)
  have "distinct (drop (nat m) xs @ ps)" using assms(1) by (auto simp: fq_inv_def dest: in_set_dropD)
  then have "fq_inv ?q (drop (nat m) xs) ps" using assms(1) c(2) p by (simp add: fq_inv_def)
  then show thesis using that[OF d] assms(2) by (simp add: fq_frames_def min_def)
qed

lemma recycle_law:
  assumes "fq_inv q xs ps" "n < length (fq_nodes q)" "n \<notin> set (xs @ ps)"
  shows "fq_inv (can_queue_recycle_nodes [n] q) xs (n # ps)" "fq_frames (can_queue_recycle_nodes [n] q) zs = fq_frames q zs"
proof -
  let ?q = "upd_node n (\<lambda>x. x\<lparr>nd_pool_next := fq_pool_head q\<rparr>) q"
  have "chain nd_next (fq_nodes ?q) (fq_head q) xs" "chain nd_pool_next (fq_nodes ?q) (fq_pool_head q) ps"
    using assms by (auto simp: fq_inv_def intro!: chain_frame[of _ "fq_nodes q"])
  then show "fq_inv (can_queue_recycle_nodes [n] q) xs (n # ps)"
    using assms by (simp add: can_queue_recycle_nodes_def fq_inv_def)
  show "fq_frames (can_queue_recycle_nodes [n] q) zs = fq_frames q zs"
    by (simp add: can_queue_recycle_nodes_def fq_frames_def)
qed

lemma init_law:
  assumes "0 < m"
  shows "fq_inv (can_queue_init True junk m q) [] [0..<nat m]"
proof -
  let ?ns = "fq_nodes (can_queue_init True junk m q)"
  have len: "length ?ns = nat m" and link: "\<And>i. i < nat m \<Longrightarrow> nd_pool_next (?ns ! i) = (if Suc i < nat m then Some (Suc i) else None)"
    using assms by (auto simp: can_queue_init_def)
  have "i \<le> nat m \<Longrightarrow> chain nd_pool_next ?ns (if i < nat m then Some i else None) [i..<nat m]" for i
  proof (induction "nat m - i" arbitrary: i)
    case (Suc k)
    then have "i < nat m" by simp
    then show ?case using Suc.hyps(1)[of "Suc i"] Suc.hyps(2) len link[of i] by (simp add: upt_conv_Cons)
  qed simp
  from this[of 0] show ?thesis using assms by (simp add: fq_inv_def) (simp add: can_queue_init_def)
qed

section \<open>Batches in any order\<close>

text \<open>
  A client enqueues batches within the limits, dequeues and recycles the nodes that it has taken, one at a time.  \<open>ins\<close> and \<open>outs\<close> are
  the frames that went in and out, \<open>taken\<close> the nodes that are not yet recycled.
\<close>

inductive fq_steps :: "CanFrameQueue \<Rightarrow> axican_frame list \<Rightarrow> axican_frame list \<Rightarrow> nat list \<Rightarrow> CanFrameQueue \<Rightarrow> bool" for q0 where
  fq_start: "fq_steps q0 [] [] [] q0"
| fq_enqueue: "fq_steps q0 ins outs taken q \<Longrightarrow> batch \<noteq> [] \<Longrightarrow> fq_count q + 2 * int (length batch) \<le> fq_max_size q \<Longrightarrow>
    fq_count q + int (length taken) + int (length batch) \<le> fq_max_size q \<Longrightarrow> can_queue_enqueue_batch batch q = (r, q') \<Longrightarrow>
    fq_steps q0 (ins @ map bf_frame batch) outs taken q'"
| fq_dequeue: "fq_steps q0 ins outs taken q \<Longrightarrow> can_queue_dequeue_batch m q = (Returned (k, ns), q') \<Longrightarrow>
    fq_steps q0 ins (outs @ fq_frames q' ns) (taken @ ns) q'"
| fq_recycle: "fq_steps q0 ins outs (taken1 @ n # taken2) q \<Longrightarrow>
    fq_steps q0 ins outs (taken1 @ taken2) (can_queue_recycle_nodes [n] q)"

definition fq_good :: "axican_frame list \<Rightarrow> axican_frame list \<Rightarrow> nat list \<Rightarrow> CanFrameQueue \<Rightarrow> nat list \<Rightarrow> nat list \<Rightarrow> bool" where
  "fq_good ins outs taken q xs ps \<longleftrightarrow> fq_inv q xs ps \<and> fq_count q = int (length xs) \<and> ins = outs @ fq_frames q xs \<and>
     int (length xs + length ps + length taken) = fq_max_size q \<and> distinct (xs @ ps @ taken) \<and>
     (\<forall>n \<in> set taken. n < length (fq_nodes q))"

lemma enqueue_nodes: "can_queue_enqueue_batch batch q = (r, q') \<Longrightarrow> length (fq_nodes q') = length (fq_nodes q)"
proof -
  have l: "length (fq_nodes (link_node b n l q)) = length (fq_nodes q)" for b n l q
    by (simp add: link_node_def Let_def split: option.split)
  have "append_nodes bs l q = (ok, l', q'') \<Longrightarrow> length (fq_nodes q'') = length (fq_nodes q)" for bs l l' q q'' ok
    by (induction bs l q rule: append_nodes.induct) (auto simp: l split: option.splits)
  then show "can_queue_enqueue_batch batch q = (r, q') \<Longrightarrow> length (fq_nodes q') = length (fq_nodes q)"
    by (fastforce simp: can_queue_enqueue_batch_def enqueue_resume_def enqueue_finish_def split: if_splits prod.splits bool.splits)
qed

lemma fq_good_enqueue:
  assumes "fq_good ins outs taken q xs ps" "batch \<noteq> []" "fq_count q + 2 * int (length batch) \<le> fq_max_size q"
    "fq_count q + int (length taken) + int (length batch) \<le> fq_max_size q" "can_queue_enqueue_batch batch q = (r, q')"
  shows "r = Returned 0 \<and> fq_good (ins @ map bf_frame batch) outs taken q' (xs @ take (length batch) ps) (drop (length batch) ps)"
proof -
  have inv: "fq_inv q xs ps" and len: "length batch \<le> length ps" using assms(1,4) by (auto simp: fq_good_def)
  obtain q2 where e: "can_queue_enqueue_batch batch q = (Returned 0, q2)"
    "fq_inv q2 (xs @ take (length batch) ps) (drop (length batch) ps)"
    "fq_frames q2 (xs @ take (length batch) ps) = fq_frames q xs @ map bf_frame batch"
    "fq_count q2 = fq_count q + int (length batch)" "fq_max_size q2 = fq_max_size q"
    using enqueue_law[OF inv assms(2) len assms(3)] by blast
  have "distinct (xs @ (take (length batch) ps @ drop (length batch) ps) @ taken)" using assms(1) by (simp add: fq_good_def)
  then have "distinct ((xs @ take (length batch) ps) @ drop (length batch) ps @ taken)" by (simp only: append_assoc)
  then show ?thesis using assms(1,5) e len enqueue_nodes[OF e(1)] by (auto simp: fq_good_def)
qed

lemma fq_good_dequeue:
  assumes "fq_good ins outs taken q xs ps" "can_queue_dequeue_batch m q = (Returned (k, ns), q')"
  shows "\<exists>xs'. fq_good ins (outs @ fq_frames q' ns) (taken @ ns) q' xs' ps"
proof (cases "m \<le> 0")
  case True
  then show ?thesis using assms by (auto simp: can_queue_dequeue_batch_def fq_frames_def intro: exI[of _ xs])
next
  case False
  have g: "fq_inv q xs ps" "fq_count q = int (length xs)" using assms(1) by (simp_all add: fq_good_def)
  have ne: "xs \<noteq> []" using assms(2) False g(2) by (auto simp: can_queue_dequeue_batch_def)
  obtain q2 where d: "can_queue_dequeue_batch m q = (Returned (int (length (take (nat m) xs)), take (nat m) xs), q2)"
    "fq_inv q2 (drop (nat m) xs) ps" "\<And>zs. fq_frames q2 zs = fq_frames q zs"
    "fq_count q2 = int (length (drop (nat m) xs))" "fq_max_size q2 = fq_max_size q"
    using dequeue_law[OF g ne, of m] False by (metis not_le)
  have e: "ns = take (nat m) xs" "q' = q2" using assms(2) d(1) by simp_all
  have n: "fq_nodes q2 = fq_nodes q" using d(1) False by (auto simp: can_queue_dequeue_batch_def Let_def split: prod.splits if_splits)
  have "fq_frames q xs = fq_frames q (take (nat m) xs) @ fq_frames q (drop (nat m) xs)"
    by (simp add: fq_frames_def flip: map_append)
  moreover have "distinct (drop (nat m) xs @ ps @ taken @ take (nat m) xs)"
    using assms(1) set_take_disj_set_drop_if_distinct[of xs "nat m" "nat m"]
    by (auto simp: fq_good_def dest: in_set_takeD in_set_dropD)
  moreover have "x < length (fq_nodes q)" if "x \<in> set (take (nat m) xs)" for x
    using g(1) that chain_bounds in_set_takeD unfolding fq_inv_def by metis
  ultimately have "fq_good ins (outs @ fq_frames q' ns) (taken @ ns) q' (drop (nat m) xs) ps"
    using assms(1) d(2-5) n unfolding fq_good_def e by (auto simp: min_def)
  then show ?thesis by blast
qed

lemma fq_good_recycle:
  assumes "fq_good ins outs (taken1 @ n # taken2) q xs ps"
  shows "fq_good ins outs (taken1 @ taken2) (can_queue_recycle_nodes [n] q) xs (n # ps)"
proof -
  have r: "fq_inv q xs ps" "n < length (fq_nodes q)" "n \<notin> set (xs @ ps)" using assms by (auto simp: fq_good_def)
  show ?thesis
    using assms recycle_law(1)[OF r] recycle_law(2)[OF r, of xs]
    by (auto simp: fq_good_def) (simp_all add: can_queue_recycle_nodes_def)
qed

lemma fq_steps_good:
  assumes "fq_steps (can_queue_init True junk m q0) ins outs taken q" "0 < m"
  shows "\<exists>xs ps. fq_good ins outs taken q xs ps"
  using assms(1)
proof (induction rule: fq_steps.induct)
  case fq_start
  have "fq_good [] [] [] (can_queue_init True junk m q0) [] [0..<nat m]"
    using init_law[OF assms(2), of junk q0] assms(2) by (simp add: fq_good_def fq_frames_def) (simp add: can_queue_init_def)
  then show ?case by blast
next
  case (fq_enqueue ins outs taken q batch r q')
  then show ?case using fq_good_enqueue by blast
next
  case (fq_dequeue ins outs taken q m k ns q')
  then show ?case using fq_good_dequeue by blast
next
  case (fq_recycle ins outs taken1 n taken2 q)
  then show ?case using fq_good_recycle by blast
qed

definition queued :: "CanFrameQueue \<Rightarrow> nat list" where
  "queued q = fst (collect (fq_nodes q) (nat (fq_count q)) (fq_head q))"

lemma fq_good_queued: "fq_good ins outs taken q xs ps \<Longrightarrow> queued q = xs"
  using collect_chain[of "fq_nodes q" "fq_head q" xs "length xs"] by (auto simp: fq_good_def fq_inv_def queued_def)

section \<open>Where the limits come from\<close>

text \<open>
  The batch is counted before there is room for it, so that a batch of more than half the capacity waits for ever, even on an empty
  queue: no call of the consumer changes anything, and the producer finds no room when it is woken.
\<close>

lemma large_batch_waits_for_ever:
  assumes "batch \<noteq> []" "m < 2 * int (length batch)" "0 < m" "can_queue_enqueue_batch batch (can_queue_init True junk m q) = (r, q1)"
  shows "r = Waiting \<and> enqueue_resume batch q1 = (Waiting, q1) \<and> (0 < k \<longrightarrow> can_queue_dequeue_batch k q1 = (Returned (0, []), q1))"
proof -
  let ?q = "can_queue_init True junk m q"
  have i: "fq_count ?q = 0" "fq_max_size ?q = m" "fq_head ?q = None" "fq_tail ?q = None"
    using assms(3) by (simp_all add: can_queue_init_def)
  have e: "r = Waiting" "q1 = ?q\<lparr>fq_count := int (length batch)\<rparr>"
    using assms(1,2,4) i by (auto simp: can_queue_enqueue_batch_def enqueue_resume_def split: if_splits)
  have "enqueue_resume batch q1 = (Waiting, q1)" using assms(2) i by (simp add: e(2) enqueue_resume_def)
  moreover have "collect ns n None = ([], None)" for ns n by (cases n) simp_all
  then have "can_queue_dequeue_batch k q1 = (Returned (0, []), q1)" if "0 < k"
    using that assms(1) i by (simp add: e(2) can_queue_dequeue_batch_def)
  ultimately show ?thesis using e(1) by blast
qed

text \<open>
  Recycling two nodes at once relies on their old links in the free list.  Here node 2 is queued and free at the same time, and
  the free list would hand it out again.
\<close>

definition demo_frame :: "u32 \<Rightarrow> BatchFrame" where
  "demo_frame i = \<lparr>bf_frame = \<lparr>af_can_id = i, af_can_dlc = 0, af_data0 = 0, af_data1 = 0, af_timestamp = 0\<rparr>, bf_ts = (0, 0), bf_can_id = 0\<rparr>"

definition demo_queue :: CanFrameQueue where
  "demo_queue = can_queue_init True (\<lambda>_. \<lparr>nd_frame = bf_frame (demo_frame 0), nd_can_id = 0, nd_timestamp = (0, 0), nd_next = None,
     nd_pool_next = None\<rparr>) 4 \<lparr>fq_head = None, fq_tail = None, fq_pool_head = None, fq_count = 0, fq_max_size = 0, fq_nodes = []\<rparr>"

lemma recycle_batch_aliases:
  "let enq = (\<lambda>i q. snd (can_queue_enqueue_batch [demo_frame i] q));
       deq = (\<lambda>k q. snd (can_queue_dequeue_batch k q));
       q = can_queue_recycle_nodes [1, 0] (deq 2 (enq 4 (enq 3 (can_queue_recycle_nodes [0] (deq 1 (enq 2 (enq 1 demo_queue)))))))
   in queued q = [2] \<and> fq_pool_head q = Some 1 \<and> nd_pool_next (fq_nodes q ! 1) = Some 2"
  by code_simp

text \<open>The block is released through the head of the free list, which is its first node only by chance.\<close>

lemma destroy_frees_inner_pointer: "fst (can_queue_destroy (snd (can_queue_enqueue_batch [demo_frame 1] demo_queue))) = Some 1"
  by code_simp

section \<open>Properties\<close>



end
