(* ===== verification/Spec2Isabelle.thy ===== *)
theory Spec2Isabelle
  imports Broadcast_Path System_Receive Pps_Driver Flashcp Ring_Concurrent Lock_Order Legacy_Buffers Frame_Queue
begin

text \<open>
  Verification of the ZYNQ CAN gateway (\<^verbatim>\<open>src/ZMHT-ZYNQ-CAN\<close>).

  \<^bold>\<open>The program.\<close>  A server connects a host to six CAN devices.  The host uses four TCP connections: commands (9009),
  upload of received frames, answers and reports (9010), events (9011) and download of frames (9012).  Threads exchange data
  through sets of ring buffers, one ring per channel: normal frames, simulator replies, pulse data, received frames, monitored
  transmissions and broadcast groups.  A pulse per second drives the broadcast scheduler.  A separate module writes flash images.

  \<^bold>\<open>Theories and sources.\<close>  File names are relative to \<^verbatim>\<open>src/ZMHT-ZYNQ-CAN/src\<close>.
  \<^item> \<open>Can_Prelude\<close>: types, little-endian byte images, lemma collections.
  \<^item> \<open>Wire_Bytes\<close>: byte order and checksum (\<^verbatim>\<open>main18.c\<close>: \<open>reverse_4bytes\<close>, \<open>calculate_xor_checksum\<close>).  \<open>Wire_Structs\<close>: the packed
    structures as records with their byte images and round trips.
  \<^item> \<open>Ring_Pow2\<close>, \<open>Ring_Buffer\<close>, \<open>Ring_Channels\<close>: \<^verbatim>\<open>ringbuffer_channels.c\<close>.  \<open>Fifo_Spec\<close> is the interface of a bounded queue (locale
    \<open>bounded_fifo\<close>); both levels are interpretations of it.  \<open>Ring_Concurrent\<close>: the same ring used by two threads without a lock.
  \<^item> \<open>Server_State\<close>: the global variables as the record \<open>server\<close>, the operating system as the record \<open>os\<close> of oracles, and the
    functions that send events, answers and status packets.
  \<^item> \<open>Broadcast\<close>: configuration, receive window, group queues, selection of channels on a pulse, sending (\<open>handle_broadcast_config\<close> to
    \<open>broadcast_can_send_thread\<close>), with the interleavings of all its users as a step relation.
  \<^item> \<open>Commands\<close>, \<open>Command_Stream\<close>: the command handlers and the connection on port 9009.  \<open>Download_Stream\<close>: port 9012.
    \<open>Stream_Spec\<close> is the interface of a framed byte stream (locale \<open>framed_stream\<close>); both connections are interpretations of it.
  \<^item> \<open>Packet_Send\<close>: the sending threads and the reassembly of messages (\<open>axican_data_send_thread\<close>).
  \<^item> \<open>Receive\<close>: \<^verbatim>\<open>axican/axican.c\<close>, the receiving threads, the transmit monitor and both reporting threads.
  \<^item> \<open>Simulator\<close>: the device simulator (\<open>along_data_tid_thread\<close>).
  \<^item> \<open>Connections\<close>: the listening threads, the handlers of ports 9010 and 9011, the registration of the client of each port (locale
    \<open>registered_client\<close>, interpreted for three ports) and the thread that waits for the pulse (\<open>pps_irq_thread\<close>).
  \<^item> \<open>Pps_Driver\<close>: \<^verbatim>\<open>zmuav_pl2ps_irq.c\<close>, the kernel module of the pulse, and the thread that waits for it.
  \<^item> \<open>Startup\<close>: the first part of \<open>main\<close>: buffers, devices, roll-back.  \<open>Main_Run\<close>: the rest of \<open>main\<close>: threads, release of resources.
  \<^item> \<open>Lock_Order\<close>: every function that takes a mutex, reduced to its lock operations, and a checker for the order of locks.
  \<^item> \<open>End_To_End\<close> and this theory: the way of a frame from the host to the bus.  \<open>Broadcast_Path\<close>: that of a broadcast group.
  \<^item> \<open>Server_Inv\<close>, \<open>Server_Turns\<close>, \<open>System_Run\<close>: the whole program after its start, as a transition system whose steps are the turns of
    all threads, and its invariant; \<open>server_ok\<close> joins the invariants of the components, and each turn keeps it.  What clients send is
    treated once for every relation that composes (locales \<open>command_relation\<close> and \<open>download_relation\<close>, interpreted for the invariant
    and for both results below).  \<open>System_Scheduler\<close>, \<open>System_Receive\<close>: the runs of the program are runs of the transition systems of
    \<open>Broadcast\<close> and, for a channel without a loaded simulator, of \<open>Receive\<close>.
  \<^item> \<open>Flashcp\<close>: \<^verbatim>\<open>flashcp.c\<close>.
  \<^item> Code that the program does not call: \<open>Legacy_Buffers\<close>, the older buffers, report and simulator of \<^verbatim>\<open>main18.c\<close> (another interpretation of
    \<open>bounded_fifo\<close>); \<open>Frame_Queue\<close>, the linked queue of \<^verbatim>\<open>can_frame_queue.c\<close> over an explicit store of nodes.

  \<^bold>\<open>How state and code correspond.\<close>  A C structure is a record with the same fields, a fixed-width integer is a word, an array is a
  list of the same length, a null pointer is \<open>None\<close>, a negative error code is the left side of a sum.  A thread is one
  definition per turn of its loop; waiting is a guard under which the turn does nothing.  A mutex is not part of that state: a definition
  is a critical section.  What justifies it is in \<open>Lock_Order\<close> for the mutexes and in \<open>Ring_Concurrent\<close> for the rings, which are used without
  one.  Every system call consumes one value of its oracle, selected by the number of calls
  made so far, and what leaves the process is appended to \<open>sys_trace\<close>, so that statements about the bus and the host are
  statements about that trace.

  \<^bold>\<open>What the lemmas show.\<close>
  \<^item> Rings and channel sets refine bounded queues, across index wrap-around; channels do not influence each other; an initialisation
    that runs out of memory releases everything; the start of the program establishes every assumption of the other parts.
  \<^item> Both byte streams are served independently of segmentation, packet by packet and in order, resynchronise after noise, and no
    input can damage the state.
  \<^item> The scheduler keeps its invariant under every interleaving, delivers groups in order, at most one per pulse, polls fairly, alternates
    between its groups, and a reconfiguration discards stale wakes.
  \<^item> In every run of all threads together, whatever clients and devices send and whatever system calls fail, every queue keeps its
    shape and capacity, every table and buffer its bounds, the scheduler and the receive
    queues are used only as their components assume, and the end of \<open>main\<close> releases what its start acquired.
  \<^item> A broadcast group that the host sends while the window is open reaches the bus complete, one group for each pulse that selects the
    channel.
  \<^item> Messages are sent complete or not at all; frames of the bus reach the host in order, and those of the host the bus.
  \<^item> A client that is replaced or dropped on ports 9010, 9011 and 9012 is shut down, under every order of connections.
  \<^item> No pulse is lost between the interrupt handler and the scheduler, and the driver releases its resources in reverse order.
  \<^item> A ring with one producer and one consumer needs no lock: interleaved byte by byte it still is a bounded queue, and two
    consumers break it.  The threads cannot deadlock on their mutexes.
  \<^item> The linked queue keeps its frames in order within limits that are tight.
  \<^item> The simulator never overruns its array and answers with the configured data; a successful flash run left the
    image in the device, and its write phase ends.

  \<^bold>\<open>Loops and bounds.\<close>  The loops over receive buffers, transfers and blocks are functions with termination proofs; endless thread loops
  are given a number of turns, and statements hold for every number, or say how many turns are enough.  Buffer sizes are those
  of the source (4096 and 2097256 bytes for the connections, 131072, 32768, 2048, 32 and 16 elements for the queues, ten packets per message,
  six waiting frames, 64 KB blocks, 10000 retries).

  \<^bold>\<open>Not modelled.\<close>  Console output (with \<open>progress\<close> and \<open>fflush_all\<close> of \<^verbatim>\<open>flashcp.c\<close>) and the effect of scheduling
  parameters; reordering of memory accesses by the processor; the parts of \<open>handle_along_mode\<close> and
  \<open>send_received_can_frame_to_pc\<close> behind an access outside an object, to which the language gives no meaning; headers that only
  declare (\<^verbatim>\<open>upgrade_flash.h\<close>); generated build files.
\<close>

section \<open>Properties across components\<close>

text \<open>
  C2.  What the host sends reaches the bus: when the current download client sends valid single-packet payloads for an open
  channel, in whatever segments, and the queue of that channel is empty and large enough, then the receive buffer is empty
  afterwards and as many rounds of the sending thread write exactly the frames of these payloads to the device of the channel, in
  order and once each.
\<close>

theorem host_frames_reach_bus:
  assumes "dl_ok s" and "tx_ok ch s" and "channel_configured s ch" and "running s" and "data_download_socket s = sock"
    and "\<forall>f \<in> set fs. host_payload ch f" and "normal_queue s ch = []" and "length fs \<le> ch_room ch 32 (g_data_buf_set s)"
    and "concat chunks = concat (map (\<lambda>f. encode_data_packet counter 1 channel (pc_arm_data_bytes f)) fs)"
    and "chunks_fit os [] chunks s"
  shows "let (rest, s1) = download_client os sock (map Received chunks) ([], s); t = send_rounds os ch (length fs) s1 in
    rest = [] \<and> normal_queue t ch = [] \<and>
    tx_log (tx_fd ch s) t = tx_log (tx_fd ch s) s @ map (\<lambda>p. single_frame p 0) fs"
proof -
  have l: "length (normal_queue s ch) + length fs \<le> ch_room ch 32 (g_data_buf_set s)" using assms(7,8) by simp
  obtain q where d: "download_drain os (concat chunks) s = ([], s\<lparr>g_data_buf_set := q\<rparr>)" and q: "set_inv q" "elem_size q = 48"
      "normal_queue (s\<lparr>g_data_buf_set := q\<rparr>) ch = map pc_arm_data_bytes fs @ []"
    using host_stream_drained[OF assms(1,3,6) l, of os counter channel] assms(7) unfolding assms(9) by auto
  let ?s1 = "s\<lparr>g_data_buf_set := q\<rparr>"
  have "download_verdict [] = Need" by (simp add: download_verdict_def)
  then have c: "download_client os sock (map Received chunks) ([], s) = ([], ?s1)"
    using download_client_chunks[OF assms(4,5) _ assms(10)] d by simp
  have "tx_ok ch ?s1" using assms(2) q(1,2) by (simp add: tx_ok_def)
  moreover have "\<forall>f \<in> set fs. sendable ch f \<and> seq_sum f = 1"
    using assms(6) host_payload_sendable by (auto simp: host_payload_def)
  ultimately show ?thesis using singles_sent[of ch ?s1 fs "[]" os] assms(4) q(3) c by simp
qed

text \<open>A payload for channel 0 with its checksum.\<close>

definition demo_host :: PC_ARM_DATA_DATA where
  "demo_host = zero_payload\<lparr>pd_head := PC_STATUS_HEAD, pd_type := 1, pd_length := 48, pd_packets_sum := 1,
     pd_xor_checksum := 0x49A603D3\<rparr>"

lemma demo_host_payload: "host_payload 0 demo_host"
  by code_simp

lemma demo_gateway_ok:
  "dl_ok demo_gateway" "tx_ok 0 demo_gateway" "channel_configured demo_gateway 0" "running demo_gateway"
  "data_download_socket demo_gateway = -1" "normal_queue demo_gateway 0 = []"
  "ch_room 0 32 (g_data_buf_set demo_gateway) = 2" "tx_fd 0 demo_gateway = 0" "tx_log 0 demo_gateway = []"
proof -
  show "dl_ok demo_gateway" by (rule demo_gateway_dl)
  then have "set_inv (g_data_buf_set demo_gateway)" by (simp add: dl_ok_def)
  then show "tx_ok 0 demo_gateway" by (simp add: tx_ok_def) (simp add: demo_gateway_def demo_server_def boot_server_def)
  show "channel_configured demo_gateway 0" "running demo_gateway" "data_download_socket demo_gateway = -1"
    "normal_queue demo_gateway 0 = []" "ch_room 0 32 (g_data_buf_set demo_gateway) = 2" "tx_fd 0 demo_gateway = 0"
    "tx_log 0 demo_gateway = []"
    by (simp_all add: channel_configured_def demo_gateway_def demo_server_def boot_server_def zero_axican_def tx_log_def
        normal_queue_def ch_view_def ch_room_def ch_ok_def ringbuffer_channel_valid_def ch_contents_def ch_capacity_def
        channel_of_def rb_list_def rb_count_def rb_capacity_def)
qed

theorem host_frames_reach_bus_witness:
  "tx_log 0 (send_rounds demo_os 0 1 (snd (download_client demo_os (-1)
      [Received (encode_data_packet 1 1 0 (pc_arm_data_bytes demo_host))] ([], demo_gateway)))) = [single_frame demo_host 0]"
proof -
  let ?p = "encode_data_packet 1 1 0 (pc_arm_data_bytes demo_host)"
  have "length ?p = 68" by (simp add: encode_data_packet_def Let_def)
  then have "chunks_fit demo_os [] [?p] demo_gateway" by (simp split: prod.split)
  moreover obtain r s1 where "download_client demo_os (-1) [Received ?p] ([], demo_gateway) = (r, s1)" by fastforce
  ultimately show ?thesis
    using host_frames_reach_bus[of demo_gateway 0 "-1" "[demo_host]" "[?p]" 1 0 demo_os] demo_gateway_ok demo_host_payload
    by (simp add: Let_def del: download_client.simps send_rounds.simps chunks_fit.simps)
qed

end
